(* ===== verification/Lock_Prelude.thy ===== *)
theory Lock_Prelude
  imports Main "HOL-Library.Word"
begin

text \<open>
  Shared vocabulary of the development: the machine integers of the crate, the part of
  \<^verbatim>\<open>std::io::Error\<close> the crate uses (its kinds, its raw OS codes and the decoding of a code
  into a kind), results as sums with the error on the left, and two interfaces that several
  components share. The locale \<open>transition_system\<close> is the invariant rule of the concurrent
  parts (tracker, owner process, lock manager); its client lemma is proved once here.

  Messages of errors (the second argument of \<^verbatim>\<open>io::Error::new\<close>) are only ever logged or
  displayed and are left out.
\<close>

section \<open>Machine integers\<close>

type_synonym u8 = "8 word"
type_synonym i16 = "16 word"
type_synonym i32 = "32 word"
type_synonym u32 = "32 word"
type_synonym i64 = "64 word"
type_synonym u64 = "64 word"

text \<open>
  An owned descriptor stands for the open file description it refers to: passing it over a
  socket or cloning it gives another number for the same description.
\<close>

type_synonym fd = nat

text \<open>\<^verbatim>\<open>std::time::Duration\<close>: whole seconds and the nanoseconds below one second.\<close>

record Duration =
  as_secs :: u64
  subsec_nanos :: u32

definition from_secs :: "u64 \<Rightarrow> Duration" where
  "from_secs s = \<lparr>as_secs = s, subsec_nanos = 0\<rparr>"

definition from_millis :: "u64 \<Rightarrow> Duration" where
  "from_millis m = \<lparr>as_secs = m div 1000, subsec_nanos = ucast (m mod 1000) * 1000000\<rparr>"

section \<open>Error numbers and error kinds\<close>

type_synonym errno = i32

abbreviation EPERM :: errno where "EPERM \<equiv> 1"
abbreviation ENOENT :: errno where "ENOENT \<equiv> 2"
abbreviation EINTR :: errno where "EINTR \<equiv> 4"
abbreviation EIO :: errno where "EIO \<equiv> 5"
abbreviation E2BIG :: errno where "E2BIG \<equiv> 7"
abbreviation EBADF :: errno where "EBADF \<equiv> 9"
abbreviation EAGAIN :: errno where "EAGAIN \<equiv> 11"
abbreviation ENOMEM :: errno where "ENOMEM \<equiv> 12"
abbreviation EACCES :: errno where "EACCES \<equiv> 13"
abbreviation EBUSY :: errno where "EBUSY \<equiv> 16"
abbreviation EEXIST :: errno where "EEXIST \<equiv> 17"
abbreviation EXDEV :: errno where "EXDEV \<equiv> 18"
abbreviation ENOTDIR :: errno where "ENOTDIR \<equiv> 20"
abbreviation EISDIR :: errno where "EISDIR \<equiv> 21"
abbreviation EINVAL :: errno where "EINVAL \<equiv> 22"
abbreviation ETXTBSY :: errno where "ETXTBSY \<equiv> 26"
abbreviation EFBIG :: errno where "EFBIG \<equiv> 27"
abbreviation ENOSPC :: errno where "ENOSPC \<equiv> 28"
abbreviation ESPIPE :: errno where "ESPIPE \<equiv> 29"
abbreviation EROFS :: errno where "EROFS \<equiv> 30"
abbreviation EMLINK :: errno where "EMLINK \<equiv> 31"
abbreviation EPIPE :: errno where "EPIPE \<equiv> 32"
abbreviation EDEADLK :: errno where "EDEADLK \<equiv> 35"
abbreviation ENAMETOOLONG :: errno where "ENAMETOOLONG \<equiv> 36"
abbreviation ENOLCK :: errno where "ENOLCK \<equiv> 37"
abbreviation ENOSYS :: errno where "ENOSYS \<equiv> 38"
abbreviation ENOTEMPTY :: errno where "ENOTEMPTY \<equiv> 39"
abbreviation ELOOP :: errno where "ELOOP \<equiv> 40"
abbreviation EOPNOTSUPP :: errno where "EOPNOTSUPP \<equiv> 95"
abbreviation EADDRINUSE :: errno where "EADDRINUSE \<equiv> 98"
abbreviation EADDRNOTAVAIL :: errno where "EADDRNOTAVAIL \<equiv> 99"
abbreviation ENETDOWN :: errno where "ENETDOWN \<equiv> 100"
abbreviation ENETUNREACH :: errno where "ENETUNREACH \<equiv> 101"
abbreviation ECONNABORTED :: errno where "ECONNABORTED \<equiv> 103"
abbreviation ECONNRESET :: errno where "ECONNRESET \<equiv> 104"
abbreviation ENOTCONN :: errno where "ENOTCONN \<equiv> 107"
abbreviation ETIMEDOUT :: errno where "ETIMEDOUT \<equiv> 110"
abbreviation ECONNREFUSED :: errno where "ECONNREFUSED \<equiv> 111"
abbreviation EHOSTUNREACH :: errno where "EHOSTUNREACH \<equiv> 113"
abbreviation EINPROGRESS :: errno where "EINPROGRESS \<equiv> 115"
abbreviation ESTALE :: errno where "ESTALE \<equiv> 116"
abbreviation EDQUOT :: errno where "EDQUOT \<equiv> 122"

text \<open>The kinds of \<^verbatim>\<open>std::io::ErrorKind\<close>.\<close>

datatype error_kind =
    NotFound | PermissionDenied | ConnectionRefused | ConnectionReset | HostUnreachable
  | NetworkUnreachable | ConnectionAborted | NotConnected | AddrInUse | AddrNotAvailable
  | NetworkDown | BrokenPipe | AlreadyExists | WouldBlock | NotADirectory | IsADirectory
  | DirectoryNotEmpty | ReadOnlyFilesystem | FilesystemLoop | StaleNetworkFileHandle
  | InvalidInput | InvalidData | TimedOut | WriteZero | StorageFull | NotSeekable
  | QuotaExceeded | FileTooLarge | ResourceBusy | ExecutableFileBusy | Deadlock
  | CrossesDevices | TooManyLinks | InvalidFilename | ArgumentListTooLong | Interrupted
  | Unsupported | UnexpectedEof | OutOfMemory | InProgress | Other | Uncategorized

text \<open>
  An \<^verbatim>\<open>io::Error\<close> is either built from an OS code (\<^verbatim>\<open>from_raw_os_error\<close>, or the
  conversion from a \<^verbatim>\<open>nix\<close> or \<^verbatim>\<open>rustix\<close> errno) or made with a kind.
\<close>

datatype io_error = Os errno | Custom error_kind

type_synonym 'a io_result = "io_error + 'a"

text \<open>The standard library's decoding of an OS code (\<^verbatim>\<open>decode_error_kind\<close> on Unix).\<close>

definition error_kind_table :: "(errno \<times> error_kind) list" where
  "error_kind_table =
     [(E2BIG, ArgumentListTooLong), (EADDRINUSE, AddrInUse), (EADDRNOTAVAIL, AddrNotAvailable),
      (EBUSY, ResourceBusy), (ECONNABORTED, ConnectionAborted), (ECONNREFUSED, ConnectionRefused),
      (ECONNRESET, ConnectionReset), (EDEADLK, Deadlock), (EDQUOT, QuotaExceeded),
      (EEXIST, AlreadyExists), (EFBIG, FileTooLarge), (EHOSTUNREACH, HostUnreachable),
      (EINTR, Interrupted), (EINVAL, InvalidInput), (EISDIR, IsADirectory),
      (ELOOP, FilesystemLoop), (ENOENT, NotFound), (ENOMEM, OutOfMemory), (ENOSPC, StorageFull),
      (ENOSYS, Unsupported), (EMLINK, TooManyLinks), (ENAMETOOLONG, InvalidFilename),
      (ENETDOWN, NetworkDown), (ENETUNREACH, NetworkUnreachable), (ENOTCONN, NotConnected),
      (ENOTDIR, NotADirectory), (ENOTEMPTY, DirectoryNotEmpty), (EPIPE, BrokenPipe),
      (EROFS, ReadOnlyFilesystem), (ESPIPE, NotSeekable), (ESTALE, StaleNetworkFileHandle),
      (ETIMEDOUT, TimedOut), (ETXTBSY, ExecutableFileBusy), (EXDEV, CrossesDevices),
      (EINPROGRESS, InProgress), (EOPNOTSUPP, Unsupported), (EACCES, PermissionDenied),
      (EPERM, PermissionDenied), (EAGAIN, WouldBlock)]"

definition decode_error_kind :: "errno \<Rightarrow> error_kind" where
  "decode_error_kind e =
     (case map_of error_kind_table e of Some k \<Rightarrow> k | None \<Rightarrow> Uncategorized)"

fun kind :: "io_error \<Rightarrow> error_kind" where
  "kind (Os e) = decode_error_kind e"
| "kind (Custom k) = k"

fun raw_os_error :: "io_error \<Rightarrow> errno option" where
  "raw_os_error (Os e) = Some e"
| "raw_os_error (Custom k) = None"

definition is_ok :: "('e + 'a) \<Rightarrow> bool" where
  "is_ok r = (case r of Inl _ \<Rightarrow> False | Inr _ \<Rightarrow> True)"

definition is_err :: "('e + 'a) \<Rightarrow> bool" where
  "is_err r = (\<not> is_ok r)"

text \<open>The \<^verbatim>\<open>?\<close> operator: go on with the value, or return the error.\<close>

definition and_then :: "('e + 'a) \<Rightarrow> ('a \<Rightarrow> 'e + 'b) \<Rightarrow> 'e + 'b" where
  "and_then r f = (case r of Inl e \<Rightarrow> Inl e | Inr x \<Rightarrow> f x)"

section \<open>Reachable states of a transition system\<close>

inductive reachable_from :: "('s \<Rightarrow> 's \<Rightarrow> bool) \<Rightarrow> 's \<Rightarrow> 's \<Rightarrow> bool"
  for step :: "'s \<Rightarrow> 's \<Rightarrow> bool" and s0 :: 's where
  rf_refl: "reachable_from step s0 s0"
| rf_step: "reachable_from step s0 s \<Longrightarrow> step s t \<Longrightarrow> reachable_from step s0 t"

text \<open>The interface of a component whose steps keep an invariant.\<close>

locale transition_system =
  fixes init :: "'s \<Rightarrow> bool"
    and step :: "'s \<Rightarrow> 's \<Rightarrow> bool"
    and inv :: "'s \<Rightarrow> bool"
  assumes inv_start: "init s \<Longrightarrow> inv s"
    and inv_keep: "inv s \<Longrightarrow> step s t \<Longrightarrow> inv t"
begin

lemma inv_run: "reachable_from step s t \<Longrightarrow> inv s \<Longrightarrow> inv t"
  by (induction rule: reachable_from.induct) (auto intro: inv_keep)

lemma inv_reachable: "init s \<Longrightarrow> reachable_from step s t \<Longrightarrow> inv t"
  by (blast intro: inv_run inv_start)

text \<open>A property that every step from an invariant state keeps holds along every run.\<close>

lemma stable_run:
  assumes run: "reachable_from step s t" and start: "inv s" "P s"
    and keep: "\<And>u v. inv u \<Longrightarrow> P u \<Longrightarrow> step u v \<Longrightarrow> P v"
  shows "P t"
proof -
  from run have "inv t \<and> P t"
  proof (induction rule: reachable_from.induct)
    case rf_refl
    show ?case using start by simp
  next
    case (rf_step u v)
    then show ?case by (blast intro: inv_keep keep)
  qed
  then show ?thesis by simp
qed

end

section \<open>Generic lemmas\<close>

named_theorems result_simps \<open>evaluation of results\<close>

lemma is_ok_simps [simp, result_simps]:
  "is_ok (Inr x :: 'e + 'a)" "\<not> is_ok (Inl e :: 'e + 'a)"
  "is_err (Inl e :: 'e + 'a)" "\<not> is_err (Inr x :: 'e + 'a)"
  by (simp_all add: is_ok_def is_err_def)

lemma and_then_simps [simp, result_simps]:
  "and_then (Inl e) f = Inl e" "and_then (Inr x) f = f x"
  by (simp_all add: and_then_def)

lemma is_okE: "is_ok r \<Longrightarrow> (\<And>x. r = Inr x \<Longrightarrow> P) \<Longrightarrow> P"
  by (cases r) simp_all

lemma is_errE: "is_err r \<Longrightarrow> (\<And>e. r = Inl e \<Longrightarrow> P) \<Longrightarrow> P"
  by (cases r) simp_all

lemma reachable_from_trans:
  "reachable_from step t u \<Longrightarrow> reachable_from step s t \<Longrightarrow> reachable_from step s u"
  by (induction rule: reachable_from.induct) (auto intro: rf_step)

lemma reachable_from_single: "step s t \<Longrightarrow> reachable_from step s t"
  by (rule rf_step [OF rf_refl])

text \<open>
  A specification that a component implements: its states are abstracted by \<open>absf\<close>, and every step
  of the component is a step of the specification or is not visible there.
\<close>

locale refinement = transition_system +
  fixes absf :: "'a \<Rightarrow> 'b"
    and ainit :: "'b \<Rightarrow> bool"
    and astep :: "'b \<Rightarrow> 'b \<Rightarrow> bool"
  assumes sim_start: "init s \<Longrightarrow> ainit (absf s)"
    and sim_step: "inv s \<Longrightarrow> step s t \<Longrightarrow> absf t = absf s \<or> astep (absf s) (absf t)"
begin

lemma sim_run: "reachable_from step s t \<Longrightarrow> inv s \<Longrightarrow> reachable_from astep (absf s) (absf t)"
proof (induction rule: reachable_from.induct)
  case (rf_step u v)
  then have "absf v = absf u \<or> astep (absf u) (absf v)" using sim_step inv_run by blast
  then show ?case using rf_step by (auto intro: reachable_from.rf_step)
qed (rule rf_refl)

text \<open>What every reachable state of the specification satisfies, every reachable state of the component does.\<close>

lemma sim_transfer:
  assumes "init s" "reachable_from step s t" "\<And>u v. ainit u \<Longrightarrow> reachable_from astep u v \<Longrightarrow> P v"
  shows "P (absf t)"
  using assms sim_run [OF assms(2)] sim_start inv_start by blast

end

text \<open>A cast to a narrower integer and back, and the other way round.\<close>

lemma ucast_scast_i16 [simp]: "(ucast (scast (x :: i16) :: i32) :: i16) = x"
  by (rule bit_word_eqI) (simp add: bit_simps)

lemma set_sum_simps:
  "card (insert x A) = Suc (card A)" if "finite A" "x \<notin> A"
  using that by simp

end
