(* ===== verification/Lock_Types.thy ===== *)
theory Lock_Types
  imports Lock_Prelude
begin

text \<open>
  The wrapper types of \<^verbatim>\<open>src/types.rs\<close>: lock actions, lock types, whence values and lock
  parameters, with their conversions to and from the integers and the \<^verbatim>\<open>struct flock\<close> of
  the C library. The numeric constants belong to the \<^verbatim>\<open>libc\<close> crate and are a parameter
  \<open>c\<close> of the conversions. What the code relies on is \<open>consts_ok\<close>: inside each of the three
  enums the discriminants differ (the compiler enforces it), and the values cast to 16 bits
  fit in 16 bits.
\<close>

section \<open>Data\<close>

record libc_consts =
  F_SETLK :: i32
  F_SETLKW :: i32
  F_GETLK :: i32
  F_RDLCK :: i32
  F_WRLCK :: i32
  F_UNLCK :: i32
  SEEK_SET :: i32
  SEEK_CUR :: i32
  SEEK_END :: i32

datatype LockAction = SetLockNonBlocking | SetLockBlocking | GetLockStatus

datatype LockType = Read | Write | Unlock

datatype LockWhence = Start | Current | End

record LockParams =
  lock_type :: LockType
  whence :: LockWhence
  start :: i64
  len :: i64
  pid :: i32

record flock =
  l_type :: i16
  l_whence :: i16
  l_start :: i64
  l_len :: i64
  l_pid :: i32

section \<open>Conversions\<close>

definition LockAction_try_from :: "libc_consts \<Rightarrow> i32 \<Rightarrow> LockAction io_result" where
  "LockAction_try_from c value =
     (if value = F_SETLK c then Inr SetLockNonBlocking
      else if value = F_SETLKW c then Inr SetLockBlocking
      else if value = F_GETLK c then Inr GetLockStatus
      else Inl (Custom InvalidInput))"

fun LockAction_into_i32 :: "libc_consts \<Rightarrow> LockAction \<Rightarrow> i32" where
  "LockAction_into_i32 c SetLockNonBlocking = F_SETLK c"
| "LockAction_into_i32 c SetLockBlocking = F_SETLKW c"
| "LockAction_into_i32 c GetLockStatus = F_GETLK c"

definition LockType_try_from :: "libc_consts \<Rightarrow> i32 \<Rightarrow> LockType io_result" where
  "LockType_try_from c value =
     (if value = F_RDLCK c then Inr Read
      else if value = F_WRLCK c then Inr Write
      else if value = F_UNLCK c then Inr Unlock
      else Inl (Custom InvalidInput))"

fun LockType_into_i16 :: "libc_consts \<Rightarrow> LockType \<Rightarrow> i16" where
  "LockType_into_i16 c Read = ucast (F_RDLCK c)"
| "LockType_into_i16 c Write = ucast (F_WRLCK c)"
| "LockType_into_i16 c Unlock = ucast (F_UNLCK c)"

definition LockType_into_i32 :: "libc_consts \<Rightarrow> LockType \<Rightarrow> i32" where
  "LockType_into_i32 c value = scast (LockType_into_i16 c value)"

definition LockWhence_try_from :: "libc_consts \<Rightarrow> i32 \<Rightarrow> LockWhence io_result" where
  "LockWhence_try_from c value =
     (if value = SEEK_SET c then Inr Start
      else if value = SEEK_CUR c then Inr Current
      else if value = SEEK_END c then Inr End
      else Inl (Custom InvalidInput))"

fun LockWhence_into_i16 :: "libc_consts \<Rightarrow> LockWhence \<Rightarrow> i16" where
  "LockWhence_into_i16 c Start = ucast (SEEK_SET c)"
| "LockWhence_into_i16 c Current = ucast (SEEK_CUR c)"
| "LockWhence_into_i16 c End = ucast (SEEK_END c)"

definition LockWhence_into_i32 :: "libc_consts \<Rightarrow> LockWhence \<Rightarrow> i32" where
  "LockWhence_into_i32 c value = scast (LockWhence_into_i16 c value)"

text \<open>
  The \<^verbatim>\<open>map_err\<close> of the source replaces the inner error by one of kind
  \<^verbatim>\<open>InvalidInput\<close> that carries it.
\<close>

definition invalid_input :: "'a io_result \<Rightarrow> 'a io_result" where
  "invalid_input r = (case r of Inl _ \<Rightarrow> Inl (Custom InvalidInput) | Inr x \<Rightarrow> Inr x)"

definition LockParams_try_from :: "libc_consts \<Rightarrow> flock \<Rightarrow> LockParams io_result" where
  "LockParams_try_from c value =
     and_then (invalid_input (LockType_try_from c (scast (l_type value)))) (\<lambda>ty.
     and_then (invalid_input (LockWhence_try_from c (scast (l_whence value)))) (\<lambda>wh.
     Inr \<lparr>lock_type = ty, whence = wh, start = l_start value, len = l_len value,
          pid = l_pid value\<rparr>))"

definition flock_from :: "libc_consts \<Rightarrow> LockParams \<Rightarrow> flock" where
  "flock_from c value =
     \<lparr>l_type = LockType_into_i16 c (lock_type value),
      l_whence = LockWhence_into_i16 c (whence value),
      l_start = start value, l_len = len value, l_pid = pid value\<rparr>"

section \<open>What the code relies on\<close>

definition fits_i16 :: "i32 \<Rightarrow> bool" where
  "fits_i16 x \<longleftrightarrow> (scast (ucast x :: i16) :: i32) = x"

definition consts_ok :: "libc_consts \<Rightarrow> bool" where
  "consts_ok c \<longleftrightarrow>
     distinct [F_SETLK c, F_SETLKW c, F_GETLK c] \<and>
     distinct [F_RDLCK c, F_WRLCK c, F_UNLCK c] \<and>
     distinct [SEEK_SET c, SEEK_CUR c, SEEK_END c] \<and>
     list_all fits_i16 [F_RDLCK c, F_WRLCK c, F_UNLCK c, SEEK_SET c, SEEK_CUR c, SEEK_END c]"

text \<open>The values on Linux (\<^verbatim>\<open>asm-generic/fcntl.h\<close>).\<close>

definition linux_consts :: libc_consts where
  "linux_consts = \<lparr>F_SETLK = 6, F_SETLKW = 7, F_GETLK = 5, F_RDLCK = 0, F_WRLCK = 1,
     F_UNLCK = 2, SEEK_SET = 0, SEEK_CUR = 1, SEEK_END = 2\<rparr>"

text \<open>The interface between the crate and the C library's constants.\<close>

locale libc_abi =
  fixes c :: libc_consts
  assumes abi: "consts_ok c"
begin

lemma i16_consts [simp]:
  "scast (ucast (F_RDLCK c) :: i16) = F_RDLCK c" "scast (ucast (F_WRLCK c) :: i16) = F_WRLCK c"
  "scast (ucast (F_UNLCK c) :: i16) = F_UNLCK c" "scast (ucast (SEEK_SET c) :: i16) = SEEK_SET c"
  "scast (ucast (SEEK_CUR c) :: i16) = SEEK_CUR c" "scast (ucast (SEEK_END c) :: i16) = SEEK_END c"
  using abi by (simp_all add: consts_ok_def fits_i16_def)

lemma distinct_consts [simp]:
  "F_SETLKW c \<noteq> F_SETLK c" "F_GETLK c \<noteq> F_SETLK c" "F_GETLK c \<noteq> F_SETLKW c"
  "F_WRLCK c \<noteq> F_RDLCK c" "F_UNLCK c \<noteq> F_RDLCK c" "F_UNLCK c \<noteq> F_WRLCK c"
  "SEEK_CUR c \<noteq> SEEK_SET c" "SEEK_END c \<noteq> SEEK_SET c" "SEEK_END c \<noteq> SEEK_CUR c"
  using abi by (auto simp: consts_ok_def)

lemma action_roundtrip: "LockAction_try_from c (LockAction_into_i32 c a) = Inr a"
  by (cases a) (simp_all add: LockAction_try_from_def)

lemma type_roundtrip: "LockType_try_from c (scast (LockType_into_i16 c t)) = Inr t"
  by (cases t) (simp_all add: LockType_try_from_def)

lemma whence_roundtrip: "LockWhence_try_from c (scast (LockWhence_into_i16 c w)) = Inr w"
  by (cases w) (simp_all add: LockWhence_try_from_def)

lemma params_roundtrip: "LockParams_try_from c (flock_from c p) = Inr p"
  by (simp add: LockParams_try_from_def flock_from_def invalid_input_def
      type_roundtrip whence_roundtrip)

lemma flock_from_inj: "flock_from c p = flock_from c q \<Longrightarrow> p = q"
  by (metis params_roundtrip sum.inject(2))

end

interpretation linux: libc_abi linux_consts
  by unfold_locales (simp add: consts_ok_def linux_consts_def fits_i16_def)

section \<open>Properties\<close>

lemma invalid_input_Inr [simp]: "invalid_input r = Inr x \<longleftrightarrow> r = Inr x"
  by (cases r) (simp_all add: invalid_input_def)

lemma invalid_input_Inl: "invalid_input r = Inl e \<longleftrightarrow> e = Custom InvalidInput \<and> is_err r"
  by (cases r) (auto simp: invalid_input_def)

lemma LockType_try_from_Inr:
  assumes "LockType_try_from c (scast x) = Inr t"
  shows "LockType_into_i16 c t = x"
proof -
  from assms have "LockType_into_i16 c t = ucast (scast x :: i32)"
    by (cases t) (auto simp: LockType_try_from_def simp del: ucast_scast_i16 split: if_splits)
  then show ?thesis by simp
qed

lemma LockWhence_try_from_Inr:
  assumes "LockWhence_try_from c (scast x) = Inr w"
  shows "LockWhence_into_i16 c w = x"
proof -
  from assms have "LockWhence_into_i16 c w = ucast (scast x :: i32)"
    by (cases w) (auto simp: LockWhence_try_from_def simp del: ucast_scast_i16 split: if_splits)
  then show ?thesis by simp
qed

lemma LockParams_try_from_Inr:
  "LockParams_try_from c f = Inr p \<Longrightarrow> flock_from c p = f"
  by (auto simp: LockParams_try_from_def flock_from_def and_then_def
      dest!: LockType_try_from_Inr LockWhence_try_from_Inr split: sum.splits)

lemma flock_params_reject:
  "LockParams_try_from c f = Inl e \<longleftrightarrow>
     e = Custom InvalidInput \<and>
     \<not> (scast (l_type f) \<in> {F_RDLCK c, F_WRLCK c, F_UNLCK c} \<and>
        scast (l_whence f) \<in> {SEEK_SET c, SEEK_CUR c, SEEK_END c})"
  by (auto simp: LockParams_try_from_def LockType_try_from_def LockWhence_try_from_def
      invalid_input_def)

lemma flock_params_accept:
  "consts_ok c \<Longrightarrow> LockParams_try_from c f = Inr p \<longleftrightarrow> f = flock_from c p"
  using LockParams_try_from_Inr [of c f p] libc_abi.params_roundtrip [OF libc_abi.intro, of c p] by auto

text \<open>
  Property C31. A \<^verbatim>\<open>struct flock\<close> converts to lock parameters exactly when it is the
  conversion of those parameters: the two conversions are inverse to each other, so nothing of
  a lock request is lost or changed between the crate's types and the kernel's. The conversion
  fails with kind \<^verbatim>\<open>InvalidInput\<close>, and with no other error, exactly on the structures whose
  lock type or whence is none of the three known values.
\<close>

theorem flock_params_iff:
  assumes "consts_ok c"
  shows "(LockParams_try_from c f = Inr p \<longleftrightarrow> f = flock_from c p) \<and>
    (LockParams_try_from c f = Inl e \<longleftrightarrow> e = Custom InvalidInput \<and>
       \<not> (scast (l_type f) \<in> {F_RDLCK c, F_WRLCK c, F_UNLCK c} \<and>
          scast (l_whence f) \<in> {SEEK_SET c, SEEK_CUR c, SEEK_END c}))"
  using flock_params_accept [OF assms] flock_params_reject by blast

theorem flock_params_iff_witness:
  "consts_ok linux_consts \<and>
   LockParams_try_from linux_consts
     \<lparr>l_type = 1, l_whence = 0, l_start = 5, l_len = 25, l_pid = 0\<rparr> =
   Inr \<lparr>lock_type = Write, whence = Start, start = 5, len = 25, pid = 0\<rparr>"
proof -
  have ok: "consts_ok linux_consts" by (rule linux.abi)
  show ?thesis
    using ok flock_params_iff [OF ok,
      of "\<lparr>l_type = 1, l_whence = 0, l_start = 5, l_len = 25, l_pid = 0\<rparr>"
         "\<lparr>lock_type = Write, whence = Start, start = 5, len = 25, pid = 0\<rparr>"]
    by (simp add: flock_from_def linux_consts_def)
qed

text \<open>The command and type integers convert back to the enum value they come from.\<close>

lemma enum_roundtrips:
  assumes "consts_ok c"
  shows "LockAction_try_from c (LockAction_into_i32 c a) = Inr a \<and>
         LockType_try_from c (LockType_into_i32 c t) = Inr t \<and>
         LockWhence_try_from c (LockWhence_into_i32 c w) = Inr w"
  using libc_abi.action_roundtrip [OF libc_abi.intro [OF assms]]
    libc_abi.type_roundtrip [OF libc_abi.intro [OF assms]]
    libc_abi.whence_roundtrip [OF libc_abi.intro [OF assms]]
  by (simp add: LockType_into_i32_def LockWhence_into_i32_def)

end
