(* ===== verification/Messages.thy ===== *)
theory Messages
  imports Lock_Types
begin

text \<open>
  The message types of \<^verbatim>\<open>src/messages.rs\<close> (lines 25 to 535): the raw message that goes over
  the wire, one type per request with its conversion to and from the raw message and the
  attached descriptors, the sum of the requests an owner process accepts, the request to the
  coordinator, and the reply data.

  Each request type implements the trait \<^verbatim>\<open>Serializable\<close>; the contract the transport relies
  on is the locale \<open>serializable\<close>, interpreted below for every request type.
\<close>

section \<open>Data\<close>

datatype RawMessage =
    RawMessage_Ping
  | RawMessage_Interrupt u64
  | RawMessage_RemoveInterrupt u64
  | RawMessage_Register
  | RawMessage_Unregister u64
  | RawMessage_LockCommand u64 LockAction LockParams

datatype Ping = Ping
datatype Interrupt = Interrupt (interrupt_id: u64)
datatype Register = Register (register_fd: fd)
datatype Unregister = Unregister (unregister_id: u64)
datatype LockCommand =
  LockCommand (command_id: u64) (command_action: LockAction) (command_params: LockParams)
datatype RequestSpawnOwner = RequestSpawnOwner (spawn_ttl: Duration)
datatype RemoveInterrupt = RemoveInterrupt (remove_id: u64)

datatype Message =
    Message_Ping Ping
  | Message_Interrupt Interrupt
  | Message_RemoveInterrupt RemoveInterrupt
  | Message_Register Register
  | Message_Unregister Unregister
  | Message_LockCommand LockCommand

text \<open>The structure of a reply object: the descriptor the reply is sent on.\<close>

datatype RawReply = RawReply (channel: fd)

datatype ReplyLockCommandData = Pending u64 | Done LockParams

text \<open>
  The reply objects: one structure per request, each around a \<open>RawReply\<close>. The trait \<^verbatim>\<open>Replyable\<close>
  chooses the structure (\<open>create_reply\<close>), and the trait \<^verbatim>\<open>Reply\<close> the type of its payload, which
  \<open>Sessions\<close> states for the owner process.
\<close>

datatype reply_object =
    ReplyPing RawReply
  | ReplyInterrupt RawReply
  | ReplyRegister RawReply
  | ReplyUnregister RawReply
  | ReplyLockCommand RawReply
  | ReplyRequestSpawnOwner RawReply
  | ReplyRemoveInterrupt RawReply

fun raw_reply :: "reply_object \<Rightarrow> RawReply" where
  "raw_reply (ReplyPing raw) = raw"
| "raw_reply (ReplyInterrupt raw) = raw"
| "raw_reply (ReplyRegister raw) = raw"
| "raw_reply (ReplyUnregister raw) = raw"
| "raw_reply (ReplyLockCommand raw) = raw"
| "raw_reply (ReplyRequestSpawnOwner raw) = raw"
| "raw_reply (ReplyRemoveInterrupt raw) = raw"

definition Ping_create_reply :: "fd \<Rightarrow> reply_object" where
  "Ping_create_reply fd = ReplyPing (RawReply fd)"

definition Interrupt_create_reply :: "fd \<Rightarrow> reply_object" where
  "Interrupt_create_reply fd = ReplyInterrupt (RawReply fd)"

definition Register_create_reply :: "fd \<Rightarrow> reply_object" where
  "Register_create_reply fd = ReplyRegister (RawReply fd)"

definition Unregister_create_reply :: "fd \<Rightarrow> reply_object" where
  "Unregister_create_reply fd = ReplyUnregister (RawReply fd)"

definition LockCommand_create_reply :: "fd \<Rightarrow> reply_object" where
  "LockCommand_create_reply fd = ReplyLockCommand (RawReply fd)"

definition RequestSpawnOwner_create_reply :: "fd \<Rightarrow> reply_object" where
  "RequestSpawnOwner_create_reply fd = ReplyRequestSpawnOwner (RawReply fd)"

definition RemoveInterrupt_create_reply :: "fd \<Rightarrow> reply_object" where
  "RemoveInterrupt_create_reply fd = ReplyRemoveInterrupt (RawReply fd)"

text \<open>The reply object that the receiving loop makes for a request.\<close>

fun create_reply :: "Message \<Rightarrow> fd \<Rightarrow> reply_object" where
  "create_reply (Message_Ping _) = Ping_create_reply"
| "create_reply (Message_Interrupt _) = Interrupt_create_reply"
| "create_reply (Message_RemoveInterrupt _) = RemoveInterrupt_create_reply"
| "create_reply (Message_Register _) = Register_create_reply"
| "create_reply (Message_Unregister _) = Unregister_create_reply"
| "create_reply (Message_LockCommand _) = LockCommand_create_reply"

lemmas create_reply_defs = Ping_create_reply_def Interrupt_create_reply_def Register_create_reply_def
  Unregister_create_reply_def LockCommand_create_reply_def RequestSpawnOwner_create_reply_def
  RemoveInterrupt_create_reply_def

lemma create_reply_raw [simp]: "raw_reply (create_reply m fd) = RawReply fd"
  by (cases m) (simp_all add: create_reply_defs)

section \<open>Serialization\<close>

fun Ping_serialize :: "Ping \<Rightarrow> RawMessage \<times> fd list" where
  "Ping_serialize Ping = (RawMessage_Ping, [])"

fun Ping_deserialize :: "RawMessage \<Rightarrow> fd list \<Rightarrow> Ping io_result" where
  "Ping_deserialize RawMessage_Ping _ = Inr Ping"
| "Ping_deserialize _ _ = Inl (Custom InvalidInput)"

fun Interrupt_serialize :: "Interrupt \<Rightarrow> RawMessage \<times> fd list" where
  "Interrupt_serialize (Interrupt i) = (RawMessage_Interrupt i, [])"

fun Interrupt_deserialize :: "RawMessage \<Rightarrow> fd list \<Rightarrow> Interrupt io_result" where
  "Interrupt_deserialize (RawMessage_Interrupt thread_id) _ = Inr (Interrupt thread_id)"
| "Interrupt_deserialize _ _ = Inl (Custom InvalidInput)"

fun Register_serialize :: "Register \<Rightarrow> RawMessage \<times> fd list" where
  "Register_serialize (Register fd) = (RawMessage_Register, [fd])"

text \<open>The number of descriptors is checked before the payload.\<close>

definition Register_deserialize :: "RawMessage \<Rightarrow> fd list \<Rightarrow> Register io_result" where
  "Register_deserialize payload fds =
     (if length fds \<noteq> 1 then Inl (Custom InvalidInput)
      else case payload of
        RawMessage_Register \<Rightarrow> Inr (Register (last fds))
      | _ \<Rightarrow> Inl (Custom InvalidInput))"

fun Unregister_serialize :: "Unregister \<Rightarrow> RawMessage \<times> fd list" where
  "Unregister_serialize (Unregister i) = (RawMessage_Unregister i, [])"

fun Unregister_deserialize :: "RawMessage \<Rightarrow> fd list \<Rightarrow> Unregister io_result" where
  "Unregister_deserialize (RawMessage_Unregister i) _ = Inr (Unregister i)"
| "Unregister_deserialize _ _ = Inl (Custom InvalidInput)"

fun LockCommand_serialize :: "LockCommand \<Rightarrow> RawMessage \<times> fd list" where
  "LockCommand_serialize (LockCommand i a p) = (RawMessage_LockCommand i a p, [])"

fun LockCommand_deserialize :: "RawMessage \<Rightarrow> fd list \<Rightarrow> LockCommand io_result" where
  "LockCommand_deserialize (RawMessage_LockCommand i a p) _ = Inr (LockCommand i a p)"
| "LockCommand_deserialize _ _ = Inl (Custom InvalidInput)"

fun RequestSpawnOwner_serialize :: "RequestSpawnOwner \<Rightarrow> Duration \<times> fd list" where
  "RequestSpawnOwner_serialize (RequestSpawnOwner ttl) = (ttl, [])"

fun RequestSpawnOwner_deserialize :: "Duration \<Rightarrow> fd list \<Rightarrow> RequestSpawnOwner io_result" where
  "RequestSpawnOwner_deserialize payload _ = Inr (RequestSpawnOwner payload)"

fun RemoveInterrupt_serialize :: "RemoveInterrupt \<Rightarrow> RawMessage \<times> fd list" where
  "RemoveInterrupt_serialize (RemoveInterrupt i) = (RawMessage_RemoveInterrupt i, [])"

fun RemoveInterrupt_deserialize :: "RawMessage \<Rightarrow> fd list \<Rightarrow> RemoveInterrupt io_result" where
  "RemoveInterrupt_deserialize (RawMessage_RemoveInterrupt i) _ = Inr (RemoveInterrupt i)"
| "RemoveInterrupt_deserialize _ _ = Inl (Custom InvalidInput)"

fun Message_serialize :: "Message \<Rightarrow> RawMessage \<times> fd list" where
  "Message_serialize (Message_Ping ping) = Ping_serialize ping"
| "Message_serialize (Message_Interrupt interrupt) = Interrupt_serialize interrupt"
| "Message_serialize (Message_Register register) = Register_serialize register"
| "Message_serialize (Message_Unregister unregister) = Unregister_serialize unregister"
| "Message_serialize (Message_LockCommand lock_command) = LockCommand_serialize lock_command"
| "Message_serialize (Message_RemoveInterrupt remove) = RemoveInterrupt_serialize remove"

definition map_ok :: "('a \<Rightarrow> 'b) \<Rightarrow> 'a io_result \<Rightarrow> 'b io_result" where
  "map_ok f r = and_then r (\<lambda>x. Inr (f x))"

definition Message_deserialize :: "RawMessage \<Rightarrow> fd list \<Rightarrow> Message io_result" where
  "Message_deserialize payload fds =
     (case payload of
        RawMessage_Ping \<Rightarrow> map_ok Message_Ping (Ping_deserialize payload fds)
      | RawMessage_Interrupt _ \<Rightarrow> map_ok Message_Interrupt (Interrupt_deserialize payload fds)
      | RawMessage_Register \<Rightarrow> map_ok Message_Register (Register_deserialize payload fds)
      | RawMessage_Unregister _ \<Rightarrow> map_ok Message_Unregister (Unregister_deserialize payload fds)
      | RawMessage_LockCommand _ _ _ \<Rightarrow>
          map_ok Message_LockCommand (LockCommand_deserialize payload fds)
      | RawMessage_RemoveInterrupt _ \<Rightarrow>
          map_ok Message_RemoveInterrupt (RemoveInterrupt_deserialize payload fds))"

section \<open>The contract of the trait Serializable\<close>

locale serializable =
  fixes ser :: "'r \<Rightarrow> 'p \<times> fd list"
    and deser :: "'p \<Rightarrow> fd list \<Rightarrow> 'r io_result"
  assumes deser_ser: "deser (fst (ser r)) (snd (ser r)) = Inr r"
begin

lemma ser_inj: "ser q = ser r \<Longrightarrow> q = r"
  by (metis deser_ser sum.inject(2))

end

lemma map_ok_simps [simp]: "map_ok f (Inr x) = Inr (f x)" "map_ok f (Inl e) = Inl e"
  by (simp_all add: map_ok_def)

lemmas serialize_defs = Register_deserialize_def Message_deserialize_def

interpretation ping: serializable Ping_serialize Ping_deserialize
  by unfold_locales (metis Ping.exhaust Ping_deserialize.simps(1) Ping_serialize.simps fst_conv)

interpretation interrupt: serializable Interrupt_serialize Interrupt_deserialize
proof unfold_locales
  fix r show "Interrupt_deserialize (fst (Interrupt_serialize r)) (snd (Interrupt_serialize r)) = Inr r"
    by (cases r) simp
qed

interpretation register: serializable Register_serialize Register_deserialize
proof unfold_locales
  fix r show "Register_deserialize (fst (Register_serialize r)) (snd (Register_serialize r)) = Inr r"
    by (cases r) (simp add: serialize_defs)
qed

interpretation unregister: serializable Unregister_serialize Unregister_deserialize
proof unfold_locales
  fix r show "Unregister_deserialize (fst (Unregister_serialize r)) (snd (Unregister_serialize r)) = Inr r"
    by (cases r) simp
qed

interpretation lock_command: serializable LockCommand_serialize LockCommand_deserialize
proof unfold_locales
  fix r show "LockCommand_deserialize (fst (LockCommand_serialize r)) (snd (LockCommand_serialize r)) = Inr r"
    by (cases r) simp
qed

interpretation remove_interrupt: serializable RemoveInterrupt_serialize RemoveInterrupt_deserialize
proof unfold_locales
  fix r show "RemoveInterrupt_deserialize (fst (RemoveInterrupt_serialize r))
      (snd (RemoveInterrupt_serialize r)) = Inr r"
    by (cases r) simp
qed

interpretation spawn_owner: serializable RequestSpawnOwner_serialize RequestSpawnOwner_deserialize
proof unfold_locales
  fix r show "RequestSpawnOwner_deserialize (fst (RequestSpawnOwner_serialize r))
      (snd (RequestSpawnOwner_serialize r)) = Inr r"
    by (cases r) simp
qed

interpretation message: serializable Message_serialize Message_deserialize
proof unfold_locales
  fix m show "Message_deserialize (fst (Message_serialize m)) (snd (Message_serialize m)) = Inr m"
  proof (cases m)
    case (Message_Ping p)
    then show ?thesis by (cases p) (simp add: serialize_defs)
  next
    case (Message_Interrupt i)
    then show ?thesis by (cases i) (simp add: serialize_defs)
  next
    case (Message_RemoveInterrupt i)
    then show ?thesis by (cases i) (simp add: serialize_defs)
  next
    case (Message_Register r)
    then show ?thesis by (cases r) (simp add: serialize_defs)
  next
    case (Message_Unregister u)
    then show ?thesis by (cases u) (simp add: serialize_defs)
  next
    case (Message_LockCommand l)
    then show ?thesis by (cases l) (simp add: serialize_defs)
  qed
qed

section \<open>Properties\<close>

lemma Message_deserialize_Inr:
  "Message_deserialize p fds = Inr m \<Longrightarrow>
     fst (Message_serialize m) = p \<and> (p = RawMessage_Register \<longrightarrow> snd (Message_serialize m) = fds)"
  by (cases p) (auto simp: serialize_defs length_Suc_conv split: if_splits)

lemma Message_deserialize_iff:
  "(Message_deserialize p fds = Inr m) =
     (if p = RawMessage_Register then Message_serialize m = (p, fds) else fst (Message_serialize m) = p)"
proof
  assume "Message_deserialize p fds = Inr m"
  then show "if p = RawMessage_Register then Message_serialize m = (p, fds) else fst (Message_serialize m) = p"
    using Message_deserialize_Inr [of p fds m] by (cases "Message_serialize m") auto
next
  assume ser: "if p = RawMessage_Register then Message_serialize m = (p, fds) else fst (Message_serialize m) = p"
  show "Message_deserialize p fds = Inr m"
  proof (cases "p = RawMessage_Register")
    case True
    then show ?thesis using ser message.deser_ser [of m] by simp
  next
    case False
    then have "Message_deserialize p fds = Message_deserialize p (snd (Message_serialize m))"
      by (cases p) (simp_all add: serialize_defs)
    then show ?thesis using False ser message.deser_ser [of m] by simp
  qed
qed

text \<open>
  Property C32. The wire format of the owner's requests is exact. A message is accepted from a
  payload and its descriptors exactly when serializing it gives that payload and, for a
  \<^verbatim>\<open>Register\<close>, those descriptors; so every request survives, distinct requests stay distinct, and
  nothing else is accepted. The only payload rejected after decoding is a \<^verbatim>\<open>Register\<close> that does not
  carry exactly one descriptor, and it is rejected as invalid input.
\<close>

theorem message_roundtrip:
  "(Message_deserialize p fds = Inr m) =
     (if p = RawMessage_Register then Message_serialize m = (p, fds) else fst (Message_serialize m) = p) \<and>
   (Message_serialize m = Message_serialize m') = (m = m') \<and>
   (Message_deserialize p fds = Inl e) = (e = Custom InvalidInput \<and> p = RawMessage_Register \<and> length fds \<noteq> 1)"
  using Message_deserialize_iff [of p fds m] message.ser_inj [of m m']
  by (cases p) (auto simp: serialize_defs)

end
