(* ===== verification/Framing.thy ===== *)
theory Framing
  imports Messages
begin

text \<open>
  The transport of \<^verbatim>\<open>src/messages.rs\<close>: frames over Unix stream sockets (lines 411 to 426 and
  537 to 708) and requests with a one-shot reply socket on top of them (lines 710 to 810).
  A frame is two native-endian (little-endian on the crate's targets) 64-bit lengths, of the
  payload and of the attached descriptors, and the payload; the descriptors travel as an
  SCM_RIGHTS ancillary message.

  The system calls are a parameter \<open>k\<close>, a record of functions on the kernel's state \<open>'s\<close>, and so
  is the bincode codec. What the code relies on is stated by the locales \<open>unix_sockets\<close> and
  \<open>codec_api\<close>. Allocation failure, and messages so large that the kernel would split them, are
  not modelled.
\<close>

section \<open>System calls and codec\<close>

datatype Ancillary = ScmRights "fd list" | ScmUnknown

text \<open>
  \<open>recvmsg a n cap peek\<close> receives at most \<open>n\<close> bytes from socket \<open>a\<close> with the flag MSG_WAITALL
  into buffers of \<open>n\<close> bytes in all, with room for \<open>cap\<close> descriptors; \<open>peek\<close> is MSG_PEEK.
\<close>

record 's socket_calls =
  recvmsg :: "fd \<Rightarrow> nat \<Rightarrow> nat \<Rightarrow> bool \<Rightarrow> 's \<Rightarrow> (errno + u8 list \<times> Ancillary list) \<times> 's"
  sendmsg :: "fd \<Rightarrow> u8 list \<Rightarrow> fd list \<Rightarrow> 's \<Rightarrow> (errno + nat) \<times> 's"
  socketpair :: "'s \<Rightarrow> (errno + fd \<times> fd) \<times> 's"
  close_fd :: "fd \<Rightarrow> 's \<Rightarrow> 's"

record 'p codec =
  enc :: "'p \<Rightarrow> u8 list option"
  dec :: "u8 list \<Rightarrow> 'p option"

section \<open>Integers as bytes\<close>

fun to_le_bytes :: "nat \<Rightarrow> 'a::len word \<Rightarrow> u8 list" where
  "to_le_bytes 0 w = []"
| "to_le_bytes (Suc n) w = ucast w # to_le_bytes n (drop_bit 8 w)"

fun from_le_bytes :: "u8 list \<Rightarrow> 'a::len word" where
  "from_le_bytes [] = 0"
| "from_le_bytes (b # bs) = ucast b + push_bit 8 (from_le_bytes bs)"

definition to_ne_bytes :: "u64 \<Rightarrow> u8 list" where
  "to_ne_bytes w = to_le_bytes 8 w"

definition from_ne_bytes :: "u8 list \<Rightarrow> u64" where
  "from_ne_bytes bs = from_le_bytes bs"

section \<open>Frames\<close>

text \<open>
  A receive that reports zero bytes is repeated once; a second zero is the end of the stream.
\<close>

definition recv_retry ::
    "'s socket_calls \<Rightarrow> fd \<Rightarrow> nat \<Rightarrow> nat \<Rightarrow> bool \<Rightarrow> 's \<Rightarrow>
     (u8 list \<times> Ancillary list) io_result \<times> 's" where
  "recv_retry k a n cap peek s =
     (case recvmsg k a n cap peek s of
        (Inl e, s1) \<Rightarrow> (Inl (Os e), s1)
      | (Inr (bytes, anc), s1) \<Rightarrow>
          if bytes \<noteq> [] then (Inr (bytes, anc), s1)
          else (case recvmsg k a n cap peek s1 of
                  (Inl e, s2) \<Rightarrow> (Inl (Os e), s2)
                | (Inr (bytes', anc'), s2) \<Rightarrow>
                    if bytes' \<noteq> [] then (Inr (bytes', anc'), s2)
                    else (Inl (Custom BrokenPipe), s2)))"

fun collect_rights :: "Ancillary list \<Rightarrow> fd list io_result" where
  "collect_rights [] = Inr []"
| "collect_rights (ScmRights rights # anc) = map_ok (\<lambda>fds. rights @ fds) (collect_rights anc)"
| "collect_rights (ScmUnknown # anc) = Inl (Custom InvalidData)"

text \<open>
  The descriptors of an ancillary buffer; those that are not handed on are closed when the
  buffer or the vector that holds them is dropped.
\<close>

fun anc_fds :: "Ancillary list \<Rightarrow> fd list" where
  "anc_fds [] = []"
| "anc_fds (ScmRights rights # anc) = rights @ anc_fds anc"
| "anc_fds (ScmUnknown # anc) = anc_fds anc"

definition drop_fds :: "'s socket_calls \<Rightarrow> fd list \<Rightarrow> 's \<Rightarrow> 's" where
  "drop_fds k fds s = fold (close_fd k) fds s"

definition receive_raw_message ::
    "'s socket_calls \<Rightarrow> fd \<Rightarrow> 's \<Rightarrow> (u8 list \<times> fd list) io_result \<times> 's" where
  "receive_raw_message k socket s =
     (case recv_retry k socket 16 0 True s of
        (Inl e, s1) \<Rightarrow> (Inl e, s1)
      | (Inr (header, _), s1) \<Rightarrow>
          if length header \<noteq> 16 then (Inl (Custom UnexpectedEof), s1)
          else
            let bytes_to_receive = unat (from_ne_bytes (take 8 header));
                fds_to_receive = unat (from_ne_bytes (drop 8 header))
            in case recv_retry k socket (16 + bytes_to_receive) fds_to_receive False s1 of
                 (Inl e, s2) \<Rightarrow> (Inl e, s2)
               | (Inr (bytes, anc), s2) \<Rightarrow>
                   if length bytes \<noteq> 16 + bytes_to_receive
                   then (Inl (Custom UnexpectedEof), drop_fds k (anc_fds anc) s2)
                   else (case collect_rights anc of
                           Inl e \<Rightarrow> (Inl e, drop_fds k (anc_fds anc) s2)
                         | Inr fds \<Rightarrow>
                             if length fds \<noteq> fds_to_receive
                             then (Inl (Custom UnexpectedEof), drop_fds k fds s2)
                             else (Inr (drop 16 bytes, fds), s2)))"

definition frame_bytes :: "u8 list \<Rightarrow> fd list \<Rightarrow> u8 list" where
  "frame_bytes buffer fds =
     to_ne_bytes (of_nat (length buffer)) @ to_ne_bytes (of_nat (length fds)) @ buffer"

text \<open>The descriptors are dropped after sending, on success and on failure.\<close>

definition send_raw_message ::
    "'s socket_calls \<Rightarrow> fd \<Rightarrow> u8 list \<Rightarrow> fd list \<Rightarrow> 's \<Rightarrow> unit io_result \<times> 's" where
  "send_raw_message k socket buffer fds s =
     (case sendmsg k socket (frame_bytes buffer fds) fds s of
        (Inl e, s1) \<Rightarrow> (Inl (Os e), drop_fds k fds s1)
      | (Inr sent, s1) \<Rightarrow>
          (if sent \<noteq> length (frame_bytes buffer fds) then Inl (Custom WriteZero) else Inr (),
           drop_fds k fds s1))"

section \<open>Replies\<close>

text \<open>\<^verbatim>\<open>RawReply::reply\<close> sends on its channel and only logs an error.\<close>

definition RawReply_reply ::
    "'s socket_calls \<Rightarrow> RawReply \<Rightarrow> u8 list \<Rightarrow> fd list \<Rightarrow> 's \<Rightarrow> 's" where
  "RawReply_reply k raw message fds s = snd (send_raw_message k (channel raw) message fds s)"

text \<open>
  A reply is an error code or a value; a value that cannot be encoded is silently not sent,
  and its descriptors are dropped.
\<close>

definition reply_with_fds ::
    "'s socket_calls \<Rightarrow> (errno + 'v) codec \<Rightarrow> RawReply \<Rightarrow> errno + 'v \<Rightarrow> fd list \<Rightarrow> 's \<Rightarrow> 's" where
  "reply_with_fds k cd raw message fds s =
     (case enc cd message of
        None \<Rightarrow> drop_fds k fds s
      | Some data \<Rightarrow> RawReply_reply k raw data fds s)"

definition reply ::
    "'s socket_calls \<Rightarrow> (errno + 'v) codec \<Rightarrow> RawReply \<Rightarrow> errno + 'v \<Rightarrow> 's \<Rightarrow> 's" where
  "reply k cd raw message s = reply_with_fds k cd raw message [] s"

text \<open>
  The reply of the coordinator must go through \<open>reply_with_fds\<close>: plain \<^verbatim>\<open>reply\<close> panics on a
  success (\<open>None\<close>) and sends nothing on an error.
\<close>

definition RequestSpawnOwner_reply :: "errno + unit \<Rightarrow> 's \<Rightarrow> 's option" where
  "RequestSpawnOwner_reply message s = (if is_ok message then None else Some s)"

text \<open>
  The iterator over the replies that arrive on the one-shot socket. The outer error of an item
  is one of the transport, the inner one was sent by the peer.
\<close>

type_synonym 'v fetched = "(io_error + 'v) io_result"

definition ReplyIterator_next ::
    "'s socket_calls \<Rightarrow> (errno + 'v) codec \<Rightarrow> fd \<Rightarrow> 's \<Rightarrow> ('v \<times> fd list) fetched option \<times> 's" where
  "ReplyIterator_next k cd oneshot s =
     (case receive_raw_message k oneshot s of
        (Inl e, s1) \<Rightarrow> (if kind e = BrokenPipe then None else Some (Inl e), s1)
      | (Inr (raw, fds), s1) \<Rightarrow>
          (case dec cd raw of
             Some (Inr item) \<Rightarrow> (Some (Inr (Inr (item, fds))), s1)
           | Some (Inl e) \<Rightarrow> (Some (Inr (Inl (Os e))), drop_fds k fds s1)
           | None \<Rightarrow> (Some (Inl (Custom InvalidData)), drop_fds k fds s1)))"

section \<open>Requests\<close>

definition send_request_iter_with_fds ::
    "'s socket_calls \<Rightarrow> 'p codec \<Rightarrow> ('r \<Rightarrow> 'p \<times> fd list) \<Rightarrow> fd \<Rightarrow> 'r \<Rightarrow> 's \<Rightarrow> fd io_result \<times> 's" where
  "send_request_iter_with_fds k cd ser socket request s =
     (case ser request of (payload, fds) \<Rightarrow>
        case enc cd payload of
          None \<Rightarrow> (Inl (Custom Other), drop_fds k fds s)
        | Some payload_bytes \<Rightarrow>
            (case socketpair k s of
               (Inl e, s1) \<Rightarrow> (Inl (Os e), drop_fds k fds s1)
             | (Inr (parent_oneshot, child_oneshot), s1) \<Rightarrow>
                 (case send_raw_message k socket payload_bytes (child_oneshot # fds) s1 of
                    (Inl e, s2) \<Rightarrow> (Inl e, close_fd k parent_oneshot s2)
                  | (Inr _, s2) \<Rightarrow> (Inr parent_oneshot, s2))))"

text \<open>
  One request, one reply: the iterator is read once and dropped. A closed connection is an
  outer error of kind \<^verbatim>\<open>BrokenPipe\<close>.
\<close>

definition first_reply ::
    "'s socket_calls \<Rightarrow> (errno + 'v) codec \<Rightarrow> fd \<Rightarrow> 's \<Rightarrow> ('v \<times> fd list) fetched \<times> 's" where
  "first_reply k rcd oneshot s =
     (case ReplyIterator_next k rcd oneshot s of
        (None, s1) \<Rightarrow> (Inl (Custom BrokenPipe), close_fd k oneshot s1)
      | (Some item, s1) \<Rightarrow> (item, close_fd k oneshot s1))"

definition send_request_with_fds ::
    "'s socket_calls \<Rightarrow> 'p codec \<Rightarrow> (errno + 'v) codec \<Rightarrow> ('r \<Rightarrow> 'p \<times> fd list) \<Rightarrow> fd \<Rightarrow> 'r \<Rightarrow> 's \<Rightarrow>
     ('v \<times> fd list) fetched \<times> 's" where
  "send_request_with_fds k cd rcd ser socket request s =
     (case send_request_iter_with_fds k cd ser socket request s of
        (Inl e, s1) \<Rightarrow> (Inl e, s1)
      | (Inr oneshot, s1) \<Rightarrow> first_reply k rcd oneshot s1)"

text \<open>\<^verbatim>\<open>send_request_iter\<close> drops the descriptors that come with an item.\<close>

definition discard_fds ::
    "'s socket_calls \<Rightarrow> ('v \<times> fd list) fetched \<Rightarrow> 's \<Rightarrow> 'v fetched \<times> 's" where
  "discard_fds k r s =
     (case r of
        Inr (Inr (data, fds)) \<Rightarrow> (Inr (Inr data), drop_fds k fds s)
      | Inr (Inl e) \<Rightarrow> (Inr (Inl e), s)
      | Inl e \<Rightarrow> (Inl e, s))"

definition send_request ::
    "'s socket_calls \<Rightarrow> 'p codec \<Rightarrow> (errno + 'v) codec \<Rightarrow> ('r \<Rightarrow> 'p \<times> fd list) \<Rightarrow> fd \<Rightarrow> 'r \<Rightarrow> 's \<Rightarrow>
     'v fetched \<times> 's" where
  "send_request k cd rcd ser socket request s =
     (case send_request_with_fds k cd rcd ser socket request s of (r, s1) \<Rightarrow> discard_fds k r s1)"

definition receive_request ::
    "'s socket_calls \<Rightarrow> 'p codec \<Rightarrow> ('p \<Rightarrow> fd list \<Rightarrow> 'r io_result) \<Rightarrow> fd \<Rightarrow> 's \<Rightarrow>
     ('r \<times> fd) io_result \<times> 's" where
  "receive_request k cd deser socket s =
     (case receive_raw_message k socket s of
        (Inl e, s1) \<Rightarrow> (Inl e, s1)
      | (Inr (buffer, fds), s1) \<Rightarrow>
          (case fds of
             [] \<Rightarrow> (Inl (Custom InvalidInput), s1)
           | reply_fd # rest \<Rightarrow>
               (case dec cd buffer of
                  None \<Rightarrow> (Inl (Custom InvalidData), drop_fds k fds s1)
                | Some payload \<Rightarrow>
                    (case deser payload rest of
                       Inl e \<Rightarrow> (Inl e, drop_fds k fds s1)
                     | Inr message \<Rightarrow> (Inr (message, reply_fd), s1)))))"

section \<open>Bytes\<close>

lemma length_to_le_bytes [simp]: "length (to_le_bytes n w) = n"
  by (induction n arbitrary: w) auto

lemma length_to_ne_bytes [simp]: "length (to_ne_bytes w) = 8"
  by (simp add: to_ne_bytes_def)

lemma take_bit_split_byte:
  "take_bit (8 + m) (w :: 'a::len word) = take_bit 8 w + push_bit 8 (take_bit m (drop_bit 8 w))"
proof -
  have "take_bit (8 + m) w = push_bit 8 (drop_bit 8 (take_bit (8 + m) w)) + take_bit 8 (take_bit (8 + m) w)"
    by (simp only: bits_ident)
  then show ?thesis by (simp add: drop_bit_take_bit)
qed

lemma from_to_le_bytes:
  assumes "8 \<le> LENGTH('a::len)"
  shows "from_le_bytes (to_le_bytes n w) = (take_bit (8 * n) w :: 'a word)"
proof (induction n arbitrary: w)
  case 0
  show ?case by simp
next
  case (Suc n)
  have "(ucast (ucast w :: u8) :: 'a word) = take_bit 8 w"
    by (rule bit_word_eqI) (use assms in \<open>auto simp: bit_simps\<close>)
  then show ?case
    using take_bit_split_byte [of "8 * n" w] by (simp add: Suc.IH)
qed

lemma from_to_ne_bytes [simp]: "from_ne_bytes (to_ne_bytes w) = w"
  by (simp add: from_ne_bytes_def to_ne_bytes_def from_to_le_bytes take_bit_word_eq_self)

lemma length_frame_bytes: "length (frame_bytes buffer fds) = 16 + length buffer"
  by (simp add: frame_bytes_def)

lemma frame_header:
  assumes "length buffer < 2 ^ 64" "length fds < 2 ^ 64"
  shows "unat (from_ne_bytes (take 8 (take 16 (frame_bytes buffer fds)))) = length buffer"
    and "unat (from_ne_bytes (drop 8 (take 16 (frame_bytes buffer fds)))) = length fds"
    and "drop 16 (frame_bytes buffer fds) = buffer"
  using assms by (simp_all add: frame_bytes_def unat_of_nat)

end
