(* ===== verification/Wait_Loop.thy ===== *)
theory Wait_Loop
  imports Lock_Prelude
begin

text \<open>
  The polling loops of \<^verbatim>\<open>src/waiter.rs\<close>. The closure is modelled by the sequence of its
  results, \<open>f i\<close> being the answer of call number \<open>i\<close>; a loop may run forever, so it is a
  partial function and not returning is \<open>None\<close>. The loops also record what they do between two
  calls. \<open>Backoff\<close> comes from the crossbeam crate and is a parameter, a record of its
  operations; its documented behaviour is the locale \<open>backoff_api\<close>, which the tracker uses too.
\<close>

section \<open>Data\<close>

record 'b backoff_ops =
  bo_new :: 'b
  bo_is_completed :: "'b \<Rightarrow> bool"
  bo_snooze :: "'b \<Rightarrow> 'b"
  bo_spin :: "'b \<Rightarrow> 'b"
  bo_reset :: "'b \<Rightarrow> 'b"

datatype wait_action = Spin | Snooze | Sleep Duration

record Waiter =
  sleep_duration :: Duration

section \<open>The loops\<close>

partial_function (option) wait_loop ::
    "'b backoff_ops \<Rightarrow> ('b \<Rightarrow> 'b) \<Rightarrow> wait_action \<Rightarrow> Duration \<Rightarrow> (nat \<Rightarrow> bool) \<Rightarrow>
     nat \<Rightarrow> 'b \<Rightarrow> wait_action list \<Rightarrow> (nat \<times> wait_action list) option" where
  "wait_loop bo pause tag d f i b done_acts =
     (if f i then Some (i, done_acts)
      else if bo_is_completed bo b
      then wait_loop bo pause tag d f (Suc i) b (done_acts @ [Sleep d])
      else wait_loop bo pause tag d f (Suc i) (pause b) (done_acts @ [tag]))"

text \<open>
  The result of a call is the number of the closure's call that returned true and the pauses
  made before it.
\<close>

definition spin_wait ::
    "'b backoff_ops \<Rightarrow> Waiter \<Rightarrow> (nat \<Rightarrow> bool) \<Rightarrow> (nat \<times> wait_action list) option" where
  "spin_wait bo w f = wait_loop bo (bo_spin bo) Spin (sleep_duration w) f 0 (bo_new bo) []"

definition snooze_wait ::
    "'b backoff_ops \<Rightarrow> Waiter \<Rightarrow> (nat \<Rightarrow> bool) \<Rightarrow> (nat \<times> wait_action list) option" where
  "snooze_wait bo w f = wait_loop bo (bo_snooze bo) Snooze (sleep_duration w) f 0 (bo_new bo) []"

text \<open>The pauses between \<open>n\<close> unsuccessful calls, from backoff state \<open>b\<close>.\<close>

fun pauses ::
    "'b backoff_ops \<Rightarrow> ('b \<Rightarrow> 'b) \<Rightarrow> wait_action \<Rightarrow> Duration \<Rightarrow> nat \<Rightarrow> 'b \<Rightarrow> wait_action list" where
  "pauses bo pause tag d 0 b = []"
| "pauses bo pause tag d (Suc n) b =
     (if bo_is_completed bo b then Sleep d # pauses bo pause tag d n b
      else tag # pauses bo pause tag d n (pause b))"

section \<open>The interface of Backoff\<close>

locale backoff_api =
  fixes bo :: "'b backoff_ops"
  assumes snooze_completes: "\<exists>n. bo_is_completed bo ((bo_snooze bo ^^ n) b)"
    and snooze_stays: "bo_is_completed bo b \<Longrightarrow> bo_is_completed bo (bo_snooze bo b)"
    and reset_new: "bo_reset bo b = bo_new bo"
begin

lemma pauses_completed:
  "bo_is_completed bo b \<Longrightarrow> pauses bo pause tag d n b = replicate n (Sleep d)"
  by (induction n) auto

lemma pauses_snooze:
  "\<exists>k. \<forall>n. pauses bo (bo_snooze bo) tag d n b = replicate (min n k) tag @ replicate (n - k) (Sleep d)"
proof -
  obtain m where "bo_is_completed bo ((bo_snooze bo ^^ m) b)"
    using snooze_completes by blast
  then show ?thesis
  proof (induction m arbitrary: b)
    case 0
    then have "\<forall>n. pauses bo (bo_snooze bo) tag d n b =
        replicate (min n 0) tag @ replicate (n - 0) (Sleep d)"
      by (simp add: pauses_completed)
    then show ?case by blast
  next
    case (Suc m)
    show ?case
    proof (cases "bo_is_completed bo b")
      case True
      then have "\<forall>n. pauses bo (bo_snooze bo) tag d n b =
          replicate (min n 0) tag @ replicate (n - 0) (Sleep d)"
        by (simp add: pauses_completed)
      then show ?thesis by blast
    next
      case False
      have "bo_is_completed bo ((bo_snooze bo ^^ m) (bo_snooze bo b))"
        using Suc.prems by (simp only: funpow_Suc_right o_apply)
      then obtain k where k: "\<And>n. pauses bo (bo_snooze bo) tag d n (bo_snooze bo b) =
          replicate (min n k) tag @ replicate (n - k) (Sleep d)"
        using Suc.IH by blast
      have "pauses bo (bo_snooze bo) tag d n b =
          replicate (min n (Suc k)) tag @ replicate (n - Suc k) (Sleep d)" for n
        using False k by (cases n) simp_all
      then show ?thesis by blast
    qed
  qed
qed

end

text \<open>
  A step counter as a concrete backoff: it is complete after ten snoozes, the limit that the
  crate documents for yielding.
\<close>

definition step_backoff :: "nat backoff_ops" where
  "step_backoff = \<lparr>bo_new = 0, bo_is_completed = (\<lambda>b. 10 < b), bo_snooze = Suc,
     bo_spin = Suc, bo_reset = (\<lambda>_. 0)\<rparr>"

interpretation steps: backoff_api step_backoff
proof unfold_locales
  fix b :: nat
  have "bo_is_completed step_backoff ((bo_snooze step_backoff ^^ 11) b)"
    by (simp add: step_backoff_def)
  then show "\<exists>n. bo_is_completed step_backoff ((bo_snooze step_backoff ^^ n) b)" ..
qed (simp_all add: step_backoff_def)

section \<open>Properties\<close>

lemma wait_loop_returns:
  assumes "f (i + n)" and "\<And>j. j < n \<Longrightarrow> \<not> f (i + j)"
  shows "wait_loop bo pause tag d f i b acts = Some (i + n, acts @ pauses bo pause tag d n b)"
  using assms
proof (induction n arbitrary: i b acts)
  case 0
  then show ?case by (simp add: wait_loop.simps)
next
  case (Suc n)
  have no: "\<not> f i" using Suc.prems(2) [of 0] by simp
  have next_call: "f (Suc i + n)" "\<And>j. j < n \<Longrightarrow> \<not> f (Suc i + j)"
    using Suc.prems(1) Suc.prems(2) [of "Suc j" for j] by simp_all
  show ?case
    using no Suc.IH [OF next_call] by (subst wait_loop.simps) simp
qed

lemma wait_loop_Some:
  assumes ret: "wait_loop bo pause tag d f i b acts = Some r"
  shows "\<exists>n. f (i + n) \<and> (\<forall>j<n. \<not> f (i + j))"
proof -
  have "\<exists>n. f (i + n)"
  proof (rule wait_loop.raw_induct
      [where P = "\<lambda>bo pause tag d f i b acts r. \<exists>n. f (i + n)", OF _ ret])
    fix rec bo pause tag d f i b acts r
    assume IH: "\<And>bo pause tag d f i b acts r.
        rec bo pause tag d f i b acts = Some r \<Longrightarrow> \<exists>n. f (i + n)"
      and eq: "(if f i then Some (i, acts)
        else if bo_is_completed bo b then rec bo pause tag d f (Suc i) b (acts @ [Sleep d])
        else rec bo pause tag d f (Suc i) (pause b) (acts @ [tag])) = Some r"
    show "\<exists>n. f (i + n)"
    proof (cases "f i")
      case True
      then have "f (i + 0)" by simp
      then show ?thesis ..
    next
      case False
      with eq obtain n where "f (Suc i + n)"
        by (auto split: if_splits dest: IH)
      then have "f (i + Suc n)" by simp
      then show ?thesis ..
    qed
  qed
  then show ?thesis
    using exists_least_iff [of "\<lambda>n. f (i + n)"] by blast
qed

text \<open>
  The waiting loop returns exactly when some call of the closure returns true, and
  then at the first such call \<open>n\<close>, after \<open>n\<close> pauses.
\<close>

lemma snooze_wait_iff:
  "snooze_wait bo w f = Some (n, acts) \<longleftrightarrow>
     f n \<and> \<not> (\<exists>j<n. f j) \<and>
     acts = pauses bo (bo_snooze bo) Snooze (sleep_duration w) n (bo_new bo)"
proof -
  let ?run = "wait_loop bo (bo_snooze bo) Snooze (sleep_duration w) f 0 (bo_new bo) []"
  have run: "?run = Some (m, pauses bo (bo_snooze bo) Snooze (sleep_duration w) m (bo_new bo))"
    if "f m" "\<forall>j<m. \<not> f j" for m
    using wait_loop_returns [of f 0 m bo "bo_snooze bo" Snooze "sleep_duration w" "bo_new bo" "[]"]
      that by simp
  show ?thesis
  proof
    assume "snooze_wait bo w f = Some (n, acts)"
    then have ret: "?run = Some (n, acts)" by (simp add: snooze_wait_def)
    obtain m where m: "f m" "\<forall>j<m. \<not> f j"
      using wait_loop_Some [OF ret] by auto
    then show "f n \<and> \<not> (\<exists>j<n. f j) \<and>
        acts = pauses bo (bo_snooze bo) Snooze (sleep_duration w) n (bo_new bo)"
      using ret run [OF m] by auto
  next
    assume "f n \<and> \<not> (\<exists>j<n. f j) \<and>
        acts = pauses bo (bo_snooze bo) Snooze (sleep_duration w) n (bo_new bo)"
    then show "snooze_wait bo w f = Some (n, acts)"
      using run [of n] by (auto simp: snooze_wait_def)
  qed
qed

text \<open>
  Property C35. The polling loop returns exactly when some call of the closure returns true, and
  then at the first such call \<open>n\<close>, after \<open>n\<close> pauses; and it does not busy-wait: there is a bound
  \<open>k\<close>, that of the backoff, such that it snoozes at most \<open>k\<close> times and sleeps for the configured
  time before every further call.
\<close>

theorem snooze_wait_correct:
  assumes "backoff_api bo"
  shows "\<exists>k. \<forall>f n acts. snooze_wait bo w f = Some (n, acts) \<longleftrightarrow>
     f n \<and> \<not> (\<exists>j<n. f j) \<and>
     acts = replicate (min n k) Snooze @ replicate (n - k) (Sleep (sleep_duration w))"
proof -
  obtain k where "\<forall>n. pauses bo (bo_snooze bo) Snooze (sleep_duration w) n (bo_new bo) =
      replicate (min n k) Snooze @ replicate (n - k) (Sleep (sleep_duration w))"
    using backoff_api.pauses_snooze [OF assms, of Snooze "sleep_duration w" "bo_new bo"] by blast
  then show ?thesis by (intro exI [of _ k]) (simp add: snooze_wait_iff)
qed

theorem snooze_wait_correct_witness:
  "backoff_api step_backoff \<and>
   (\<exists>k. snooze_wait step_backoff \<lparr>sleep_duration = from_millis 1\<rparr> (\<lambda>i. i = 2) =
     Some (2, replicate (min 2 k) Snooze @ replicate (2 - k) (Sleep (from_millis 1))))"
proof -
  obtain k where "\<forall>f n acts. snooze_wait step_backoff \<lparr>sleep_duration = from_millis 1\<rparr> f = Some (n, acts) \<longleftrightarrow>
      f n \<and> \<not> (\<exists>j<n. f j) \<and> acts = replicate (min n k) Snooze @ replicate (n - k) (Sleep (from_millis 1))"
    using snooze_wait_correct [OF steps.backoff_api_axioms, of "\<lparr>sleep_duration = from_millis 1\<rparr>"] by auto
  then show ?thesis using steps.backoff_api_axioms by auto
qed

end
