(* ===== verification/Signal_Guard.thy ===== *)
theory Signal_Guard
  imports Lock_Prelude
begin

text \<open>
  The signal helpers of \<^verbatim>\<open>src/helpers.rs\<close>: the errno convention \<open>cvt\<close>, the scope guard
  that restores a thread's signal mask when it is dropped, the two functions that change the
  mask, and the check that SIGUSR1 has a handler.

  The system calls are parameters. \<open>pthread_sigmask\<close> takes the operation and the new set, and
  returns the previous mask with the new state of the calling thread; its documented behaviour
  is the locale \<open>sigmask_api\<close>. A signal set is a set of signal numbers.
\<close>

section \<open>Data\<close>

type_synonym signal = nat
type_synonym sigset = "signal set"

abbreviation SIGKILL :: signal where "SIGKILL \<equiv> 9"
abbreviation SIGUSR1 :: signal where "SIGUSR1 \<equiv> 10"
abbreviation SIGSTOP :: signal where "SIGSTOP \<equiv> 19"

datatype sigmask_how = SIG_BLOCK | SIG_UNBLOCK | SIG_SETMASK

type_synonym 't sigmask_call = "sigmask_how \<Rightarrow> sigset \<Rightarrow> 't \<Rightarrow> (errno + sigset) \<times> 't"

text \<open>\<^verbatim>\<open>SigSet::all\<close>: every signal number of Linux.\<close>

definition sigset_all :: sigset where
  "sigset_all = {1..64}"

record SigSetGuard =
  old :: sigset

datatype sighandler = SIG_DFL | SIG_IGN | Handler nat

section \<open>Operations\<close>

text \<open>
  The value \<open>-1\<close> means that the error is in \<^verbatim>\<open>errno\<close>; \<open>err\<close> is that variable.
\<close>

definition cvt :: "errno \<Rightarrow> i64 \<Rightarrow> i64 io_result" where
  "cvt err t = (if sint t = -1 then Inl (Os err) else Inr t)"

definition SigSetGuard_new :: "sigset \<Rightarrow> SigSetGuard" where
  "SigSetGuard_new sigset = \<lparr>old = sigset\<rparr>"

text \<open>Dropping a guard sets the saved mask and ignores an error.\<close>

definition SigSetGuard_drop :: "'t sigmask_call \<Rightarrow> SigSetGuard \<Rightarrow> 't \<Rightarrow> 't" where
  "SigSetGuard_drop pthread_sigmask g t = snd (pthread_sigmask SIG_SETMASK (old g) t)"

definition unblock_signal ::
    "'t sigmask_call \<Rightarrow> signal \<Rightarrow> 't \<Rightarrow> SigSetGuard io_result \<times> 't" where
  "unblock_signal pthread_sigmask sig t =
     (case pthread_sigmask SIG_UNBLOCK {sig} t of
        (Inl e, t') \<Rightarrow> (Inl (Os e), t')
      | (Inr old_set, t') \<Rightarrow> (Inr (SigSetGuard_new old_set), t'))"

definition block_all_signals :: "'t sigmask_call \<Rightarrow> 't \<Rightarrow> SigSetGuard io_result \<times> 't" where
  "block_all_signals pthread_sigmask t =
     (case pthread_sigmask SIG_BLOCK sigset_all t of
        (Inl e, t') \<Rightarrow> (Inl (Os e), t')
      | (Inr old_set, t') \<Rightarrow> (Inr (SigSetGuard_new old_set), t'))"

text \<open>
  \<open>ensure_sigaction_exists\<close> queries the disposition of SIGUSR1: \<open>rc\<close> and \<open>err\<close> are the
  return value and the errno of \<^verbatim>\<open>sigaction\<close>, \<open>action\<close> the handler it wrote.
\<close>

definition ensure_sigaction_exists :: "i64 \<Rightarrow> errno \<Rightarrow> sighandler \<Rightarrow> unit io_result" where
  "ensure_sigaction_exists rc err action =
     and_then (cvt err rc) (\<lambda>_.
       case action of
         SIG_DFL \<Rightarrow> Inl (Custom InvalidInput)
       | SIG_IGN \<Rightarrow> Inl (Custom InvalidInput)
       | Handler _ \<Rightarrow> Inr ())"

text \<open>
  The shape in which every public operation uses a guard: change the mask, run the body,
  restore the mask at the end of the scope. An error of the mask change is returned at once.
\<close>

definition with_signals_blocked ::
    "'t sigmask_call \<Rightarrow> ('t \<Rightarrow> 'a io_result \<times> 't) \<Rightarrow> 't \<Rightarrow> 'a io_result \<times> 't" where
  "with_signals_blocked pm body t =
     (case block_all_signals pm t of
        (Inl e, t') \<Rightarrow> (Inl e, t')
      | (Inr g, t') \<Rightarrow> (case body t' of (r, t'') \<Rightarrow> (r, SigSetGuard_drop pm g t'')))"

definition with_signal_unblocked ::
    "'t sigmask_call \<Rightarrow> signal \<Rightarrow> ('t \<Rightarrow> 'a io_result \<times> 't) \<Rightarrow> 't \<Rightarrow> 'a io_result \<times> 't" where
  "with_signal_unblocked pm sig body t =
     (case unblock_signal pm sig t of
        (Inl e, t') \<Rightarrow> (Inl e, t')
      | (Inr g, t') \<Rightarrow> (case body t' of (r, t'') \<Rightarrow> (r, SigSetGuard_drop pm g t'')))"

section \<open>The interface to the kernel's signal masks\<close>

text \<open>
  POSIX: SIG_BLOCK adds the set to the mask, SIG_UNBLOCK removes it, SIG_SETMASK replaces the
  mask, the old mask is returned, SIGKILL and SIGSTOP are never blocked. On an error the
  mask is unchanged.
\<close>

definition unblockable :: sigset where
  "unblockable = {SIGKILL, SIGSTOP}"

fun apply_how :: "sigmask_how \<Rightarrow> sigset \<Rightarrow> sigset \<Rightarrow> sigset" where
  "apply_how SIG_BLOCK s m = (m \<union> s) - unblockable"
| "apply_how SIG_UNBLOCK s m = m - s"
| "apply_how SIG_SETMASK s m = s - unblockable"

locale sigmask_api =
  fixes pm :: "'t sigmask_call" and mask_of :: "'t \<Rightarrow> sigset"
  assumes pm_ok: "pm how s t = (Inr m, t') \<Longrightarrow> m = mask_of t \<and> mask_of t' = apply_how how s (mask_of t)"
    and pm_err: "pm how s t = (Inl e, t') \<Longrightarrow> mask_of t' = mask_of t"
    and setmask_total: "s \<inter> unblockable = {} \<Longrightarrow> \<exists>m t'. pm SIG_SETMASK s t = (Inr m, t')"
    and mask_wf: "mask_of t \<inter> unblockable = {}"
begin

lemma block_all_ok:
  "block_all_signals pm t = (Inr g, t') \<Longrightarrow>
     old g = mask_of t \<and> mask_of t' = (mask_of t \<union> sigset_all) - unblockable"
  by (cases "pm SIG_BLOCK sigset_all t") (auto simp: block_all_signals_def SigSetGuard_new_def dest: pm_ok split: sum.splits)

lemma unblock_ok:
  "unblock_signal pm sig t = (Inr g, t') \<Longrightarrow> old g = mask_of t \<and> mask_of t' = mask_of t - {sig}"
  by (cases "pm SIG_UNBLOCK {sig} t") (auto simp: unblock_signal_def SigSetGuard_new_def dest: pm_ok split: sum.splits)

lemma block_all_err: "block_all_signals pm t = (Inl e, t') \<Longrightarrow> mask_of t' = mask_of t"
  by (cases "pm SIG_BLOCK sigset_all t") (auto simp: block_all_signals_def dest: pm_err split: sum.splits)

lemma unblock_err: "unblock_signal pm sig t = (Inl e, t') \<Longrightarrow> mask_of t' = mask_of t"
  by (cases "pm SIG_UNBLOCK {sig} t") (auto simp: unblock_signal_def dest: pm_err split: sum.splits)

lemma guard_drop_mask: "old g = mask_of t \<Longrightarrow> mask_of (SigSetGuard_drop pm g t') = mask_of t"
proof -
  assume old: "old g = mask_of t"
  then have "old g \<inter> unblockable = {}" using mask_wf by simp
  then obtain m u where "pm SIG_SETMASK (old g) t' = (Inr m, u)"
    using setmask_total by blast
  then show ?thesis
    using pm_ok [of SIG_SETMASK "old g" t' m u] old mask_wf [of t]
    by (auto simp: SigSetGuard_drop_def)
qed

lemma with_blocked_restores: "with_signals_blocked pm body t = (r, t') \<Longrightarrow> mask_of t' = mask_of t"
  by (auto simp: with_signals_blocked_def block_all_err block_all_ok guard_drop_mask
      split: prod.splits sum.splits)

lemma with_unblocked_restores: "with_signal_unblocked pm sig body t = (r, t') \<Longrightarrow> mask_of t' = mask_of t"
  by (auto simp: with_signal_unblocked_def unblock_err unblock_ok guard_drop_mask
      split: prod.splits sum.splits)

end

text \<open>The kernel's behaviour as a function of a thread whose only state is its mask.\<close>

definition posix_sigmask :: "sigset sigmask_call" where
  "posix_sigmask how s m = (Inr (m - unblockable), apply_how how s m)"

interpretation posix: sigmask_api posix_sigmask "\<lambda>m. m - unblockable"
proof unfold_locales
  fix how s m old m'
  assume "posix_sigmask how s m = (Inr old, m')"
  then show "old = m - unblockable \<and> m' - unblockable = apply_how how s (m - unblockable)"
    by (cases how) (auto simp: posix_sigmask_def)
qed (auto simp: posix_sigmask_def)

section \<open>Properties\<close>

text \<open>
  Property C34. The guard discipline of every public operation. After \<open>block_all_signals\<close> every
  signal that can be blocked is blocked; inside the inner scope of \<open>unblock_signal\<close> SIGUSR1 and
  only SIGUSR1 is let through; dropping the inner guard blocks it again and dropping the outer
  guard restores the caller's mask, whatever the code in the scopes did to the mask
  (\<open>t3\<close> and \<open>t4\<close> are arbitrary).
\<close>

theorem signal_window:
  assumes "sigmask_api pm mask_of"
    and "block_all_signals pm t = (Inr g, t1)"
    and "unblock_signal pm SIGUSR1 t1 = (Inr g2, t2)"
  shows "sigset_all - unblockable \<subseteq> mask_of t1 \<and>
         SIGUSR1 \<in> mask_of t1 \<and> mask_of t2 = mask_of t1 - {SIGUSR1} \<and>
         mask_of (SigSetGuard_drop pm g2 t3) = mask_of t1 \<and>
         mask_of (SigSetGuard_drop pm g t4) = mask_of t"
proof -
  note blocked = sigmask_api.block_all_ok [OF assms(1,2)]
  note window = sigmask_api.unblock_ok [OF assms(1,3)]
  have "SIGUSR1 \<in> mask_of t1"
    using blocked by (simp add: sigset_all_def unblockable_def)
  then show ?thesis
    using blocked window sigmask_api.guard_drop_mask [OF assms(1), of g t t4]
      sigmask_api.guard_drop_mask [OF assms(1), of g2 t1 t3]
    by auto
qed

theorem signal_window_witness:
  "\<exists>g t1 g2 t2. block_all_signals posix_sigmask {} = (Inr g, t1) \<and>
     unblock_signal posix_sigmask SIGUSR1 t1 = (Inr g2, t2) \<and>
     SIGUSR1 \<in> t1 - unblockable \<and> SIGUSR1 \<notin> t2 - unblockable \<and>
     SigSetGuard_drop posix_sigmask g {} - unblockable = {}"
proof -
  obtain g t1 where b: "block_all_signals posix_sigmask {} = (Inr g, t1)"
    by (simp add: block_all_signals_def posix_sigmask_def)
  obtain g2 t2 where u: "unblock_signal posix_sigmask SIGUSR1 t1 = (Inr g2, t2)"
    by (simp add: unblock_signal_def posix_sigmask_def)
  show ?thesis
    using b u signal_window [OF posix.sigmask_api_axioms b u, of "{}" "{}"] by auto
qed

text \<open>
  A tracker may only be created when SIGUSR1 has a handler: the check passes
  exactly when the query succeeded and the disposition is neither the default nor "ignore".
\<close>

lemma ensure_sigaction_exists_iff:
  "ensure_sigaction_exists rc err action = Inr () \<longleftrightarrow>
     sint rc \<noteq> -1 \<and> action \<noteq> SIG_DFL \<and> action \<noteq> SIG_IGN"
  by (auto simp: ensure_sigaction_exists_def cvt_def split: sighandler.splits)

end
