(* ===== verification/Tracker.thy ===== *)
theory Tracker
  imports Wait_Loop Signal_Guard
begin

text \<open>
  The thread tracker of \<^verbatim>\<open>src/tracker.rs\<close>. The first sections translate its data and
  operations; the shared data are passed explicitly, each operation being one critical section
  of the mutex that protects it. A loop iteration of \<^verbatim>\<open>stop\<close> runs under the mutex from the
  check of its condition to the point where the mutex is released, so an iteration is one
  function, and what it signals is part of its result.

  The last sections compose these functions into a transition system with any number of guarded
  threads, a caller of \<^verbatim>\<open>InterruptibleTracker::stop\<close> and any number of callers of
  \<^verbatim>\<open>InterruptibleHandle::stop\<close>, interleaved at the mutexes.
\<close>

section \<open>Data\<close>

type_synonym pthread = nat
type_synonym exit_id = nat

record RawInterruptibleTrackerData =
  can_spawn :: bool
  new_thread :: bool
  threads :: "pthread set"

text \<open>
  \<^verbatim>\<open>RawInterruptibleExitTracker\<close> objects are shared by reference; an object is its number, and
  \<open>exit_flags\<close> of the system state below gives its flag.
\<close>

record InterruptibleGuard =
  guard_thread :: pthread
  guard_exit :: exit_id

record InterruptibleHandle =
  handle_thread :: pthread
  handle_exit :: exit_id

section \<open>Tracking\<close>

definition track ::
    "pthread \<Rightarrow> RawInterruptibleTrackerData \<Rightarrow> unit io_result \<times> RawInterruptibleTrackerData" where
  "track thread d =
     (if \<not> can_spawn d then (Inl (Custom Other), d)
      else (Inr (), d\<lparr>threads := insert thread (threads d), new_thread := True\<rparr>))"

definition untrack :: "pthread \<Rightarrow> RawInterruptibleTrackerData \<Rightarrow> RawInterruptibleTrackerData" where
  "untrack thread d = d\<lparr>threads := threads d - {thread}\<rparr>"

text \<open>A tracker is created only when the check of the SIGUSR1 handler passes.\<close>

definition InterruptibleTracker_new ::
    "unit io_result \<Rightarrow> RawInterruptibleTrackerData io_result" where
  "InterruptibleTracker_new sigaction_check =
     and_then sigaction_check (\<lambda>_. Inr \<lparr>can_spawn = True, new_thread = False, threads = {}\<rparr>)"

definition InterruptibleGuard_new ::
    "pthread \<Rightarrow> exit_id \<Rightarrow> RawInterruptibleTrackerData \<Rightarrow>
     InterruptibleGuard io_result \<times> RawInterruptibleTrackerData" where
  "InterruptibleGuard_new self exit d =
     (case track self d of
        (Inl e, d') \<Rightarrow> (Inl e, d')
      | (Inr _, d') \<Rightarrow> (Inr \<lparr>guard_thread = self, guard_exit = exit\<rparr>, d'))"

text \<open>
  Dropping a guard: first the thread is untracked, then, in a second critical section of another
  mutex, the exit flag is set.
\<close>

definition InterruptibleGuard_drop_untrack ::
    "InterruptibleGuard \<Rightarrow> RawInterruptibleTrackerData \<Rightarrow> RawInterruptibleTrackerData" where
  "InterruptibleGuard_drop_untrack g d = untrack (guard_thread g) d"

definition InterruptibleGuard_drop_exit ::
    "InterruptibleGuard \<Rightarrow> (exit_id \<Rightarrow> bool) \<Rightarrow> exit_id \<Rightarrow> bool" where
  "InterruptibleGuard_drop_exit g exited = exited(guard_exit g := True)"

text \<open>
  \<open>spawn\<close> starts a thread \<open>t\<close> (or fails with the error \<open>os\<close>), which makes the guard and
  reports the outcome; \<open>guard\<close> makes it in the calling thread. \<open>x\<close> is the new exit tracker.
\<close>

definition tracker_spawn ::
    "errno + pthread \<Rightarrow> exit_id \<Rightarrow> RawInterruptibleTrackerData \<Rightarrow>
     (InterruptibleGuard \<times> InterruptibleHandle) io_result \<times> RawInterruptibleTrackerData" where
  "tracker_spawn os x d =
     (case os of
        Inl e \<Rightarrow> (Inl (Os e), d)
      | Inr t \<Rightarrow>
          (case InterruptibleGuard_new t x d of
             (Inl e, d') \<Rightarrow> (Inl e, d')
           | (Inr g, d') \<Rightarrow> (Inr (g, \<lparr>handle_thread = t, handle_exit = x\<rparr>), d')))"

definition tracker_guard ::
    "pthread \<Rightarrow> exit_id \<Rightarrow> RawInterruptibleTrackerData \<Rightarrow>
     (InterruptibleGuard \<times> InterruptibleHandle) io_result \<times> RawInterruptibleTrackerData" where
  "tracker_guard self x d =
     (case InterruptibleGuard_new self x d of
        (Inl e, d') \<Rightarrow> (Inl e, d')
      | (Inr g, d') \<Rightarrow> (Inr (g, \<lparr>handle_thread = self, handle_exit = x\<rparr>), d'))"

section \<open>Stopping\<close>

record 'b stop_local =
  backoff :: 'b
  snooze_interrupt_done :: bool

definition stop_init :: "'b backoff_ops \<Rightarrow> 'b stop_local" where
  "stop_init bo = \<lparr>backoff = bo_new bo, snooze_interrupt_done = False\<rparr>"

text \<open>
  After an iteration the loop has returned, waits on the condition variable for a millisecond,
  snoozes outside the mutex, or has panicked (a thread that stops itself).
\<close>

datatype 'b stop_result = Returned | WaitFor "'b stop_local" | Snoozing "'b stop_local" | Panicked

text \<open>The second half of an iteration: whom to signal, and how to pause.\<close>

definition stop_pause ::
    "'b backoff_ops \<Rightarrow> pthread set \<Rightarrow> 'b stop_local \<Rightarrow> pthread set \<times> 'b stop_result" where
  "stop_pause bo targets l =
     (if bo_is_completed bo (backoff l) then (targets, WaitFor l)
      else (if snooze_interrupt_done l then {} else targets,
            Snoozing (l\<lparr>snooze_interrupt_done := True, backoff := bo_snooze bo (backoff l)\<rparr>)))"

definition stop_iter ::
    "'b backoff_ops \<Rightarrow> 'b stop_local \<Rightarrow> RawInterruptibleTrackerData \<Rightarrow>
     (pthread set \<times> 'b stop_result) \<times> RawInterruptibleTrackerData" where
  "stop_iter bo l d =
     (if threads d = {} then (({}, Returned), d)
      else if new_thread d
      then (stop_pause bo (threads d)
              (l\<lparr>snooze_interrupt_done := False, backoff := bo_reset bo (backoff l)\<rparr>),
            d\<lparr>new_thread := False\<rparr>)
      else (stop_pause bo (threads d) l, d))"

text \<open>Entering \<^verbatim>\<open>stop\<close> forbids further threads and runs the first iteration.\<close>

definition stop_enter ::
    "'b backoff_ops \<Rightarrow> RawInterruptibleTrackerData \<Rightarrow>
     (pthread set \<times> 'b stop_result) \<times> RawInterruptibleTrackerData" where
  "stop_enter bo d = stop_iter bo (stop_init bo) (d\<lparr>can_spawn := False\<rparr>)"

text \<open>
  Taking the mutex again after a snooze: \<open>tries\<close> are the outcomes of \<^verbatim>\<open>try_lock\<close> that the other
  threads let happen; when the backoff is complete the blocking lock is used.
\<close>

fun reacquire :: "'b backoff_ops \<Rightarrow> bool list \<Rightarrow> 'b \<Rightarrow> 'b" where
  "reacquire bo [] b = b"
| "reacquire bo (locked # tries) b =
     (if locked then b
      else if bo_is_completed bo b then b
      else reacquire bo tries (bo_snooze bo b))"

fun resume_stop :: "'b backoff_ops \<Rightarrow> bool list \<Rightarrow> 'b stop_result \<Rightarrow> 'b stop_local option" where
  "resume_stop bo tries (WaitFor l) = Some l"
| "resume_stop bo tries (Snoozing l) = Some (l\<lparr>backoff := reacquire bo tries (backoff l)\<rparr>)"
| "resume_stop bo tries Returned = None"
| "resume_stop bo tries Panicked = None"

text \<open>An iteration of \<^verbatim>\<open>InterruptibleHandle::stop\<close>, called by thread \<open>self\<close>.\<close>

definition handle_stop_iter ::
    "'b backoff_ops \<Rightarrow> pthread \<Rightarrow> InterruptibleHandle \<Rightarrow> 'b stop_local \<Rightarrow> (exit_id \<Rightarrow> bool) \<Rightarrow>
     pthread set \<times> 'b stop_result" where
  "handle_stop_iter bo self h l exited =
     (if exited (handle_exit h) then ({}, Returned)
      else if handle_thread h = self then ({}, Panicked)
      else stop_pause bo {handle_thread h} l)"

text \<open>
  A whole call of \<^verbatim>\<open>InterruptibleTracker::stop\<close> against a script: \<open>gone\<close> are the threads that
  leave the tracker while the caller pauses, \<open>tries\<close> the outcomes of \<^verbatim>\<open>try_lock\<close>. The result is
  the list of signalled sets; \<open>None\<close> means that the script ended before the call returned.
\<close>

fun stop_run ::
    "'b backoff_ops \<Rightarrow> (pthread set \<times> bool list) list \<Rightarrow> 'b stop_local \<Rightarrow>
     RawInterruptibleTrackerData \<Rightarrow> pthread set list option" where
  "stop_run bo [] l d =
     (if threads d = {} then Some [] else None)"
| "stop_run bo ((gone, tries) # script) l d =
     (case stop_iter bo l d of ((sigs, r), d') \<Rightarrow>
        (case resume_stop bo tries r of
           None \<Rightarrow> Some []
         | Some l' \<Rightarrow> map_option (\<lambda>log. sigs # log)
             (stop_run bo script l' (d'\<lparr>threads := threads d' - gone\<rparr>))))"

definition tracker_stop ::
    "'b backoff_ops \<Rightarrow> (pthread set \<times> bool list) list \<Rightarrow> RawInterruptibleTrackerData \<Rightarrow>
     pthread set list option" where
  "tracker_stop bo script d = stop_run bo script (stop_init bo) (d\<lparr>can_spawn := False\<rparr>)"

section \<open>The concurrent system\<close>

text \<open>A guard is live until its drop untracks the thread, and finished when the flag is set.\<close>

datatype stage = Live | Untracked | Finished

datatype 'b caller = Idle | Busy "'b stop_result"

record 'b tracker_sys =
  tdata :: RawInterruptibleTrackerData
  exit_flags :: "exit_id \<Rightarrow> bool"
  guards :: "exit_id \<Rightarrow> (pthread \<times> stage) option"
  stopper :: "'b caller"
  handle_stops :: "nat \<Rightarrow> pthread \<times> InterruptibleHandle \<times> 'b caller"

definition thread_free :: "'b tracker_sys \<Rightarrow> pthread \<Rightarrow> bool" where
  "thread_free s t \<longleftrightarrow> (\<forall>x st. guards s x = Some (t, st) \<longrightarrow> st = Finished)"

text \<open>
  The steps, each with the set of threads it sends SIGUSR1 to. A thread started by \<open>spawn\<close> is
  new; \<open>guard\<close> is called by any thread, and \<open>nested\<close> says whether a thread may hold two guards
  of the tracker at the same time.
\<close>

inductive tracker_step ::
    "'b backoff_ops \<Rightarrow> bool \<Rightarrow> 'b tracker_sys \<Rightarrow> pthread set \<Rightarrow> 'b tracker_sys \<Rightarrow> bool"
  for bo :: "'b backoff_ops" and nested :: bool where
  step_spawn: "\<lbrakk>guards s x = None; thread_free s t;
      tracker_spawn (Inr t) x (tdata s) = (Inr (g, h), d')\<rbrakk> \<Longrightarrow>
    tracker_step bo nested s {} (s\<lparr>tdata := d', guards := (guards s)(x \<mapsto> (t, Live))\<rparr>)"
| step_spawn_fails: "\<lbrakk>guards s x = None; tracker_spawn os x (tdata s) = (Inl e, d')\<rbrakk> \<Longrightarrow>
    tracker_step bo nested s {} (s\<lparr>tdata := d'\<rparr>)"
| step_guard: "\<lbrakk>guards s x = None; nested \<or> thread_free s t;
      tracker_guard t x (tdata s) = (Inr (g, h), d')\<rbrakk> \<Longrightarrow>
    tracker_step bo nested s {} (s\<lparr>tdata := d', guards := (guards s)(x \<mapsto> (t, Live))\<rparr>)"
| step_untrack: "guards s x = Some (t, Live) \<Longrightarrow>
    tracker_step bo nested s {}
      (s\<lparr>tdata := InterruptibleGuard_drop_untrack \<lparr>guard_thread = t, guard_exit = x\<rparr> (tdata s),
         guards := (guards s)(x \<mapsto> (t, Untracked))\<rparr>)"
| step_exit: "guards s x = Some (t, Untracked) \<Longrightarrow>
    tracker_step bo nested s {}
      (s\<lparr>exit_flags := InterruptibleGuard_drop_exit \<lparr>guard_thread = t, guard_exit = x\<rparr> (exit_flags s),
         guards := (guards s)(x \<mapsto> (t, Finished))\<rparr>)"
| step_stop: "\<lbrakk>stopper s = Idle; stop_enter bo (tdata s) = ((sigs, r), d')\<rbrakk> \<Longrightarrow>
    tracker_step bo nested s sigs (s\<lparr>tdata := d', stopper := Busy r\<rparr>)"
| step_stop_again: "\<lbrakk>stopper s = Busy r; resume_stop bo tries r = Some l;
      stop_iter bo l (tdata s) = ((sigs, r'), d')\<rbrakk> \<Longrightarrow>
    tracker_step bo nested s sigs (s\<lparr>tdata := d', stopper := Busy r'\<rparr>)"
| step_handle_stop: "\<lbrakk>handle_stops s i = (self, h0, Idle); guards s x = Some (t, st);
      h = \<lparr>handle_thread = t, handle_exit = x\<rparr>;
      handle_stop_iter bo self h (stop_init bo) (exit_flags s) = (sigs, r)\<rbrakk> \<Longrightarrow>
    tracker_step bo nested s sigs
      (s\<lparr>handle_stops := (handle_stops s)(i := (self, h, Busy r))\<rparr>)"
| step_handle_stop_again: "\<lbrakk>handle_stops s i = (self, h, Busy r); resume_stop bo tries r = Some l;
      handle_stop_iter bo self h l (exit_flags s) = (sigs, r')\<rbrakk> \<Longrightarrow>
    tracker_step bo nested s sigs
      (s\<lparr>handle_stops := (handle_stops s)(i := (self, h, Busy r'))\<rparr>)"

definition tracker_init :: "'b tracker_sys \<Rightarrow> bool" where
  "tracker_init s \<longleftrightarrow>
     Inr (tdata s) = InterruptibleTracker_new (Inr ()) \<and> exit_flags s = (\<lambda>_. False) \<and>
     guards s = Map.empty \<and> stopper s = Idle \<and> (\<forall>i. snd (snd (handle_stops s i)) = Idle)"

definition tracker_moves :: "'b backoff_ops \<Rightarrow> bool \<Rightarrow> 'b tracker_sys \<Rightarrow> 'b tracker_sys \<Rightarrow> bool" where
  "tracker_moves bo nested s s' \<longleftrightarrow> (\<exists>sigs. tracker_step bo nested s sigs s')"

section \<open>Invariant\<close>

definition live_threads :: "'b tracker_sys \<Rightarrow> pthread set" where
  "live_threads s = {t. \<exists>x. guards s x = Some (t, Live)}"

definition one_guard_each :: "'b tracker_sys \<Rightarrow> bool" where
  "one_guard_each s \<longleftrightarrow>
     (\<forall>x y t st st'. guards s x = Some (t, st) \<longrightarrow> guards s y = Some (t, st') \<longrightarrow>
        st \<noteq> Finished \<longrightarrow> st' \<noteq> Finished \<longrightarrow> x = y)"

definition tracked_exact :: "bool \<Rightarrow> 'b tracker_sys \<Rightarrow> bool" where
  "tracked_exact nested s \<longleftrightarrow>
     threads (tdata s) \<subseteq> live_threads s \<and>
     (\<not> nested \<longrightarrow> one_guard_each s \<and> threads (tdata s) = live_threads s)"

definition flags_exact :: "'b tracker_sys \<Rightarrow> bool" where
  "flags_exact s \<longleftrightarrow> (\<forall>x. exit_flags s x \<longleftrightarrow> (\<exists>t. guards s x = Some (t, Finished)))"

definition stopper_inv :: "'b tracker_sys \<Rightarrow> bool" where
  "stopper_inv s \<longleftrightarrow>
     (stopper s \<noteq> Idle \<longrightarrow> \<not> can_spawn (tdata s)) \<and>
     (stopper s = Busy Returned \<longrightarrow> threads (tdata s) = {})"

definition handles_inv :: "'b tracker_sys \<Rightarrow> bool" where
  "handles_inv s \<longleftrightarrow>
     (\<forall>i self h r. handle_stops s i = (self, h, Busy r) \<longrightarrow>
        (\<exists>st. guards s (handle_exit h) = Some (handle_thread h, st)) \<and>
        (r = Returned \<longrightarrow> exit_flags s (handle_exit h)))"

definition tracker_inv :: "bool \<Rightarrow> 'b tracker_sys \<Rightarrow> bool" where
  "tracker_inv nested s \<longleftrightarrow>
     tracked_exact nested s \<and> flags_exact s \<and> stopper_inv s \<and> handles_inv s"

lemmas track_defs = track_def untrack_def InterruptibleGuard_new_def tracker_spawn_def
  tracker_guard_def InterruptibleGuard_drop_untrack_def InterruptibleGuard_drop_exit_def

lemma track_ok [simp]:
  "tracker_spawn (Inr t) x d = (Inr (g, h), d') \<longleftrightarrow>
     can_spawn d \<and> d' = d\<lparr>threads := insert t (threads d), new_thread := True\<rparr> \<and>
     g = \<lparr>guard_thread = t, guard_exit = x\<rparr> \<and> h = \<lparr>handle_thread = t, handle_exit = x\<rparr>"
  "tracker_guard t x d = (Inr (g, h), d') \<longleftrightarrow>
     can_spawn d \<and> d' = d\<lparr>threads := insert t (threads d), new_thread := True\<rparr> \<and>
     g = \<lparr>guard_thread = t, guard_exit = x\<rparr> \<and> h = \<lparr>handle_thread = t, handle_exit = x\<rparr>"
  by (auto simp: track_defs)

lemma spawn_fails_unchanged: "tracker_spawn os x d = (Inl e, d') \<Longrightarrow> d' = d"
  by (auto simp: track_defs split: sum.splits if_splits)

lemma stop_iter_keeps:
  assumes "stop_iter bo l d = ((sigs, r), d')"
  shows "threads d' = threads d" "can_spawn d' = can_spawn d" "sigs \<subseteq> threads d"
    "r = Returned \<Longrightarrow> threads d = {}"
  using assms by (auto simp: stop_iter_def stop_pause_def split: if_splits)

lemma stop_enter_keeps:
  assumes "stop_enter bo d = ((sigs, r), d')"
  shows "threads d' = threads d" "\<not> can_spawn d'" "sigs \<subseteq> threads d"
    "r = Returned \<Longrightarrow> threads d = {}"
  using stop_iter_keeps [OF assms [unfolded stop_enter_def]] by simp_all

lemma handle_stop_iter_keeps:
  assumes "handle_stop_iter bo self h l ex = (sigs, r)"
  shows "sigs \<subseteq> {handle_thread h}" "sigs \<noteq> {} \<Longrightarrow> \<not> ex (handle_exit h)"
    "r = Returned \<Longrightarrow> ex (handle_exit h)"
  using assms by (auto simp: handle_stop_iter_def stop_pause_def split: if_splits)

lemma live_threads_untrack:
  assumes "guards s x = Some (t, Live)"
  shows "live_threads s - {t} \<subseteq> live_threads (s\<lparr>tdata := d, guards := (guards s)(x \<mapsto> (t, Untracked))\<rparr>)"
    and "one_guard_each s \<Longrightarrow>
      live_threads (s\<lparr>tdata := d, guards := (guards s)(x \<mapsto> (t, Untracked))\<rparr>) = live_threads s - {t}"
proof -
  let ?s = "s\<lparr>tdata := d, guards := (guards s)(x \<mapsto> (t, Untracked))\<rparr>"
  show sub: "live_threads s - {t} \<subseteq> live_threads ?s"
  proof
    fix u assume "u \<in> live_threads s - {t}"
    then obtain y where "guards s y = Some (u, Live)" "u \<noteq> t"
      by (auto simp: live_threads_def)
    then have "guards ?s y = Some (u, Live)" using assms by auto
    then show "u \<in> live_threads ?s" unfolding live_threads_def by blast
  qed
  assume one: "one_guard_each s"
  have "live_threads ?s \<subseteq> live_threads s - {t}"
  proof
    fix u assume "u \<in> live_threads ?s"
    then obtain y where y: "guards s y = Some (u, Live)" "y \<noteq> x"
      by (auto simp: live_threads_def split: if_splits)
    moreover have "u \<noteq> t"
      using one y assms stage.distinct(3) unfolding one_guard_each_def by blast
    ultimately show "u \<in> live_threads s - {t}" by (auto simp: live_threads_def)
  qed
  with sub show "live_threads ?s = live_threads s - {t}" by blast
qed

lemma one_guard_each_advance:
  assumes "one_guard_each s" "guards s x = Some (t, st)" "st \<noteq> Finished"
  shows "one_guard_each (s\<lparr>guards := (guards s)(x \<mapsto> (t, st'))\<rparr>)"
  using assms unfolding one_guard_each_def by (simp split: if_split_asm) metis

lemma guards_frame [simp]:
  "one_guard_each (s\<lparr>tdata := d, guards := G\<rparr>) = one_guard_each (s\<lparr>guards := G\<rparr>)"
  "one_guard_each (s\<lparr>exit_flags := E, guards := G\<rparr>) = one_guard_each (s\<lparr>guards := G\<rparr>)"
  "live_threads (s\<lparr>tdata := d, guards := G\<rparr>) = live_threads (s\<lparr>guards := G\<rparr>)"
  "live_threads (s\<lparr>exit_flags := E, guards := G\<rparr>) = live_threads (s\<lparr>guards := G\<rparr>)"
  by (simp_all add: one_guard_each_def live_threads_def)

lemma tracked_exact_track:
  assumes "tracked_exact nested s" "guards s x = None" "nested \<or> thread_free s t"
    and "threads d = insert t (threads (tdata s))"
  shows "tracked_exact nested (s\<lparr>tdata := d, guards := (guards s)(x \<mapsto> (t, Live))\<rparr>)"
proof -
  let ?s = "s\<lparr>tdata := d, guards := (guards s)(x \<mapsto> (t, Live))\<rparr>"
  have live: "live_threads ?s = insert t (live_threads s)"
    using assms(2) by (force simp: live_threads_def)
  have "one_guard_each ?s" if "one_guard_each s" "thread_free s t"
    using that unfolding one_guard_each_def thread_free_def by (simp split: if_split_asm)
  then show ?thesis
    using assms live by (auto simp: tracked_exact_def)
qed

lemma tracked_exact_step:
  "tracker_step bo nested s sigs s' \<Longrightarrow> tracked_exact nested s \<Longrightarrow> tracked_exact nested s'"
proof (induction rule: tracker_step.induct)
  case (step_spawn s x t g h d')
  then show ?case
    using tracked_exact_track [of nested s x t d'] by simp
next
  case (step_spawn_fails s x os e d')
  then show ?case
    by (auto simp: tracked_exact_def live_threads_def one_guard_each_def dest: spawn_fails_unchanged)
next
  case (step_guard s x t g h d')
  then show ?case
    using tracked_exact_track [of nested s x t d'] by simp
next
  case (step_untrack s x t)
  let ?s = "s\<lparr>tdata := untrack t (tdata s), guards := (guards s)(x \<mapsto> (t, Untracked))\<rparr>"
  have "threads (tdata ?s) \<subseteq> live_threads ?s"
    using step_untrack live_threads_untrack(1) [of s x t "untrack t (tdata s)"]
    by (auto simp: tracked_exact_def untrack_def)
  moreover have "\<not> nested \<longrightarrow> one_guard_each ?s \<and> threads (tdata ?s) = live_threads ?s"
    using step_untrack live_threads_untrack(2) [of s x t "untrack t (tdata s)"]
      one_guard_each_advance [of s x t Live Untracked]
    by (simp add: tracked_exact_def untrack_def)
  ultimately show ?case by (simp add: tracked_exact_def InterruptibleGuard_drop_untrack_def)
next
  case (step_exit s x t)
  have "live_threads (s\<lparr>exit_flags := E, guards := (guards s)(x \<mapsto> (t, Finished))\<rparr>) = live_threads s"
    for E using step_exit(1) by (force simp: live_threads_def)
  then show ?case
    using step_exit one_guard_each_advance [of s x t Untracked Finished]
    by (simp add: tracked_exact_def)
next
  case (step_stop s sigs r d')
  then show ?case
    using stop_enter_keeps(1) [of bo "tdata s" sigs r d']
    by (simp add: tracked_exact_def live_threads_def one_guard_each_def)
next
  case (step_stop_again s r tries l sigs r' d')
  then show ?case
    using stop_iter_keeps(1) [of bo l "tdata s" sigs r' d']
    by (simp add: tracked_exact_def live_threads_def one_guard_each_def)
qed (simp_all add: tracked_exact_def live_threads_def one_guard_each_def)

lemma flags_exact_step:
  "tracker_step bo nested s sigs s' \<Longrightarrow> flags_exact s \<Longrightarrow> flags_exact s'"
  by (induction rule: tracker_step.induct)
    (auto simp: flags_exact_def InterruptibleGuard_drop_exit_def)

lemma stopper_inv_step:
  "tracker_step bo nested s sigs s' \<Longrightarrow> stopper_inv s \<Longrightarrow> stopper_inv s'"
proof (induction rule: tracker_step.induct)
  case (step_spawn_fails s x os e d')
  then show ?case by (auto simp: stopper_inv_def dest: spawn_fails_unchanged)
next
  case (step_stop s sigs r d')
  then show ?case
    using stop_enter_keeps [of bo "tdata s" sigs r d'] by (simp add: stopper_inv_def)
next
  case (step_stop_again s r tries l sigs r' d')
  then show ?case
    using stop_iter_keeps [of bo l "tdata s" sigs r' d'] by (simp add: stopper_inv_def)
qed (auto simp: stopper_inv_def track_defs)

lemma handles_inv_step:
  "tracker_step bo nested s sigs s' \<Longrightarrow> handles_inv s \<Longrightarrow> handles_inv s'"
proof (induction rule: tracker_step.induct)
  case (step_handle_stop s i self h0 x t st h sigs r)
  then show ?case
    using handle_stop_iter_keeps(3) [of bo self h "stop_init bo" "exit_flags s" sigs r]
    by (auto simp: handles_inv_def)
next
  case (step_handle_stop_again s i self h r tries l sigs r')
  then show ?case
    using handle_stop_iter_keeps(3) [of bo self h l "exit_flags s" sigs r']
    by (auto simp: handles_inv_def)
next
  case (step_untrack s x t)
  then show ?case by (fastforce simp: handles_inv_def)
next
  case (step_exit s x t)
  then show ?case by (fastforce simp: handles_inv_def InterruptibleGuard_drop_exit_def)
qed (fastforce simp: handles_inv_def)+

interpretation tracker: transition_system tracker_init "tracker_moves bo nested" "tracker_inv nested"
  for bo :: "'b backoff_ops" and nested
proof unfold_locales
  fix s :: "'b tracker_sys"
  assume "tracker_init s"
  moreover from this have "handles_inv s"
    unfolding tracker_init_def handles_inv_def by (metis caller.distinct(1) snd_conv)
  ultimately show "tracker_inv nested s"
    by (simp add: tracker_init_def tracker_inv_def tracked_exact_def live_threads_def
        one_guard_each_def flags_exact_def stopper_inv_def InterruptibleTracker_new_def)
next
  fix s t :: "'b tracker_sys"
  assume "tracker_inv nested s" "tracker_moves bo nested s t"
  then show "tracker_inv nested t"
    unfolding tracker_inv_def tracker_moves_def
    using tracked_exact_step flags_exact_step stopper_inv_step handles_inv_step by blast
qed

section \<open>Properties\<close>

text \<open>What a step signals is in scope: the thread's guard is not finished.\<close>

lemma signals_in_scope:
  assumes "tracker_inv nested s" "tracker_step bo nested s sigs s'" "t \<in> sigs"
  shows "\<exists>x st. guards s x = Some (t, st) \<and> st \<noteq> Finished"
proof -
  have tracked: "\<exists>x st. guards s x = Some (t, st) \<and> st \<noteq> Finished" if "t \<in> threads (tdata s)"
    using that assms(1) by (fastforce simp: tracker_inv_def tracked_exact_def live_threads_def)
  have handle: "\<exists>x st. guards s x = Some (t, st) \<and> st \<noteq> Finished"
    if "guards s x = Some (t, st)" "\<not> exit_flags s x" for x st
    using that assms(1) by (fastforce simp: tracker_inv_def flags_exact_def)
  from assms(2,3,1) tracked handle show ?thesis
  proof (induction rule: tracker_step.induct)
    case (step_stop s sigs r d')
    then show ?case using stop_enter_keeps(3) [OF step_stop.hyps(2)] by auto
  next
    case (step_stop_again s r tries l sigs r' d')
    then show ?case using stop_iter_keeps(3) [OF step_stop_again.hyps(3)] by auto
  next
    case (step_handle_stop s i self h0 x u st h sigs r)
    have "t = u" "\<not> exit_flags s x"
      using handle_stop_iter_keeps(1,2) [OF step_handle_stop.hyps(4)] step_handle_stop.hyps(3)
        step_handle_stop.prems(1) by auto
    then show ?case using step_handle_stop.hyps(2) step_handle_stop.prems(4) by blast
  next
    case (step_handle_stop_again s i self h r tries l sigs r')
    have t: "t = handle_thread h" "\<not> exit_flags s (handle_exit h)"
      using handle_stop_iter_keeps(1,2) [OF step_handle_stop_again.hyps(3)]
        step_handle_stop_again.prems(1) by auto
    obtain st where "guards s (handle_exit h) = Some (handle_thread h, st)"
      using step_handle_stop_again.hyps(1) step_handle_stop_again.prems(2)
      by (fastforce simp: tracker_inv_def handles_inv_def)
    then show ?case using t step_handle_stop_again.prems(4) by blast
  qed auto
qed

text \<open>A concrete run, for the witnesses: one spawned thread, then a first stop iteration.\<close>

definition sys0 :: "nat tracker_sys" where
  "sys0 = \<lparr>tdata = \<lparr>can_spawn = True, new_thread = False, threads = {}\<rparr>, exit_flags = (\<lambda>_. False),
     guards = Map.empty, stopper = Idle,
     handle_stops = (\<lambda>_. (0, \<lparr>handle_thread = 0, handle_exit = 0\<rparr>, Idle))\<rparr>"

definition sys1 :: "nat tracker_sys" where
  "sys1 = sys0\<lparr>tdata := \<lparr>can_spawn = True, new_thread = True, threads = {7}\<rparr>,
     guards := [0 \<mapsto> (7, Live)]\<rparr>"

lemma sys0_init: "tracker_init sys0"
  by (simp add: tracker_init_def sys0_def InterruptibleTracker_new_def)

lemma sys1_reachable: "reachable_from (tracker_moves step_backoff False) sys0 sys1"
proof (rule reachable_from_single)
  have "tracker_step step_backoff False sys0 {}
      (sys0\<lparr>tdata := tdata sys1, guards := (guards sys0)(0 \<mapsto> (7, Live))\<rparr>)"
    by (rule step_spawn) (simp_all add: sys0_def sys1_def thread_free_def)
  then show "tracker_moves step_backoff False sys0 sys1"
    by (auto simp: tracker_moves_def sys0_def sys1_def)
qed

text \<open>
  Property C18. Signals never hit a foreign thread. Whenever \<^verbatim>\<open>InterruptibleTracker::stop\<close> or
  \<^verbatim>\<open>InterruptibleHandle::stop\<close> sends SIGUSR1 to a thread, that thread still holds a guard whose
  drop has not completed: the thread is alive, and its number has not been reused.
\<close>

theorem stop_signals_live_threads:
  assumes "tracker_init s0" "reachable_from (tracker_moves bo nested) s0 s"
    and "tracker_step bo nested s sigs s'" "t \<in> sigs"
  shows "\<exists>x st. guards s x = Some (t, st) \<and> st \<noteq> Finished"
  using tracker.inv_reachable [OF assms(1,2)] assms(3,4) by (rule signals_in_scope)

theorem stop_signals_live_threads_witness:
  "tracker_init sys0 \<and> reachable_from (tracker_moves step_backoff False) sys0 sys1 \<and>
   (\<exists>s'. tracker_step step_backoff False sys1 {7} s') \<and>
   (\<exists>x st. guards sys1 x = Some (7, st) \<and> st \<noteq> Finished)"
proof -
  obtain r d' where "stop_enter step_backoff (tdata sys1) = (({7}, r), d')"
    by (simp add: stop_enter_def stop_iter_def stop_pause_def stop_init_def step_backoff_def sys1_def)
  moreover have "stopper sys1 = Idle" by (simp add: sys1_def sys0_def)
  ultimately have step: "tracker_step step_backoff False sys1 {7}
      (sys1\<lparr>tdata := d', stopper := Busy r\<rparr>)"
    by (intro step_stop)
  show ?thesis
    using sys0_init sys1_reachable step
      stop_signals_live_threads [OF sys0_init sys1_reachable step, of 7] by blast
qed



text \<open>
  Property C19. When \<^verbatim>\<open>InterruptibleHandle::stop\<close> returns, the work of that very guard has
  ended: its drop is complete.
\<close>

theorem handle_stop_returns_finished:
  assumes "tracker_init s0" "reachable_from (tracker_moves bo nested) s0 s"
    and "handle_stops s i = (self, h, Busy Returned)"
  shows "guards s (handle_exit h) = Some (handle_thread h, Finished)"
proof -
  have "tracker_inv nested s" by (rule tracker.inv_reachable [OF assms(1,2)])
  then have "\<exists>st. guards s (handle_exit h) = Some (handle_thread h, st)"
    "\<exists>t. guards s (handle_exit h) = Some (t, Finished)"
    using assms(3) by (auto simp: tracker_inv_def handles_inv_def flags_exact_def)
  then show ?thesis by auto
qed

theorem handle_stop_returns_finished_witness:
  "\<exists>s. reachable_from (tracker_moves step_backoff False) sys0 s \<and>
     handle_stops s 1 = (0, \<lparr>handle_thread = 7, handle_exit = 0\<rparr>, Busy Returned) \<and>
     guards s 0 = Some (7, Finished)"
proof -
  let ?mv = "tracker_moves step_backoff False" and ?h = "\<lparr>handle_thread = 7, handle_exit = 0\<rparr>"
  define s2 where "s2 = sys1\<lparr>tdata := InterruptibleGuard_drop_untrack
    \<lparr>guard_thread = 7, guard_exit = 0\<rparr> (tdata sys1), guards := (guards sys1)(0 \<mapsto> (7, Untracked))\<rparr>"
  define s3 where "s3 = s2\<lparr>exit_flags := InterruptibleGuard_drop_exit
    \<lparr>guard_thread = 7, guard_exit = 0\<rparr> (exit_flags s2), guards := (guards s2)(0 \<mapsto> (7, Finished))\<rparr>"
  define s4 where "s4 = s3\<lparr>handle_stops := (handle_stops s3)(1 := (0, ?h, Busy Returned))\<rparr>"
  have m1: "?mv sys1 s2" unfolding tracker_moves_def s2_def
    by (rule exI [of _ "{}"], rule step_untrack) (simp add: sys1_def)
  have m2: "?mv s2 s3" unfolding tracker_moves_def s3_def
    by (rule exI [of _ "{}"], rule step_exit) (simp add: s2_def)
  have m3: "?mv s3 s4" unfolding tracker_moves_def s4_def
    by (rule exI [of _ "{}"],
        rule step_handle_stop [where self = 0 and ?h0.0 = "\<lparr>handle_thread = 0, handle_exit = 0\<rparr>"
          and x = 0 and t = 7 and st = Finished])
      (simp_all add: s3_def s2_def sys1_def sys0_def handle_stop_iter_def InterruptibleGuard_drop_exit_def)
  have run: "reachable_from ?mv sys0 s4"
    by (rule rf_step [OF rf_step [OF rf_step [OF sys1_reachable m1] m2] m3])
  have ret: "handle_stops s4 1 = (0, ?h, Busy Returned)" by (simp add: s4_def)
  show ?thesis
    using run ret handle_stop_returns_finished [OF sys0_init run ret] by auto
qed

text \<open>
  Property C40. The restriction is needed: \<^verbatim>\<open>InterruptibleTracker::guard\<close> lets one thread make two
  guards, the set of threads holds it once, and dropping the first guard removes it. Then
  \<^verbatim>\<open>stop\<close> returns, without having sent a signal, while the second guard is still live.
\<close>

theorem nested_guards_escape_stop:
  "\<exists>s. reachable_from (tracker_moves step_backoff True) sys0 s \<and>
     stopper s = Busy Returned \<and> guards s 1 = Some (7, Live)"
proof -
  let ?mv = "tracker_moves step_backoff True"
  define s2 where "s2 = sys1\<lparr>tdata := \<lparr>can_spawn = True, new_thread = True, threads = {7}\<rparr>,
    guards := (guards sys1)(1 \<mapsto> (7, Live))\<rparr>"
  define s3 where "s3 = s2\<lparr>tdata := InterruptibleGuard_drop_untrack
    \<lparr>guard_thread = 7, guard_exit = 0\<rparr> (tdata s2), guards := (guards s2)(0 \<mapsto> (7, Untracked))\<rparr>"
  define s4 where "s4 = s3\<lparr>tdata := (tdata s3)\<lparr>can_spawn := False\<rparr>, stopper := Busy Returned\<rparr>"
  have "tracker_step step_backoff True sys0 {}
      (sys0\<lparr>tdata := tdata sys1, guards := (guards sys0)(0 \<mapsto> (7, Live))\<rparr>)"
    by (rule step_guard) (simp_all add: sys0_def sys1_def)
  then have m1: "?mv sys0 sys1"
    by (auto simp: tracker_moves_def sys0_def sys1_def)
  have m2: "?mv sys1 s2" unfolding tracker_moves_def s2_def
    by (rule exI [of _ "{}"], rule step_guard) (simp_all add: sys1_def sys0_def)
  have m3: "?mv s2 s3" unfolding tracker_moves_def s3_def
    by (rule exI [of _ "{}"], rule step_untrack) (simp add: s2_def sys1_def)
  have m4: "?mv s3 s4" unfolding tracker_moves_def s4_def
    by (rule exI [of _ "{}"], rule step_stop)
      (simp_all add: s3_def s2_def sys1_def sys0_def stop_enter_def stop_iter_def
        InterruptibleGuard_drop_untrack_def untrack_def)
  have "reachable_from ?mv sys0 s4"
    by (rule rf_step [where step = ?mv, OF _ m4], rule rf_step [where step = ?mv, OF _ m3],
        rule rf_step [where step = ?mv, OF _ m2], rule rf_step [where step = ?mv, OF _ m1],
        rule rf_refl)
  moreover have "stopper s4 = Busy Returned" "guards s4 1 = Some (7, Live)"
    by (simp_all add: s4_def s3_def s2_def)
  ultimately show ?thesis by blast
qed

lemma stop_iter_signals:
  "threads d \<noteq> {} \<Longrightarrow> new_thread d \<or> \<not> snooze_interrupt_done l \<Longrightarrow>
     fst (fst (stop_iter bo l d)) = threads d"
  by (auto simp: stop_iter_def stop_pause_def)

lemma resume_stop_iter:
  assumes "stop_iter bo l d = ((sigs, r), d')"
  shows "resume_stop bo tries r = None \<longleftrightarrow> threads d = {}"
  using assms by (auto simp: stop_iter_def stop_pause_def split: if_splits)

lemma stop_run_returns:
  "threads d \<subseteq> (\<Union>(gone, tries) \<in> set script. gone) \<Longrightarrow> \<exists>log. stop_run bo script l d = Some log"
proof (induction script arbitrary: l d)
  case Nil
  then show ?case by simp
next
  case (Cons entry script)
  obtain gone tries where entry: "entry = (gone, tries)" by (cases entry)
  obtain sigs r d' where iter: "stop_iter bo l d = ((sigs, r), d')" by (metis prod.exhaust)
  show ?case
  proof (cases "threads d = {}")
    case True
    then show ?thesis using entry iter resume_stop_iter [OF iter] by simp
  next
    case False
    then obtain l' where l': "resume_stop bo tries r = Some l'"
      using resume_stop_iter [OF iter, of tries] by auto
    have "threads (d'\<lparr>threads := threads d' - gone\<rparr>) \<subseteq> (\<Union>(gone, tries) \<in> set script. gone)"
      using Cons.prems entry stop_iter_keeps(1) [OF iter] by auto
    from Cons.IH [OF this, of l'] show ?thesis using entry iter l' by auto
  qed
qed

text \<open>
  Property C20. \<^verbatim>\<open>InterruptibleTracker::stop\<close> returns as soon as the threads that were tracked
  have left, however the snoozes and lock attempts go, and unless there is nothing to stop its
  first action is to signal every tracked thread.
\<close>

theorem stop_terminates:
  assumes "threads d \<subseteq> (\<Union>(gone, tries) \<in> set script. gone)"
  shows "\<exists>log. tracker_stop bo script d = Some log \<and>
    (threads d = {} \<longrightarrow> log = []) \<and> (threads d \<noteq> {} \<longrightarrow> hd log = threads d)"
proof -
  let ?d = "d\<lparr>can_spawn := False\<rparr>"
  have "threads ?d \<subseteq> (\<Union>(gone, tries) \<in> set script. gone)" using assms by simp
  from stop_run_returns [OF this, of bo "stop_init bo"]
  obtain log where log: "tracker_stop bo script d = Some log" by (auto simp: tracker_stop_def)
  obtain sigs r d' where iter: "stop_iter bo (stop_init bo) ?d = ((sigs, r), d')"
    by (metis prod.exhaust)
  have "threads d = {} \<longrightarrow> log = []"
    using log iter resume_stop_iter [OF iter]
    by (cases script) (auto simp: tracker_stop_def split: option.splits)
  moreover have "hd log = threads d" if ne: "threads d \<noteq> {}"
  proof -
    have "sigs = threads d"
      using stop_iter_signals [of ?d "stop_init bo" bo] iter ne by (simp add: stop_init_def)
    moreover obtain gone tries rest where "script = (gone, tries) # rest"
      using ne assms by (cases script) auto
    moreover obtain l' where "resume_stop bo tries r = Some l'"
      using resume_stop_iter [OF iter, of tries] ne by auto
    ultimately show ?thesis
      using log iter by (auto simp: tracker_stop_def)
  qed
  ultimately show ?thesis using log by blast
qed

theorem stop_terminates_witness:
  "\<exists>log. tracker_stop step_backoff [({3}, [False]), ({4}, [])]
     \<lparr>can_spawn = True, new_thread = True, threads = {3, 4}\<rparr> = Some log \<and> hd log = {3, 4}"
  using stop_terminates [of "\<lparr>can_spawn = True, new_thread = True, threads = {3, 4}\<rparr>"
      "[({3}, [False]), ({4}, [])]" step_backoff] by auto

end
