(* ===== verification/Daemon.thy ===== *)
theory Daemon
  imports Framing Tracker
begin

text \<open>
  The owner process of \<^verbatim>\<open>src/owner.rs\<close> (lines 27 to 454): its shared state, the exit lock, the
  error conversion, every request handler, the dispatch of the receiving loop and the decision
  taken when the time to live expires.

  An \<open>Arc<FdData>\<close> is a number; \<open>heap\<close> holds the live objects and \<open>arcs\<close> their strong counts.
  The exit lock is a reader count and a flag: every live \<open>FdData\<close> holds one read guard. The
  calls to \<^verbatim>\<open>fcntl\<close> are a parameter \<open>fc\<close> on the kernel's state \<open>'k\<close>. The loop that looks for a
  vacant identifier may not end when all are taken, so it is a partial function.
\<close>

section \<open>Data\<close>

record FdData =
  descriptor :: fd
  fd_tracker :: RawInterruptibleTrackerData

type_synonym obj = nat

record DaemonOwnerInner =
  exit_flag :: bool
  exit_readers :: nat
  next_id :: u64
  descriptors :: "u64 \<rightharpoonup> obj"
  interrupts :: "u64 \<rightharpoonup> InterruptibleHandle"
  interrupt_next_id :: u64
  heap :: "obj \<rightharpoonup> FdData"
  arcs :: "obj \<Rightarrow> nat"
  next_obj :: obj
  closed_fds :: "fd list"

text \<open>The calls \<^verbatim>\<open>F_GETLK\<close>, \<^verbatim>\<open>F_SETLK\<close> and \<^verbatim>\<open>F_SETLKW\<close>.\<close>

record 'k fcntl_calls =
  fcntl_getlk :: "fd \<Rightarrow> flock \<Rightarrow> 'k \<Rightarrow> (errno + flock) \<times> 'k"
  fcntl_setlk :: "fd \<Rightarrow> flock \<Rightarrow> 'k \<Rightarrow> (errno + unit) \<times> 'k"
  fcntl_setlkw :: "fd \<Rightarrow> flock \<Rightarrow> 'k \<Rightarrow> (errno + unit) \<times> 'k"

definition DaemonOwner_new :: DaemonOwnerInner where
  "DaemonOwner_new =
     \<lparr>exit_flag = False, exit_readers = 0, next_id = 0, descriptors = Map.empty,
      interrupts = Map.empty, interrupt_next_id = 0, heap = Map.empty, arcs = (\<lambda>_. 0),
      next_obj = 0, closed_fds = []\<rparr>"

section \<open>The exit lock\<close>

definition acquire_exit_lock :: "DaemonOwnerInner \<Rightarrow> unit io_result \<times> DaemonOwnerInner" where
  "acquire_exit_lock inner =
     (if exit_flag inner then (Inl (Custom BrokenPipe), inner)
      else (Inr (), inner\<lparr>exit_readers := Suc (exit_readers inner)\<rparr>))"

definition release_exit_lock :: "DaemonOwnerInner \<Rightarrow> DaemonOwnerInner" where
  "release_exit_lock inner = inner\<lparr>exit_readers := exit_readers inner - 1\<rparr>"

definition try_exit :: "DaemonOwnerInner \<Rightarrow> unit io_result \<times> DaemonOwnerInner" where
  "try_exit inner =
     (if exit_readers inner \<noteq> 0 then (Inl (Custom ResourceBusy), inner)
      else (Inr (), inner\<lparr>exit_flag := True\<rparr>))"

text \<open>Dropping the shared state marks the owner as exited, if nothing is registered.\<close>

definition DaemonOwnerInner_drop :: "DaemonOwnerInner \<Rightarrow> DaemonOwnerInner" where
  "DaemonOwnerInner_drop inner = snd (try_exit inner)"

section \<open>Reference counting\<close>

definition arc_new :: "FdData \<Rightarrow> DaemonOwnerInner \<Rightarrow> obj \<times> DaemonOwnerInner" where
  "arc_new fd_data inner =
     (let p = next_obj inner
      in (p, inner\<lparr>heap := (heap inner)(p \<mapsto> fd_data), arcs := (arcs inner)(p := 1),
                   next_obj := Suc p\<rparr>))"

definition arc_clone :: "obj \<Rightarrow> DaemonOwnerInner \<Rightarrow> DaemonOwnerInner" where
  "arc_clone p inner = inner\<lparr>arcs := (arcs inner)(p := Suc (arcs inner p))\<rparr>"

text \<open>
  Dropping the last reference drops the \<open>FdData\<close>: its descriptor is closed and its read guard
  of the exit lock is released.
\<close>

definition arc_drop :: "obj \<Rightarrow> DaemonOwnerInner \<Rightarrow> DaemonOwnerInner" where
  "arc_drop p inner =
     (case heap inner p of
        None \<Rightarrow> inner
      | Some fd_data \<Rightarrow>
          if arcs inner p = 1
          then release_exit_lock
            (inner\<lparr>arcs := (arcs inner)(p := 0), heap := (heap inner)(p := None),
               closed_fds := closed_fds inner @ [descriptor fd_data]\<rparr>)
          else inner\<lparr>arcs := (arcs inner)(p := arcs inner p - 1)\<rparr>)"

section \<open>Errors\<close>

fun errno_of_kind :: "error_kind \<Rightarrow> errno" where
  "errno_of_kind NotFound = ENOENT"
| "errno_of_kind PermissionDenied = EPERM"
| "errno_of_kind ConnectionRefused = ECONNREFUSED"
| "errno_of_kind ConnectionReset = ECONNRESET"
| "errno_of_kind ConnectionAborted = ECONNABORTED"
| "errno_of_kind NotConnected = ENOTCONN"
| "errno_of_kind AddrInUse = EADDRINUSE"
| "errno_of_kind AddrNotAvailable = EADDRNOTAVAIL"
| "errno_of_kind TimedOut = ETIMEDOUT"
| "errno_of_kind WouldBlock = EAGAIN"
| "errno_of_kind AlreadyExists = EEXIST"
| "errno_of_kind InvalidInput = EINVAL"
| "errno_of_kind InvalidData = EINVAL"
| "errno_of_kind Deadlock = EDEADLK"
| "errno_of_kind Other = EIO"
| "errno_of_kind _ = EIO"

definition io_cvt :: "'a io_result \<Rightarrow> errno + 'a" where
  "io_cvt result =
     (case result of
        Inr x \<Rightarrow> Inr x
      | Inl e \<Rightarrow>
          (case raw_os_error e of
             Some errno \<Rightarrow> Inl errno
           | None \<Rightarrow> Inl (errno_of_kind (kind e))))"

section \<open>Identifiers\<close>

text \<open>
  \<^verbatim>\<open>fetch_add\<close> wraps around; the loop goes on until the entry of the fetched number is vacant.
  The result is the number and the counter after the loop.
\<close>

partial_function (option) vacant_id :: "(u64 \<rightharpoonup> 'a) \<Rightarrow> u64 \<Rightarrow> (u64 \<times> u64) option" where
  "vacant_id m counter =
     (if m counter = None then Some (counter, counter + 1) else vacant_id m (counter + 1))"

section \<open>Interrupts\<close>

definition interrupt_lookup ::
    "DaemonOwnerInner \<Rightarrow> Interrupt \<Rightarrow> InterruptibleHandle io_result" where
  "interrupt_lookup inner interrupt =
     (case interrupts inner (interrupt_id interrupt) of
        None \<Rightarrow> Inl (Custom NotFound)
      | Some intr \<Rightarrow> Inr intr)"

definition handle_interrupt_add ::
    "DaemonOwnerInner \<Rightarrow> InterruptibleHandle \<Rightarrow> (u64 \<times> DaemonOwnerInner) option" where
  "handle_interrupt_add inner handle =
     map_option (\<lambda>(candidate_id, counter).
       (candidate_id, inner\<lparr>interrupt_next_id := counter,
          interrupts := (interrupts inner)(candidate_id \<mapsto> handle)\<rparr>))
       (vacant_id (interrupts inner) (interrupt_next_id inner))"

definition handle_interrupt_remove ::
    "DaemonOwnerInner \<Rightarrow> RemoveInterrupt \<Rightarrow> unit io_result \<times> DaemonOwnerInner" where
  "handle_interrupt_remove inner interrupt =
     (case interrupts inner (remove_id interrupt) of
        None \<Rightarrow> (Inl (Custom NotFound), inner)
      | Some _ \<Rightarrow>
          (Inr (), inner\<lparr>interrupts := (interrupts inner)(remove_id interrupt := None)\<rparr>))"

section \<open>Registration\<close>

text \<open>
  On an error the received descriptor is dropped, and so is the exit guard when the tracker
  cannot be created.
\<close>

definition close_received :: "fd \<Rightarrow> DaemonOwnerInner \<Rightarrow> DaemonOwnerInner" where
  "close_received fd inner = inner\<lparr>closed_fds := closed_fds inner @ [fd]\<rparr>"

definition insert_descriptor ::
    "DaemonOwnerInner \<Rightarrow> obj \<Rightarrow> (u64 \<times> DaemonOwnerInner) option" where
  "insert_descriptor inner fd_data =
     map_option (\<lambda>(new_id, counter).
       (new_id, inner\<lparr>next_id := counter,
          descriptors := (descriptors inner)(new_id \<mapsto> fd_data)\<rparr>))
       (vacant_id (descriptors inner) (next_id inner))"

definition handle_fd_register ::
    "unit io_result \<Rightarrow> DaemonOwnerInner \<Rightarrow> Register \<Rightarrow>
     (u64 io_result \<times> DaemonOwnerInner) option" where
  "handle_fd_register sigaction_check inner register =
     (case acquire_exit_lock inner of
        (Inl e, inner1) \<Rightarrow> Some (Inl e, close_received (register_fd register) inner1)
      | (Inr _, inner1) \<Rightarrow>
          (case InterruptibleTracker_new sigaction_check of
             Inl e \<Rightarrow>
               Some (Inl e, close_received (register_fd register) (release_exit_lock inner1))
           | Inr tracker \<Rightarrow>
               (case arc_new \<lparr>descriptor = register_fd register, fd_tracker = tracker\<rparr> inner1 of
                  (p, inner2) \<Rightarrow>
                    map_option (\<lambda>(new_id, inner3). (Inr new_id, inner3))
                      (insert_descriptor inner2 p))))"

text \<open>
  Unregistering takes the entry out of the map, stops the tracker's threads, waits until its own
  reference is the last one, and drops it. The middle part is the business of the system of
  tasks; here are the two ends.
\<close>

definition unregister_take ::
    "DaemonOwnerInner \<Rightarrow> Unregister \<Rightarrow> obj io_result \<times> DaemonOwnerInner" where
  "unregister_take inner unregister =
     (case descriptors inner (unregister_id unregister) of
        None \<Rightarrow> (Inl (Custom NotFound), inner)
      | Some p \<Rightarrow>
          (Inr p, inner\<lparr>descriptors := (descriptors inner)(unregister_id unregister := None)\<rparr>))"

definition unregister_may_finish :: "DaemonOwnerInner \<Rightarrow> obj \<Rightarrow> bool" where
  "unregister_may_finish inner p \<longleftrightarrow> arcs inner p = 1"

definition update_tracker ::
    "obj \<Rightarrow> (RawInterruptibleTrackerData \<Rightarrow> RawInterruptibleTrackerData) \<Rightarrow>
     DaemonOwnerInner \<Rightarrow> DaemonOwnerInner" where
  "update_tracker p f inner =
     (case heap inner p of
        None \<Rightarrow> inner
      | Some d \<Rightarrow> inner\<lparr>heap := (heap inner)(p \<mapsto> d\<lparr>fd_tracker := f (fd_tracker d)\<rparr>)\<rparr>)"

section \<open>Lock commands\<close>

definition lock_lookup :: "DaemonOwnerInner \<Rightarrow> u64 \<Rightarrow> obj io_result \<times> DaemonOwnerInner" where
  "lock_lookup inner lock_id =
     (case descriptors inner lock_id of
        None \<Rightarrow> (Inl (Custom NotFound), inner)
      | Some p \<Rightarrow> (Inr p, arc_clone p inner))"

definition get_lock_status ::
    "libc_consts \<Rightarrow> 'k fcntl_calls \<Rightarrow> fd \<Rightarrow> LockParams \<Rightarrow> 'k \<Rightarrow>
     (errno + ReplyLockCommandData) \<times> 'k" where
  "get_lock_status c fc fd params k =
     (case fcntl_getlk fc fd (flock_from c params) k of
        (Inl e, k') \<Rightarrow> (io_cvt (Inl (Os e)), k')
      | (Inr raw, k') \<Rightarrow> (io_cvt (map_ok Done (LockParams_try_from c raw)), k'))"

definition set_lock_nonblocking ::
    "libc_consts \<Rightarrow> 'k fcntl_calls \<Rightarrow> fd \<Rightarrow> LockParams \<Rightarrow> 'k \<Rightarrow>
     (errno + ReplyLockCommandData) \<times> 'k" where
  "set_lock_nonblocking c fc fd params k =
     (let raw = flock_from c params
      in case fcntl_setlk fc fd raw k of
           (Inl e, k') \<Rightarrow> (io_cvt (Inl (Os e)), k')
         | (Inr _, k') \<Rightarrow> (io_cvt (map_ok Done (LockParams_try_from c raw)), k'))"

text \<open>
  The locking thread: a first, non-blocking attempt with its reply, then the blocking call with
  its reply. The second part follows the first whatever the outcome of the first was.
\<close>

definition set_lock_try ::
    "libc_consts \<Rightarrow> 'k fcntl_calls \<Rightarrow> InterruptibleHandle \<Rightarrow> fd \<Rightarrow> LockParams \<Rightarrow>
     DaemonOwnerInner \<Rightarrow> 'k \<Rightarrow>
     ((errno + ReplyLockCommandData) \<times> DaemonOwnerInner \<times> 'k) option" where
  "set_lock_try c fc interrupt fd lock owner k =
     (case fcntl_setlk fc fd (flock_from c lock) k of
        (Inr _, k') \<Rightarrow> Some (io_cvt (Inr (Done lock)), owner, k')
      | (Inl e, k') \<Rightarrow>
          if raw_os_error (Os e) = Some EAGAIN
          then map_option (\<lambda>(pending_id, owner'). (io_cvt (Inr (Pending pending_id)), owner', k'))
                 (handle_interrupt_add owner interrupt)
          else Some (io_cvt (Inl (Os e)), owner, k'))"

definition set_lock_wait ::
    "libc_consts \<Rightarrow> 'k fcntl_calls \<Rightarrow> fd \<Rightarrow> LockParams \<Rightarrow> 'k \<Rightarrow>
     (errno + ReplyLockCommandData) \<times> 'k" where
  "set_lock_wait c fc fd lock k =
     (case fcntl_setlkw fc fd (flock_from c lock) k of
        (Inr _, k') \<Rightarrow> (io_cvt (Inr (Done lock)), k')
      | (Inl e, k') \<Rightarrow> (io_cvt (Inl (Os e)), k'))"

definition set_lock_blocking ::
    "'t sigmask_call \<Rightarrow> libc_consts \<Rightarrow> 'k fcntl_calls \<Rightarrow> InterruptibleHandle \<Rightarrow> fd \<Rightarrow> LockParams \<Rightarrow>
     DaemonOwnerInner \<Rightarrow> 't \<Rightarrow> 'k \<Rightarrow>
     ((errno + ReplyLockCommandData) list \<times> DaemonOwnerInner \<times> 't \<times> 'k) option" where
  "set_lock_blocking pm c fc interrupt fd lock owner t k =
     (case block_all_signals pm t of
        (Inl e, t1) \<Rightarrow> Some ([io_cvt (Inl e)], owner, t1, k)
      | (Inr g, t1) \<Rightarrow>
          (case set_lock_try c fc interrupt fd lock owner k of
             None \<Rightarrow> None
           | Some (r1, owner1, k1) \<Rightarrow>
               (case unblock_signal pm SIGUSR1 t1 of
                  (Inl e, t2) \<Rightarrow>
                    Some ([r1, io_cvt (Inl e)], owner1, SigSetGuard_drop pm g t2, k1)
                | (Inr g2, t2) \<Rightarrow>
                    (case set_lock_wait c fc fd lock k1 of
                       (r2, k2) \<Rightarrow>
                         Some ([r1, r2], owner1,
                           SigSetGuard_drop pm g (SigSetGuard_drop pm g2 t2), k2)))))"

section \<open>Vacant identifiers\<close>

lemma vacant_id_sound:
  assumes "vacant_id m counter = Some (i, n)"
  shows "m i = None \<and> n = i + 1"
proof -
  have "m (fst (i, n)) = None \<and> snd (i, n) = fst (i, n) + 1"
    by (rule vacant_id.raw_induct [where P = "\<lambda>m counter r. m (fst r) = None \<and> snd r = fst r + 1",
          OF _ assms]) (auto split: if_splits)
  then show ?thesis by simp
qed

lemma vacant_id_at:
  assumes "m (counter + of_nat n) = None" "\<And>j. j < n \<Longrightarrow> m (counter + of_nat j) \<noteq> None"
  shows "vacant_id m counter = Some (counter + of_nat n, counter + of_nat n + 1)"
  using assms
proof (induction n arbitrary: counter)
  case 0
  then show ?case by (subst vacant_id.simps) simp
next
  case (Suc n)
  have "m counter \<noteq> None" using Suc.prems(2) [of 0] by simp
  moreover have "vacant_id m (counter + 1) = Some (counter + 1 + of_nat n, counter + 1 + of_nat n + 1)"
  proof (rule Suc.IH)
    show "m (counter + 1 + of_nat n) = None" using Suc.prems(1) by (simp add: algebra_simps)
    show "m (counter + 1 + of_nat j) \<noteq> None" if "j < n" for j
      using Suc.prems(2) [of "Suc j"] that by (simp add: algebra_simps)
  qed
  ultimately show ?case using vacant_id.simps [of m counter] by (auto simp: algebra_simps)
qed

text \<open>
  The loop ends exactly when some identifier is vacant, and then it returns the first vacant one
  in the order of the counter, which wraps around.
\<close>

lemma vacant_id_first:
  assumes "m i = None"
  shows "\<exists>n. vacant_id m counter = Some (counter + of_nat n, counter + of_nat n + 1) \<and>
     m (counter + of_nat n) = None \<and> (\<forall>j<n. m (counter + of_nat j) \<noteq> None)"
proof -
  let ?P = "\<lambda>n. m (counter + of_nat n) = None"
  have "?P (unat (i - counter))" using assms by simp
  then have "?P (LEAST n. ?P n)" by (rule LeastI)
  moreover have "\<forall>j < (LEAST n. ?P n). \<not> ?P j" using not_less_Least by blast
  ultimately show ?thesis using vacant_id_at [of m counter "LEAST n. ?P n"] by blast
qed

lemma vacant_id_returns: "(\<exists>r. vacant_id m counter = Some r) \<longleftrightarrow> (\<exists>i. m i = None)"
proof
  assume "\<exists>r. vacant_id m counter = Some r"
  then obtain i n where "vacant_id m counter = Some (i, n)" by force
  then show "\<exists>i. m i = None" using vacant_id_sound by blast
next
  assume "\<exists>i. m i = None"
  then show "\<exists>r. vacant_id m counter = Some r" using vacant_id_first by blast
qed

text \<open>
  Property C16. The search for a vacant identifier ends exactly when there is one. It then returns
  the first vacant identifier in the order of the counter, which wraps around at its width, and the
  counter one past it, after at most as many collisions as there are entries.
\<close>

theorem identifier_search_bounds:
  "(vacant_id m counter = None \<longleftrightarrow> dom m = UNIV) \<and>
   (vacant_id m counter = Some (i, n) \<longrightarrow>
      m i = None \<and> n = i + 1 \<and> unat (i - counter) \<le> card (dom m) \<and>
      (\<forall>j. j - counter < i - counter \<longrightarrow> m j \<noteq> None))"
proof (intro conjI impI)
  have "vacant_id m counter = None \<longleftrightarrow> \<not> (\<exists>i. m i = None)"
    unfolding vacant_id_returns [symmetric, of m counter] by (metis not_None_eq)
  then show "vacant_id m counter = None \<longleftrightarrow> dom m = UNIV" by (auto simp: dom_def)
next
  assume ret: "vacant_id m counter = Some (i, n)"
  show vac: "m i = None" "n = i + 1" using vacant_id_sound [OF ret] by simp_all
  obtain l where l: "i = counter + of_nat l" "\<forall>j<l. m (counter + of_nat j) \<noteq> None"
    using vacant_id_first [of m i counter] vac(1) ret by auto
  have "unat (i - counter) \<le> l" by (simp add: l(1) unat_of_nat take_bit_nat_eq_self_iff)
  then have before: "m (counter + of_nat j) \<noteq> None" if "j < unat (i - counter)" for j
    using l(2) that by simp
  show "\<forall>j. j - counter < i - counter \<longrightarrow> m j \<noteq> None"
  proof (intro allI impI)
    fix j assume "j - counter < i - counter"
    then show "m j \<noteq> None" using before [of "unat (j - counter)"] by (simp add: word_less_nat_alt)
  qed
  let ?seen = "(\<lambda>j. counter + of_nat j) ` {..<unat (i - counter)}"
  have "inj_on (\<lambda>j. counter + of_nat j :: u64) {..<unat (i - counter)}"
  proof (rule inj_onI)
    fix x y assume "x \<in> {..<unat (i - counter)}" "y \<in> {..<unat (i - counter)}" "counter + of_nat x = counter + of_nat y"
    moreover have "unat (i - counter) < 2 ^ 64" using unsigned_less [of "i - counter"] by simp
    ultimately have "unat (of_nat x :: u64) = unat (of_nat y :: u64)" "x < 2 ^ 64" "y < 2 ^ 64" by auto
    then show "x = y" by (simp add: unat_of_nat)
  qed
  then have "card ?seen = unat (i - counter)" by (simp add: card_image)
  moreover have "?seen \<subseteq> dom m" using before by auto
  ultimately show "unat (i - counter) \<le> card (dom m)" using card_mono [OF finite] by metis
qed

theorem identifier_search_bounds_witness:
  "vacant_id [(2 ^ 64 - 1 :: u64) \<mapsto> True, 0 \<mapsto> False] (2 ^ 64 - 1) = Some (1, 2) \<and>
   unat ((1 :: u64) - (2 ^ 64 - 1)) \<le> card (dom [(2 ^ 64 - 1 :: u64) \<mapsto> True, 0 \<mapsto> False])"
proof -
  have "vacant_id [(2 ^ 64 - 1 :: u64) \<mapsto> True, 0 \<mapsto> False] (2 ^ 64 - 1) = Some (1, 2)"
    by (simp add: vacant_id.simps)
  then show ?thesis using identifier_search_bounds [of "[(2 ^ 64 - 1 :: u64) \<mapsto> True, 0 \<mapsto> False]" "2 ^ 64 - 1" 1 2] by simp
qed
section \<open>The contract of the identifier tables\<close>

text \<open>
  The owner process keeps two tables with the same discipline: an entry is added under an
  identifier that was vacant, looked up by it and removed by it.
\<close>

locale id_table =
  fixes look :: "'s \<Rightarrow> u64 \<Rightarrow> 'v option"
    and add :: "'s \<Rightarrow> 'v \<Rightarrow> (u64 \<times> 's) option"
    and rem :: "'s \<Rightarrow> u64 \<Rightarrow> 's"
  assumes add_entry: "add s v = Some (i, s') \<Longrightarrow> look s i = None \<and> look s' = (look s)(i \<mapsto> v)"
    and add_returns: "look s j = None \<Longrightarrow> \<exists>i s'. add s v = Some (i, s')"
    and rem_entry: "look (rem s i) = (look s)(i := None)"
begin

text \<open>Adding never changes an existing entry, so identifiers in use are never handed out.\<close>

lemma add_keeps: "add s v = Some (i, s') \<Longrightarrow> look s j = Some w \<Longrightarrow> j \<noteq> i \<and> look s' j = Some w"
  using add_entry [of s v i s'] by auto

lemma add_distinct:
  "add s v = Some (i, s') \<Longrightarrow> add s' w = Some (j, s'') \<Longrightarrow>
     i \<noteq> j \<and> look s'' i = Some v \<and> look s'' j = Some w"
  using add_entry [of s v i s'] add_entry [of s' w j s''] by auto

lemma add_rem: "add s v = Some (i, s') \<Longrightarrow> look (rem s' i) = look s"
  using add_entry [of s v i s'] by (auto simp: rem_entry)

text \<open>Any number of additions hands out pairwise distinct identifiers.\<close>

fun add_all :: "'s \<Rightarrow> 'v list \<Rightarrow> (u64 list \<times> 's) option" where
  "add_all s [] = Some ([], s)"
| "add_all s (v # vs) =
     (case add s v of
        None \<Rightarrow> None
      | Some (i, s') \<Rightarrow> map_option (\<lambda>(is, s''). (i # is, s'')) (add_all s' vs))"

lemma add_all_keeps: "add_all s vs = Some (is, s') \<Longrightarrow> look s j = Some w \<Longrightarrow> j \<notin> set is \<and> look s' j = Some w"
proof (induction vs arbitrary: s "is")
  case (Cons v vs)
  from Cons.prems obtain i s1 is1 where 1: "add s v = Some (i, s1)" "add_all s1 vs = Some (is1, s')" "is = i # is1"
    by (auto split: option.splits prod.splits)
  then show ?case using Cons.IH [of s1 is1] add_keeps [OF 1(1) Cons.prems(2)] by auto
qed simp

lemma add_all_distinct:
  "add_all s vs = Some (is, s') \<Longrightarrow> distinct is \<and> length is = length vs \<and> map (look s') is = map Some vs"
proof (induction vs arbitrary: s "is")
  case (Cons v vs)
  from Cons.prems obtain i s1 is1 where 1: "add s v = Some (i, s1)" "add_all s1 vs = Some (is1, s')" "is = i # is1"
    by (auto split: option.splits prod.splits)
  moreover have "look s1 i = Some v" using add_entry [OF 1(1)] by simp
  ultimately show ?case using Cons.IH [of s1 is1] add_all_keeps [OF 1(2), of i v] by auto
qed simp

end

definition forget_interrupt :: "DaemonOwnerInner \<Rightarrow> u64 \<Rightarrow> DaemonOwnerInner" where
  "forget_interrupt inner i = snd (handle_interrupt_remove inner (RemoveInterrupt i))"

definition forget_descriptor :: "DaemonOwnerInner \<Rightarrow> u64 \<Rightarrow> DaemonOwnerInner" where
  "forget_descriptor inner i = snd (unregister_take inner (Unregister i))"

interpretation interrupt_table: id_table interrupts handle_interrupt_add forget_interrupt
proof
  fix inner :: DaemonOwnerInner and h i inner'
  assume "handle_interrupt_add inner h = Some (i, inner')"
  then show "interrupts inner i = None \<and> interrupts inner' = (interrupts inner)(i \<mapsto> h)"
    by (auto simp: handle_interrupt_add_def dest!: vacant_id_sound)
next
  fix inner :: DaemonOwnerInner and j h
  assume "interrupts inner j = None"
  then show "\<exists>i inner'. handle_interrupt_add inner h = Some (i, inner')"
    using vacant_id_first [of "interrupts inner" j "interrupt_next_id inner"]
    by (auto simp: handle_interrupt_add_def)
qed (auto simp: forget_interrupt_def handle_interrupt_remove_def split: option.split)

interpretation descriptor_table: id_table descriptors insert_descriptor forget_descriptor
proof
  fix inner :: DaemonOwnerInner and p i inner'
  assume "insert_descriptor inner p = Some (i, inner')"
  then show "descriptors inner i = None \<and> descriptors inner' = (descriptors inner)(i \<mapsto> p)"
    by (auto simp: insert_descriptor_def dest!: vacant_id_sound)
next
  fix inner :: DaemonOwnerInner and j p
  assume "descriptors inner j = None"
  then show "\<exists>i inner'. insert_descriptor inner p = Some (i, inner')"
    using vacant_id_first [of "descriptors inner" j "next_id inner"]
    by (auto simp: insert_descriptor_def)
qed (auto simp: forget_descriptor_def unregister_take_def split: option.split)

section \<open>Well-formed owner states\<close>

text \<open>
  Every live object is counted once by the exit lock, the table points to live objects, no two
  identifiers share one, and an owner that has decided to exit has none.
\<close>

definition objects_wf :: "DaemonOwnerInner \<Rightarrow> bool" where
  "objects_wf inner \<longleftrightarrow>
     finite (dom (heap inner)) \<and> exit_readers inner = card (dom (heap inner)) \<and>
     (\<forall>p d. heap inner p = Some d \<longrightarrow> p < next_obj inner) \<and>
     (\<forall>p. 0 < arcs inner p \<longleftrightarrow> p \<in> dom (heap inner)) \<and>
     (exit_flag inner \<longrightarrow> heap inner = Map.empty)"

definition table_wf :: "DaemonOwnerInner \<Rightarrow> bool" where
  "table_wf inner \<longleftrightarrow>
     ran (descriptors inner) \<subseteq> dom (heap inner) \<and>
     inj_on (descriptors inner) (dom (descriptors inner))"

definition daemon_wf :: "DaemonOwnerInner \<Rightarrow> bool" where
  "daemon_wf inner \<longleftrightarrow> objects_wf inner \<and> table_wf inner"

lemma objects_wf_card:
  "objects_wf inner \<Longrightarrow> exit_readers inner = 0 \<longleftrightarrow> heap inner = Map.empty"
  by (simp add: objects_wf_def)

lemma daemon_wf_new: "daemon_wf DaemonOwner_new"
  by (simp add: daemon_wf_def objects_wf_def table_wf_def DaemonOwner_new_def)

lemma objects_wf_frame:
  assumes "objects_wf inner" "heap inner' = heap inner" "exit_readers inner' = exit_readers inner"
    "next_obj inner' = next_obj inner" "arcs inner' = arcs inner" "exit_flag inner' = exit_flag inner"
  shows "objects_wf inner'"
  using assms by (simp add: objects_wf_def)

lemma table_wf_frame:
  assumes "table_wf inner" "dom (heap inner') = dom (heap inner)" "descriptors inner' = descriptors inner"
  shows "table_wf inner'"
  using assms by (simp add: table_wf_def)

lemma objects_wf_try_exit: "objects_wf inner \<Longrightarrow> objects_wf (snd (try_exit inner))"
  by (auto simp: try_exit_def objects_wf_def)

lemma objects_wf_clone:
  "objects_wf inner \<Longrightarrow> heap inner p = Some d \<Longrightarrow> objects_wf (arc_clone p inner)"
  by (auto simp: arc_clone_def objects_wf_def)

lemma arc_drop_last:
  "heap inner p = Some d \<Longrightarrow> arcs inner p = 1 \<Longrightarrow>
     arc_drop p inner = inner\<lparr>arcs := (arcs inner)(p := 0), heap := (heap inner)(p := None),
        closed_fds := closed_fds inner @ [descriptor d], exit_readers := exit_readers inner - 1\<rparr>"
  by (simp add: arc_drop_def release_exit_lock_def)

lemma arc_drop_shared:
  "arcs inner p \<noteq> 1 \<Longrightarrow> heap inner p = Some d \<Longrightarrow>
     arc_drop p inner = inner\<lparr>arcs := (arcs inner)(p := arcs inner p - 1)\<rparr>"
  by (simp add: arc_drop_def)

lemma objects_wf_drop: "objects_wf inner \<Longrightarrow> objects_wf (arc_drop p inner)"
proof (cases "heap inner p")
  case None
  then show "objects_wf inner \<Longrightarrow> objects_wf (arc_drop p inner)" by (simp add: arc_drop_def)
next
  case (Some d)
  assume wf: "objects_wf inner"
  then have pos: "0 < arcs inner p" and "p \<in> dom (heap inner)" using Some by (auto simp: objects_wf_def)
  show "objects_wf (arc_drop p inner)"
  proof (cases "arcs inner p = 1")
    case True
    then show ?thesis
      using wf Some by (auto simp: arc_drop_last objects_wf_def card_Diff_singleton domI)
  next
    case False
    then have "Suc 0 < arcs inner p" using pos by linarith
    with False show ?thesis using wf Some by (auto simp: arc_drop_shared objects_wf_def)
  qed
qed

lemma objects_wf_arc_new:
  assumes "objects_wf inner" "\<not> exit_flag inner" "arc_new d inner = (p, inner')"
  shows "objects_wf (inner'\<lparr>exit_readers := Suc (exit_readers inner)\<rparr>)"
    and "p = next_obj inner" "heap inner p = None" "heap inner' = (heap inner)(p \<mapsto> d)"
proof -
  show p: "p = next_obj inner" "heap inner' = (heap inner)(p \<mapsto> d)"
    using assms(3) by (auto simp: arc_new_def Let_def)
  have "p \<notin> dom (heap inner)" using assms(1) p(1) by (auto simp: objects_wf_def)
  then show "heap inner p = None" by blast
  then show "objects_wf (inner'\<lparr>exit_readers := Suc (exit_readers inner)\<rparr>)"
    using assms p \<open>p \<notin> dom (heap inner)\<close> by (auto simp: objects_wf_def arc_new_def Let_def intro: less_SucI)
qed

section \<open>Registration\<close>

lemma register_refused:
  "exit_flag inner \<Longrightarrow> handle_fd_register check inner r =
     Some (Inl (Custom BrokenPipe), close_received (register_fd r) inner)"
  by (simp add: handle_fd_register_def acquire_exit_lock_def)

lemma register_no_handler:
  "\<not> exit_flag inner \<Longrightarrow> handle_fd_register (Inl e) inner r =
     Some (Inl e, close_received (register_fd r) inner)"
  by (simp add: handle_fd_register_def acquire_exit_lock_def release_exit_lock_def
      InterruptibleTracker_new_def close_received_def)

text \<open>The owner's state after a successful registration under identifier \<open>i\<close>.\<close>

definition registered_state :: "DaemonOwnerInner \<Rightarrow> fd \<Rightarrow> u64 \<Rightarrow> DaemonOwnerInner" where
  "registered_state inner fd i =
     inner\<lparr>exit_readers := Suc (exit_readers inner),
       heap := (heap inner)(next_obj inner \<mapsto>
         \<lparr>descriptor = fd, fd_tracker = \<lparr>can_spawn = True, new_thread = False, threads = {}\<rparr>\<rparr>),
       arcs := (arcs inner)(next_obj inner := 1), next_obj := Suc (next_obj inner),
       next_id := i + 1, descriptors := (descriptors inner)(i \<mapsto> next_obj inner)\<rparr>"

lemma register_accepted:
  assumes "\<not> exit_flag inner" "vacant_id (descriptors inner) (next_id inner) = Some (i, n)"
  shows "handle_fd_register (Inr ()) inner r =
     Some (Inr i, registered_state inner (register_fd r) i)"
  using assms vacant_id_sound [OF assms(2)]
  by (simp add: handle_fd_register_def acquire_exit_lock_def InterruptibleTracker_new_def
      arc_new_def insert_descriptor_def registered_state_def Let_def)

lemma daemon_wf_registered:
  assumes wf: "daemon_wf inner" and e: "\<not> exit_flag inner" and v: "descriptors inner i = None"
  shows "daemon_wf (registered_state inner fd i)"
proof -
  have fresh: "heap inner (next_obj inner) = None"
    using wf by (cases "heap inner (next_obj inner)") (auto simp: daemon_wf_def objects_wf_def)
  then have ran: "next_obj inner \<notin> ran (descriptors inner)"
    using wf by (auto simp: daemon_wf_def table_wf_def)
  have "objects_wf (registered_state inner fd i)"
    using wf e fresh
    by (auto simp: daemon_wf_def objects_wf_def registered_state_def domIff intro: less_SucI)
  moreover have "table_wf (registered_state inner fd i)"
    using wf v ran
    by (auto simp: daemon_wf_def table_wf_def registered_state_def inj_on_def ran_def dom_def)
  ultimately show ?thesis by (simp add: daemon_wf_def)
qed

text \<open>A run of registrations.\<close>

fun register_all ::
    "unit io_result \<Rightarrow> DaemonOwnerInner \<Rightarrow> fd list \<Rightarrow> (u64 list \<times> DaemonOwnerInner) option" where
  "register_all check inner [] = Some ([], inner)"
| "register_all check inner (fd # fds) =
     (case handle_fd_register check inner (Register fd) of
        Some (Inr i, inner1) \<Rightarrow>
          map_option (\<lambda>(ids, inner2). (i # ids, inner2)) (register_all check inner1 fds)
      | _ \<Rightarrow> None)"

definition descriptor_at :: "DaemonOwnerInner \<Rightarrow> u64 \<Rightarrow> fd option" where
  "descriptor_at inner i = Option.bind (descriptors inner i) (\<lambda>p. map_option descriptor (heap inner p))"

lemma descriptor_at_registered:
  assumes "daemon_wf inner" "descriptors inner i = None"
  shows "descriptor_at (registered_state inner fd i) = (descriptor_at inner)(i \<mapsto> fd)"
proof
  fix j
  have "p \<noteq> next_obj inner" if "descriptors inner j = Some p" for p
  proof -
    have "p \<in> dom (heap inner)" using assms(1) that by (auto simp: daemon_wf_def table_wf_def ran_def)
    then show ?thesis using assms(1) by (auto simp: daemon_wf_def objects_wf_def)
  qed
  then show "descriptor_at (registered_state inner fd i) j = ((descriptor_at inner)(i \<mapsto> fd)) j"
    by (cases "descriptors inner j") (auto simp: descriptor_at_def registered_state_def)
qed

lemma vacant_after:
  assumes "Suc n \<le> card {j. m j = None}" "m (i :: u64) = None"
  shows "n \<le> card {j. (m(i \<mapsto> v)) j = None}"
proof -
  have "{j. (m(i \<mapsto> v)) j = None} = {j. m j = None} - {i}" by auto
  moreover have "card ({j. m j = None} - {i}) = card {j. m j = None} - 1"
    using assms(2) by (simp add: card_Diff_singleton)
  ultimately show ?thesis using assms(1) by simp
qed

text \<open>
  An owner that is not exiting accepts as many registrations as there are vacant
  identifiers, wherever its wrapping counter stands: all identifiers handed out are pairwise
  distinct, each names its own descriptor, entries that were there before keep their meaning,
  and the state stays well formed.
\<close>

lemma register_all_distinct:
  assumes "daemon_wf inner" "\<not> exit_flag inner"
    and "length fds \<le> card {i. descriptors inner i = None}"
  shows "\<exists>ids inner'. register_all (Inr ()) inner fds = Some (ids, inner') \<and> daemon_wf inner' \<and>
     distinct ids \<and> map (descriptor_at inner') ids = map Some fds \<and>
     \<not> (\<exists>i\<in>set ids. descriptors inner i \<noteq> None) \<and>
     (\<forall>i. i \<notin> set ids \<longrightarrow> descriptor_at inner' i = descriptor_at inner i)"
  using assms
proof (induction fds arbitrary: inner)
  case Nil
  then show ?case by simp
next
  case (Cons fd fds)
  have "{i. descriptors inner i = None} \<noteq> {}"
    using Cons.prems(3) by (intro notI) simp
  then obtain i n where v: "vacant_id (descriptors inner) (next_id inner) = Some (i, n)"
    using vacant_id_returns [of "descriptors inner" "next_id inner"] by force
  let ?s = "registered_state inner fd i"
  have i: "descriptors inner i = None" using vacant_id_sound [OF v] by simp
  have at: "descriptor_at ?s = (descriptor_at inner)(i \<mapsto> fd)"
    using descriptor_at_registered [OF Cons.prems(1) i] .
  have desc: "descriptors ?s = (descriptors inner)(i \<mapsto> next_obj inner)"
    by (simp add: registered_state_def)
  have "\<exists>ids inner'. register_all (Inr ()) ?s fds = Some (ids, inner') \<and> daemon_wf inner' \<and>
     distinct ids \<and> map (descriptor_at inner') ids = map Some fds \<and>
     \<not> (\<exists>i\<in>set ids. descriptors ?s i \<noteq> None) \<and>
     (\<forall>i. i \<notin> set ids \<longrightarrow> descriptor_at inner' i = descriptor_at ?s i)"
  proof (rule Cons.IH)
    show "daemon_wf ?s" using daemon_wf_registered [OF Cons.prems(1,2) i] .
    show "\<not> exit_flag ?s" using Cons.prems(2) by (simp add: registered_state_def)
    show "length fds \<le> card {j. descriptors ?s j = None}"
      unfolding desc by (rule vacant_after) (use Cons.prems(3) i in simp_all)
  qed
  then obtain ids inner' where ih: "register_all (Inr ()) ?s fds = Some (ids, inner')"
    "daemon_wf inner'" "distinct ids" "map (descriptor_at inner') ids = map Some fds"
    "\<not> (\<exists>i\<in>set ids. descriptors ?s i \<noteq> None)"
    "\<forall>i. i \<notin> set ids \<longrightarrow> descriptor_at inner' i = descriptor_at ?s i"
    by blast
  have i_new: "i \<notin> set ids" using ih(5) desc by auto
  have "register_all (Inr ()) inner (fd # fds) = Some (i # ids, inner')"
    using register_accepted [OF Cons.prems(2) v] ih(1) by simp
  moreover have "\<not> (\<exists>j\<in>set (i # ids). descriptors inner j \<noteq> None)"
    using ih(5) i desc by (auto split: if_splits)
  ultimately show ?case
    using ih i_new at by (intro exI [of _ "i # ids"] exI [of _ inner']) auto
qed

text \<open>
  The time-to-live check lets the owner exit exactly when no file is live, and an
  owner that has decided to exit registers nothing any more: the client gets an error reply, the
  received descriptor is closed, and nothing else changes. The error is the OS code EIO, which
  the client does not see as a broken pipe.
\<close>

lemma exit_excludes_registration:
  assumes "daemon_wf inner"
  shows "(is_ok (fst (try_exit inner)) \<longleftrightarrow> heap inner = Map.empty) \<and>
    (is_ok (fst (try_exit inner)) \<longrightarrow>
      (\<exists>e inner'. handle_fd_register check (snd (try_exit inner)) r = Some (e, inner') \<and>
        io_cvt e = Inl EIO \<and> kind (Os EIO) \<noteq> BrokenPipe \<and> daemon_wf inner' \<and>
        inner' = (snd (try_exit inner))\<lparr>closed_fds := closed_fds inner @ [register_fd r]\<rparr>))"
proof (intro conjI impI)
  show *: "is_ok (fst (try_exit inner)) \<longleftrightarrow> heap inner = Map.empty"
    using assms by (auto simp: try_exit_def daemon_wf_def objects_wf_def)
  assume ok: "is_ok (fst (try_exit inner))"
  then have t: "try_exit inner = (Inr (), inner\<lparr>exit_flag := True\<rparr>)"
    by (auto simp: try_exit_def split: if_splits)
  have "daemon_wf (inner\<lparr>exit_flag := True, closed_fds := closed_fds inner @ [register_fd r]\<rparr>)"
    using assms ok * by (auto simp: daemon_wf_def objects_wf_def table_wf_def)
  then show "\<exists>e inner'. handle_fd_register check (snd (try_exit inner)) r = Some (e, inner') \<and>
      io_cvt e = Inl EIO \<and> kind (Os EIO) \<noteq> BrokenPipe \<and> daemon_wf inner' \<and>
      inner' = (snd (try_exit inner))\<lparr>closed_fds := closed_fds inner @ [register_fd r]\<rparr>"
    by (simp add: t register_refused close_received_def io_cvt_def decode_error_kind_def
        error_kind_table_def)
qed

section \<open>Errors on the wire\<close>

definition kept_kinds :: "error_kind list" where
  "kept_kinds =
     [NotFound, PermissionDenied, ConnectionRefused, ConnectionReset, ConnectionAborted,
      NotConnected, AddrInUse, AddrNotAvailable, TimedOut, WouldBlock, AlreadyExists,
      InvalidInput, Deadlock, Uncategorized]"

lemma errno_of_kind_kept: "decode_error_kind (errno_of_kind k) = k \<longleftrightarrow> k \<in> set kept_kinds"
  by (cases k) (simp_all add: decode_error_kind_def error_kind_table_def kept_kinds_def)

text \<open>
  Property C33. A result crosses the wire as an error number. Values and operating-system errors
  arrive unchanged, and the client sees the kind of an error made by the owner itself exactly
  for the fourteen listed kinds; a broken pipe, for one, is not among them.
\<close>

theorem io_cvt_preserves:
  "io_cvt (Inr x :: 'a io_result) = Inr x \<and>
   io_cvt (Inl (Os n) :: 'a io_result) = Inl n \<and>
   ((\<exists>n. io_cvt (Inl e :: 'a io_result) = Inl n \<and> kind (Os n) = kind e) \<longleftrightarrow>
     (\<exists>n. e = Os n) \<or> kind e \<in> set kept_kinds) \<and>
   \<not> BrokenPipe \<in> set kept_kinds"
proof (intro conjI)
  show "(\<exists>n. io_cvt (Inl e :: 'a io_result) = Inl n \<and> kind (Os n) = kind e) \<longleftrightarrow>
     (\<exists>n. e = Os n) \<or> kind e \<in> set kept_kinds"
    by (cases e) (simp_all add: io_cvt_def errno_of_kind_kept)
qed (simp_all add: io_cvt_def kept_kinds_def)

section \<open>Lock commands\<close>

lemma LockParams_unknown:
  assumes "\<nexists>q. raw = flock_from c q"
  shows "LockParams_try_from c raw = Inl (Custom InvalidInput)"
proof (cases "LockParams_try_from c raw")
  case (Inl e)
  then show ?thesis
    by (auto simp: LockParams_try_from_def and_then_def invalid_input_Inl split: sum.splits)
next
  case (Inr q)
  then show ?thesis using LockParams_try_from_Inr [of c raw q] assms by auto
qed

text \<open>
  The two commands that do not wait reply with exactly what the kernel said: an
  error number unchanged; for setting a lock the requested parameters; for querying a lock the
  parameters that convert to the structure the kernel wrote, or EINVAL when it wrote a lock type
  or a whence value that does not exist.
\<close>

lemma simple_commands_faithful:
  assumes "consts_ok c"
  shows "set_lock_nonblocking c fc fd params k =
     (case fcntl_setlk fc fd (flock_from c params) k of
        (Inl e, k') \<Rightarrow> (Inl e, k') | (Inr _, k') \<Rightarrow> (Inr (Done params), k')) \<and>
   (fcntl_getlk fc fd (flock_from c params) k = (Inl e, k') \<longrightarrow>
      get_lock_status c fc fd params k = (Inl e, k')) \<and>
   (fcntl_getlk fc fd (flock_from c params) k = (Inr (flock_from c p), k') \<longrightarrow>
      get_lock_status c fc fd params k = (Inr (Done p), k')) \<and>
   (fcntl_getlk fc fd (flock_from c params) k = (Inr raw, k') \<longrightarrow> \<not> (\<exists>q. raw = flock_from c q) \<longrightarrow>
      get_lock_status c fc fd params k = (Inl EINVAL, k'))"
proof -
  have inverse: "LockParams_try_from c (flock_from c q) = Inr q" for q
    using libc_abi.params_roundtrip [OF libc_abi.intro [OF assms]] by simp
  have bad: "LockParams_try_from c raw = Inl (Custom InvalidInput)" if "\<nexists>q. raw = flock_from c q"
    using that by (rule LockParams_unknown)
  show ?thesis
    by (auto simp: set_lock_nonblocking_def get_lock_status_def io_cvt_def inverse bad map_ok_def Let_def
        split: sum.splits prod.splits)
qed

text \<open>A kernel in which this process is alone: every lock request is granted at once.\<close>

definition alone_fcntl :: "(fd \<times> flock) set fcntl_calls" where
  "alone_fcntl = \<lparr>fcntl_getlk = (\<lambda>fd raw k. (Inr raw, k)),
     fcntl_setlk = (\<lambda>fd raw k. (Inr (), if l_type raw = 2 then {x \<in> k. fst x \<noteq> fd} else insert (fd, raw) k)),
     fcntl_setlkw = (\<lambda>fd raw k. (Inr (), if l_type raw = 2 then {x \<in> k. fst x \<noteq> fd} else insert (fd, raw) k))\<rparr>"

abbreviation whole_file :: "LockType \<Rightarrow> LockParams" where
  "whole_file ty \<equiv> \<lparr>lock_type = ty, whence = Start, start = 0, len = 0, pid = 0\<rparr>"

text \<open>The two replies of the locking thread, and what becomes of the interrupt table.\<close>

lemma locking_thread_replies:
  assumes "block_all_signals pm t = (Inr g, t1)" "unblock_signal pm SIGUSR1 t1 = (Inr g2, t2)"
    and "interrupts owner j = None"
    and "fcntl_setlk fc fd (flock_from c lock) k = (r1, k1)"
    and "fcntl_setlkw fc fd (flock_from c lock) k1 = (r2, k2)"
  shows "\<exists>first owner' i. set_lock_blocking pm c fc h fd lock owner t k =
       Some ([first, case r2 of Inr _ \<Rightarrow> Inr (Done lock) | Inl e \<Rightarrow> Inl e], owner',
         SigSetGuard_drop pm g (SigSetGuard_drop pm g2 t2), k2) \<and>
     first = (case r1 of Inr _ \<Rightarrow> Inr (Done lock)
              | Inl e \<Rightarrow> if e = EAGAIN then Inr (Pending i) else Inl e) \<and>
     interrupts owner i = None \<and>
     interrupts owner' = (if r1 = Inl EAGAIN then (interrupts owner)(i \<mapsto> h) else interrupts owner)"
proof -
  obtain i owner1 where add: "handle_interrupt_add owner h = Some (i, owner1)"
    using interrupt_table.add_returns [OF assms(3), of h] by blast
  note entry = interrupt_table.add_entry [OF add]
  show ?thesis
  proof (cases "r1 = Inl EAGAIN")
    case True
    then show ?thesis
      using assms add entry
      by (cases r2) (auto simp: set_lock_blocking_def set_lock_try_def set_lock_wait_def io_cvt_def)
  next
    case False
    then show ?thesis
      using assms
      by (cases r1; cases r2)
        (auto simp: set_lock_blocking_def set_lock_try_def set_lock_wait_def io_cvt_def)
  qed
qed

end
