(* ===== verification/Daemon_System.thy ===== *)
theory Daemon_System
  imports Daemon
begin

text \<open>
  The owner process as a whole (\<^verbatim>\<open>src/owner.rs\<close>, lines 90 to 454): the receiving thread, the
  threads it starts for interrupts, unregistrations and blocking locks, and the main thread with
  its time-to-live check, interleaved. The critical sections are the atomic operations of
  \<open>Daemon\<close> and \<open>Tracker\<close>; every handler that may block (stopping a tracker, waiting for the last
  reference, waiting for a lock) is a sequence of steps, so other threads run in between.

  A step is an executable function of the system state. The choices that the outside makes are
  its arguments: the message received, the number of a new thread or the error of starting one,
  the outcome of a mask change, the outcomes of \<^verbatim>\<open>try_lock\<close>. A system call and the reply that
  reports it are one step; replies are recorded in \<open>sent\<close>. A panic of \<^verbatim>\<open>std::thread::spawn\<close>
  (no resources for a thread) is not modelled.
\<close>

section \<open>Data\<close>

datatype server_reply =
    ReplyUnit "errno + unit" | ReplyId "errno + u64" | ReplyLock "errno + ReplyLockCommandData"

datatype lock_stage = LockTry | LockWait | LockRelease | LockUntrack | LockExit

text \<open>The threads the receiving loop starts, each with its program position and its locals.\<close>

datatype 'b task =
    InterruptTask fd Interrupt
  | InterruptStop fd InterruptibleHandle "'b stop_result"
  | UnregisterTask fd Unregister
  | UnregisterTaken fd obj
  | UnregisterStop fd obj "'b stop_result"
  | UnregisterWait fd obj
  | UnregisterReply fd obj
  | LockTask obj exit_id fd LockParams lock_stage
  | LockAbort obj fd

datatype receiver_stage =
  RecvIdle | RecvCommand obj LockCommand fd | RecvRelease obj | RecvEnded "unit io_result"

datatype main_stage = MainWaiting | MainExited "unit io_result"

datatype ttl_event = TtlRefresh | TtlTimeout | TtlDisconnected

record ('b, 'k) owner_sys =
  shared :: DaemonOwnerInner
  receiver :: receiver_stage
  tasks :: "pthread \<rightharpoonup> 'b task"
  exits :: "exit_id \<Rightarrow> bool"
  next_exit :: exit_id
  kern :: 'k
  sent :: "(fd \<times> server_reply) list"
  ttl_queue :: bool
  main_thread :: main_stage

definition owner_start :: "'k \<Rightarrow> ('b, 'k) owner_sys" where
  "owner_start k = \<lparr>shared = DaemonOwner_new, receiver = RecvIdle, tasks = Map.empty,
     exits = (\<lambda>_. False), next_exit = 0, kern = k, sent = [], ttl_queue = False,
     main_thread = MainWaiting\<rparr>"

definition send_reply :: "fd \<Rightarrow> server_reply \<Rightarrow> ('b, 'k) owner_sys \<Rightarrow> ('b, 'k) owner_sys" where
  "send_reply reply_fd r s = s\<lparr>sent := sent s @ [(reply_fd, r)]\<rparr>"

definition set_task :: "pthread \<Rightarrow> 'b task option \<Rightarrow> ('b, 'k) owner_sys \<Rightarrow> ('b, 'k) owner_sys" where
  "set_task t v s = s\<lparr>tasks := (tasks s)(t := v)\<rparr>"

section \<open>The receiving thread\<close>

text \<open>What the loop does with a failed receive: return, or refresh the time to live and go on.\<close>

definition recv_failed :: "io_error \<Rightarrow> unit io_result option" where
  "recv_failed e =
     (if kind e = BrokenPipe then Some (Inr ())
      else if kind e = UnexpectedEof \<or> kind e = InvalidInput \<or> kind e = InvalidData then None
      else Some (Inl e))"

definition receive_error :: "io_error \<Rightarrow> ('b, 'k) owner_sys \<Rightarrow> ('b, 'k) owner_sys" where
  "receive_error e s =
     (case recv_failed e of
        Some r \<Rightarrow> s\<lparr>receiver := RecvEnded r\<rparr>
      | None \<Rightarrow> s\<lparr>ttl_queue := True\<rparr>)"

text \<open>
  Dispatch of a request; \<open>t\<close> is the number of the thread that is started for it, if any, and
  \<open>check\<close> the outcome of the SIGUSR1 check.
\<close>

fun owner_dispatch ::
    "unit io_result \<Rightarrow> pthread \<Rightarrow> Message \<Rightarrow> fd \<Rightarrow> ('b, 'k) owner_sys \<Rightarrow> ('b, 'k) owner_sys option" where
  "owner_dispatch check t (Message_Ping _) reply_fd s = Some (send_reply reply_fd (ReplyUnit (Inr ())) s)"
| "owner_dispatch check t (Message_Interrupt interrupt) reply_fd s =
     Some (set_task t (Some (InterruptTask reply_fd interrupt)) s)"
| "owner_dispatch check t (Message_RemoveInterrupt interrupt) reply_fd s =
     (case handle_interrupt_remove (shared s) interrupt of (r, owner') \<Rightarrow>
        Some (send_reply reply_fd (ReplyUnit (io_cvt r)) (s\<lparr>shared := owner'\<rparr>)))"
| "owner_dispatch check t (Message_Register register) reply_fd s =
     map_option (\<lambda>(r, owner'). send_reply reply_fd (ReplyId (io_cvt r)) (s\<lparr>shared := owner'\<rparr>))
       (handle_fd_register check (shared s) register)"
| "owner_dispatch check t (Message_Unregister unregister) reply_fd s =
     Some (set_task t (Some (UnregisterTask reply_fd unregister)) s)"
| "owner_dispatch check t (Message_LockCommand lock_command) reply_fd s =
     (case lock_lookup (shared s) (command_id lock_command) of
        (Inl e, owner') \<Rightarrow> Some (send_reply reply_fd (ReplyLock (io_cvt (Inl e))) (s\<lparr>shared := owner'\<rparr>))
      | (Inr p, owner') \<Rightarrow>
          Some (s\<lparr>shared := owner', receiver := RecvCommand p lock_command reply_fd\<rparr>))"

definition receive_request_step ::
    "unit io_result \<Rightarrow> pthread \<Rightarrow> Message \<Rightarrow> fd \<Rightarrow> ('b, 'k) owner_sys \<Rightarrow> ('b, 'k) owner_sys option" where
  "receive_request_step check t m reply_fd s =
     (if receiver s = RecvIdle \<and> tasks s t = None
      then owner_dispatch check t m reply_fd (s\<lparr>ttl_queue := True\<rparr>) else None)"

text \<open>
  The rest of \<^verbatim>\<open>handle_lock_command\<close> once the entry has been found. For a blocking request the
  closure gets its own reference. When the thread cannot be started the closure is dropped at
  once; when the tracker refuses it, the new thread drops it. In both cases no reply is sent.
\<close>

definition handle_lock_command ::
    "libc_consts \<Rightarrow> 'k fcntl_calls \<Rightarrow> errno + pthread \<Rightarrow> obj \<Rightarrow> LockCommand \<Rightarrow> fd \<Rightarrow>
     ('b, 'k) owner_sys \<Rightarrow> ('b, 'k) owner_sys option" where
  "handle_lock_command c fc os p cmd reply_fd s =
     (case heap (shared s) p of
        None \<Rightarrow> None
      | Some fd_data \<Rightarrow>
          (case command_action cmd of
             GetLockStatus \<Rightarrow>
               (case get_lock_status c fc (descriptor fd_data) (command_params cmd) (kern s) of
                  (r, k') \<Rightarrow> Some (send_reply reply_fd (ReplyLock r) (s\<lparr>kern := k', receiver := RecvRelease p\<rparr>)))
           | SetLockNonBlocking \<Rightarrow>
               (case set_lock_nonblocking c fc (descriptor fd_data) (command_params cmd) (kern s) of
                  (r, k') \<Rightarrow> Some (send_reply reply_fd (ReplyLock r) (s\<lparr>kern := k', receiver := RecvRelease p\<rparr>)))
           | SetLockBlocking \<Rightarrow>
               (case tracker_spawn os (next_exit s) (fd_tracker fd_data) of
                  (Inr (g, h), d') \<Rightarrow>
                    Some (set_task (guard_thread g)
                      (Some (LockTask p (guard_exit g) reply_fd (command_params cmd) LockTry))
                      (s\<lparr>shared := update_tracker p (\<lambda>_. d') (arc_clone p (shared s)),
                         next_exit := Suc (next_exit s), receiver := RecvRelease p\<rparr>))
                | (Inl e, _) \<Rightarrow>
                    (case os of
                       Inl _ \<Rightarrow> Some (s\<lparr>receiver := RecvRelease p\<rparr>)
                     | Inr t \<Rightarrow> Some (set_task t (Some (LockAbort p reply_fd))
                         (s\<lparr>shared := arc_clone p (shared s), receiver := RecvRelease p\<rparr>))))))"

definition command_step ::
    "libc_consts \<Rightarrow> 'k fcntl_calls \<Rightarrow> errno + pthread \<Rightarrow> ('b, 'k) owner_sys \<Rightarrow>
     ('b, 'k) owner_sys option" where
  "command_step c fc os s =
     (case receiver s of
        RecvCommand p cmd reply_fd \<Rightarrow>
          (case os of
             Inr t \<Rightarrow> if tasks s t = None then handle_lock_command c fc os p cmd reply_fd s else None
           | Inl _ \<Rightarrow> handle_lock_command c fc os p cmd reply_fd s)
      | RecvRelease p \<Rightarrow> Some (s\<lparr>shared := arc_drop p (shared s), receiver := RecvIdle\<rparr>)
      | _ \<Rightarrow> None)"

section \<open>The threads\<close>

text \<open>
  One step of thread \<open>t\<close>, with the threads it signals; \<open>None\<close> when it is blocked. The last three
  stages of a lock thread drop the closure's reference, untrack the thread and set its flag.
\<close>

definition interrupt_iter ::
    "'b backoff_ops \<Rightarrow> pthread \<Rightarrow> fd \<Rightarrow> InterruptibleHandle \<Rightarrow> 'b stop_local \<Rightarrow> ('b, 'k) owner_sys \<Rightarrow>
     pthread set \<times> ('b, 'k) owner_sys" where
  "interrupt_iter bo t reply_fd h l s =
     (case handle_stop_iter bo t h l (exits s) of
        (sigs, r) \<Rightarrow> (sigs, set_task t (Some (InterruptStop reply_fd h r)) s))"

fun handle_interrupt_step ::
    "'b backoff_ops \<Rightarrow> bool list \<Rightarrow> pthread \<Rightarrow> 'b task \<Rightarrow> ('b, 'k) owner_sys \<Rightarrow>
     (pthread set \<times> ('b, 'k) owner_sys) option" where
  "handle_interrupt_step bo tries t (InterruptTask reply_fd interrupt) s =
     (case interrupt_lookup (shared s) interrupt of
        Inl e \<Rightarrow> Some ({}, set_task t None (send_reply reply_fd (ReplyUnit (io_cvt (Inl e))) s))
      | Inr h \<Rightarrow> Some (interrupt_iter bo t reply_fd h (stop_init bo) s))"
| "handle_interrupt_step bo tries t (InterruptStop reply_fd h r) s =
     (case resume_stop bo tries r of
        Some l \<Rightarrow> Some (interrupt_iter bo t reply_fd h l s)
      | None \<Rightarrow>
          if r = Returned
          then Some ({}, set_task t None (send_reply reply_fd (ReplyUnit (io_cvt (Inr ()))) s))
          else Some ({}, set_task t None s))"
| "handle_interrupt_step bo tries t _ s = None"

definition unregister_iter ::
    "pthread \<Rightarrow> fd \<Rightarrow> obj \<Rightarrow> (pthread set \<times> 'b stop_result) \<times> RawInterruptibleTrackerData \<Rightarrow>
     ('b, 'k) owner_sys \<Rightarrow> pthread set \<times> ('b, 'k) owner_sys" where
  "unregister_iter t reply_fd p iter s =
     (case iter of ((sigs, r), d') \<Rightarrow>
        (sigs, set_task t (Some (UnregisterStop reply_fd p r))
           (s\<lparr>shared := update_tracker p (\<lambda>_. d') (shared s)\<rparr>)))"

fun handle_fd_unregister_step ::
    "'b backoff_ops \<Rightarrow> bool list \<Rightarrow> pthread \<Rightarrow> 'b task \<Rightarrow> ('b, 'k) owner_sys \<Rightarrow>
     (pthread set \<times> ('b, 'k) owner_sys) option" where
  "handle_fd_unregister_step bo tries t (UnregisterTask reply_fd unregister) s =
     (case unregister_take (shared s) unregister of
        (Inl e, owner') \<Rightarrow>
          Some ({}, set_task t None (send_reply reply_fd (ReplyUnit (io_cvt (Inl e))) (s\<lparr>shared := owner'\<rparr>)))
      | (Inr p, owner') \<Rightarrow>
          Some ({}, set_task t (Some (UnregisterTaken reply_fd p)) (s\<lparr>shared := owner'\<rparr>)))"
| "handle_fd_unregister_step bo tries t (UnregisterTaken reply_fd p) s =
     map_option (\<lambda>d. unregister_iter t reply_fd p (stop_enter bo (fd_tracker d)) s)
       (heap (shared s) p)"
| "handle_fd_unregister_step bo tries t (UnregisterStop reply_fd p r) s =
     (case resume_stop bo tries r of
        Some l \<Rightarrow> map_option (\<lambda>d. unregister_iter t reply_fd p (stop_iter bo l (fd_tracker d)) s)
          (heap (shared s) p)
      | None \<Rightarrow>
          if r = Returned then Some ({}, set_task t (Some (UnregisterWait reply_fd p)) s) else None)"
| "handle_fd_unregister_step bo tries t (UnregisterWait reply_fd p) s =
     (if unregister_may_finish (shared s) p
      then Some ({}, set_task t (Some (UnregisterReply reply_fd p))
             (s\<lparr>shared := arc_drop p (shared s)\<rparr>))
      else None)"
| "handle_fd_unregister_step bo tries t (UnregisterReply reply_fd p) s =
     Some ({}, set_task t None (send_reply reply_fd (ReplyUnit (io_cvt (Inr ()))) s))"
| "handle_fd_unregister_step bo tries t _ s = None"

fun lock_thread_step ::
    "libc_consts \<Rightarrow> 'k fcntl_calls \<Rightarrow> unit io_result \<Rightarrow> pthread \<Rightarrow> 'b task \<Rightarrow> ('b, 'k) owner_sys \<Rightarrow>
     ('b, 'k) owner_sys option" where
  "lock_thread_step c fc mask_change t (LockTask p x reply_fd lock LockTry) s =
     (case (mask_change, heap (shared s) p) of
        (Inl e, _) \<Rightarrow>
          Some (set_task t (Some (LockTask p x reply_fd lock LockRelease))
            (send_reply reply_fd (ReplyLock (io_cvt (Inl e))) s))
      | (Inr _, None) \<Rightarrow> None
      | (Inr _, Some d) \<Rightarrow>
          (case set_lock_try c fc \<lparr>handle_thread = t, handle_exit = x\<rparr> (descriptor d) lock (shared s) (kern s) of
             None \<Rightarrow> None
           | Some (r, owner', k') \<Rightarrow>
               Some (set_task t (Some (LockTask p x reply_fd lock LockWait))
                 (send_reply reply_fd (ReplyLock r) (s\<lparr>shared := owner', kern := k'\<rparr>)))))"
| "lock_thread_step c fc mask_change t (LockTask p x reply_fd lock LockWait) s =
     (case (mask_change, heap (shared s) p) of
        (Inl e, _) \<Rightarrow>
          Some (set_task t (Some (LockTask p x reply_fd lock LockRelease))
            (send_reply reply_fd (ReplyLock (io_cvt (Inl e))) s))
      | (Inr _, None) \<Rightarrow> None
      | (Inr _, Some d) \<Rightarrow>
          (case set_lock_wait c fc (descriptor d) lock (kern s) of
             (r, k') \<Rightarrow>
               Some (set_task t (Some (LockTask p x reply_fd lock LockRelease))
                 (send_reply reply_fd (ReplyLock r) (s\<lparr>kern := k'\<rparr>)))))"
| "lock_thread_step c fc mask_change t (LockTask p x reply_fd lock LockRelease) s =
     Some (set_task t (Some (LockTask p x reply_fd lock LockUntrack))
       (s\<lparr>shared := arc_drop p (shared s)\<rparr>))"
| "lock_thread_step c fc mask_change t (LockTask p x reply_fd lock LockUntrack) s =
     Some (set_task t (Some (LockTask p x reply_fd lock LockExit))
       (s\<lparr>shared := update_tracker p
            (InterruptibleGuard_drop_untrack \<lparr>guard_thread = t, guard_exit = x\<rparr>) (shared s)\<rparr>))"
| "lock_thread_step c fc mask_change t (LockTask p x reply_fd lock LockExit) s =
     Some (set_task t None
       (s\<lparr>exits := InterruptibleGuard_drop_exit \<lparr>guard_thread = t, guard_exit = x\<rparr> (exits s)\<rparr>))"
| "lock_thread_step c fc mask_change t (LockAbort p reply_fd) s =
     Some (set_task t None (s\<lparr>shared := arc_drop p (shared s)\<rparr>))"
| "lock_thread_step c fc mask_change t _ s = None"

section \<open>The main thread\<close>

text \<open>An iteration of \<^verbatim>\<open>DaemonOwner::start\<close>; the channel holds at most one refresh.\<close>

fun main_step :: "ttl_event \<Rightarrow> ('b, 'k) owner_sys \<Rightarrow> ('b, 'k) owner_sys option" where
  "main_step TtlRefresh s =
     (if main_thread s = MainWaiting \<and> ttl_queue s then Some (s\<lparr>ttl_queue := False\<rparr>) else None)"
| "main_step TtlDisconnected s =
     (case receiver s of
        RecvEnded r \<Rightarrow>
          if main_thread s = MainWaiting \<and> \<not> ttl_queue s then Some (s\<lparr>main_thread := MainExited r\<rparr>) else None
      | _ \<Rightarrow> None)"
| "main_step TtlTimeout s =
     (if main_thread s = MainWaiting \<and> \<not> ttl_queue s
      then (case receiver s of
              RecvEnded r \<Rightarrow> Some (s\<lparr>main_thread := MainExited r\<rparr>)
            | _ \<Rightarrow>
                (case try_exit (shared s) of
                   (Inr _, owner') \<Rightarrow> Some (s\<lparr>shared := owner', main_thread := MainExited (Inr ())\<rparr>)
                 | (Inl _, owner') \<Rightarrow> Some (s\<lparr>shared := owner'\<rparr>)))
      else None)"

section \<open>The system\<close>

inductive owner_step ::
    "'b backoff_ops \<Rightarrow> libc_consts \<Rightarrow> 'k fcntl_calls \<Rightarrow> ('b, 'k) owner_sys \<Rightarrow> ('b, 'k) owner_sys \<Rightarrow> bool"
  for bo :: "'b backoff_ops" and c :: libc_consts and fc :: "'k fcntl_calls" where
  os_receive: "receive_request_step check t m reply_fd s = Some s' \<Longrightarrow> owner_step bo c fc s s'"
| os_receive_error: "receiver s = RecvIdle \<Longrightarrow> owner_step bo c fc s (receive_error e s)"
| os_command: "command_step c fc os s = Some s' \<Longrightarrow> owner_step bo c fc s s'"
| os_interrupt: "tasks s t = Some k \<Longrightarrow> handle_interrupt_step bo tries t k s = Some (sigs, s') \<Longrightarrow>
    owner_step bo c fc s s'"
| os_unregister: "tasks s t = Some k \<Longrightarrow> handle_fd_unregister_step bo tries t k s = Some (sigs, s') \<Longrightarrow>
    owner_step bo c fc s s'"
| os_lock: "tasks s t = Some k \<Longrightarrow> lock_thread_step c fc mask_change t k s = Some s' \<Longrightarrow>
    owner_step bo c fc s s'"
| os_main: "main_step ev s = Some s' \<Longrightarrow> owner_step bo c fc s s'"

end
