(* ===== verification/Daemon_Invariant.thy ===== *)
theory Daemon_Invariant
  imports Daemon_System
begin

text \<open>
  The invariant of the owner process: reference counts are exact, trackers hold exactly the
  running lock threads, an object stays live until its unregistration has stopped all of them,
  and exit flags are set exactly by threads that have ended. Every step of the system keeps it;
  the interpretation of \<open>transition_system\<close> at the end makes it available for all runs.
\<close>

section \<open>Invariant\<close>

text \<open>Which object a thread holds a reference to, is tracked on, and is about to unregister.\<close>

fun holds :: "'b task \<Rightarrow> obj option" where
  "holds (UnregisterTaken _ p) = Some p"
| "holds (UnregisterStop _ p _) = Some p"
| "holds (UnregisterWait _ p) = Some p"
| "holds (LockTask p _ _ _ stage) = (if stage \<in> {LockTry, LockWait, LockRelease} then Some p else None)"
| "holds (LockAbort p _) = Some p"
| "holds _ = None"

fun tracked :: "'b task \<Rightarrow> obj option" where
  "tracked (LockTask p _ _ _ stage) = (if stage = LockExit then None else Some p)"
| "tracked _ = None"

fun unregistering :: "'b task \<Rightarrow> obj option" where
  "unregistering (UnregisterTaken _ p) = Some p"
| "unregistering (UnregisterStop _ p _) = Some p"
| "unregistering (UnregisterWait _ p) = Some p"
| "unregistering _ = None"

fun stopping :: "'b task \<Rightarrow> obj option" where
  "stopping (UnregisterStop _ p _) = Some p"
| "stopping (UnregisterWait _ p) = Some p"
| "stopping _ = None"

fun stopped :: "'b task \<Rightarrow> obj option" where
  "stopped (UnregisterStop _ p r) = (if r = Returned then Some p else None)"
| "stopped (UnregisterWait _ p) = Some p"
| "stopped _ = None"

fun unregistered :: "'b task \<Rightarrow> obj option" where
  "unregistered (UnregisterReply _ p) = Some p"
| "unregistered _ = None"

fun recv_holds :: "receiver_stage \<Rightarrow> obj option" where
  "recv_holds (RecvCommand p _ _) = Some p"
| "recv_holds (RecvRelease p) = Some p"
| "recv_holds _ = None"

definition with_task :: "('b task \<Rightarrow> obj option) \<Rightarrow> (pthread \<rightharpoonup> 'b task) \<Rightarrow> obj \<Rightarrow> pthread set" where
  "with_task f T p = {t. Option.bind (T t) f = Some p}"

text \<open>Every strong count is the number of references there are.\<close>

definition refs_ok :: "DaemonOwnerInner \<Rightarrow> (pthread \<rightharpoonup> 'b task) \<Rightarrow> receiver_stage \<Rightarrow> bool" where
  "refs_ok D T R \<longleftrightarrow>
     (\<forall>p. arcs D p = of_bool (p \<in> ran (descriptors D)) + card (with_task holds T p) +
           of_bool (recv_holds R = Some p))"

text \<open>
  A tracker holds exactly the lock threads of its object, which is live as long as there is one;
  an object that is live is in the table or being unregistered; a tracker that is being stopped
  starts no threads, and one whose stopping has returned has none; an object whose
  unregistration is about to be acknowledged is gone.
\<close>

definition trackers_ok :: "DaemonOwnerInner \<Rightarrow> (pthread \<rightharpoonup> 'b task) \<Rightarrow> bool" where
  "trackers_ok D T \<longleftrightarrow>
     (\<forall>p d. heap D p = Some d \<longrightarrow> threads (fd_tracker d) = with_task tracked T p) \<and>
     (\<forall>p. with_task tracked T p \<noteq> {} \<longrightarrow> p \<in> dom (heap D))"

definition unregister_ok :: "DaemonOwnerInner \<Rightarrow> (pthread \<rightharpoonup> 'b task) \<Rightarrow> bool" where
  "unregister_ok D T \<longleftrightarrow>
     (\<forall>p. p \<in> dom (heap D) \<longrightarrow> p \<in> ran (descriptors D) \<or> with_task unregistering T p \<noteq> {}) \<and>
     (\<forall>p d. heap D p = Some d \<longrightarrow> with_task stopping T p \<noteq> {} \<longrightarrow> \<not> can_spawn (fd_tracker d)) \<and>
     (\<forall>p d. heap D p = Some d \<longrightarrow> with_task stopped T p \<noteq> {} \<longrightarrow> threads (fd_tracker d) = {}) \<and>
     (\<forall>p. with_task unregistered T p \<noteq> {} \<longrightarrow> heap D p = None \<and> p < next_obj D)"

definition sys_inv :: "DaemonOwnerInner \<Rightarrow> (pthread \<rightharpoonup> 'b task) \<Rightarrow> receiver_stage \<Rightarrow> bool" where
  "sys_inv D T R \<longleftrightarrow>
     finite (dom T) \<and> objects_wf D \<and> table_wf D \<and> refs_ok D T R \<and> trackers_ok D T \<and> unregister_ok D T"

subsection \<open>Tasks\<close>

lemma with_task_upd:
  "with_task f (T(t := v)) p =
     (if Option.bind v f = Some p then insert t (with_task f T p) else with_task f T p - {t})"
  by (auto simp: with_task_def)

lemma with_task_iff: "t \<in> with_task f T p \<longleftrightarrow> Option.bind (T t) f = Some p"
  by (simp add: with_task_def)

lemma with_task_finite: "finite (dom T) \<Longrightarrow> finite (with_task f T p)"
  by (rule finite_subset [of _ "dom T"]) (auto simp: with_task_def bind_eq_Some_conv)

lemma with_task_same: "Option.bind v f = Option.bind (T t) f \<Longrightarrow> with_task f (T(t := v)) = with_task f T"
  by (auto simp: with_task_def fun_eq_iff)

lemma with_task_card:
  assumes "finite (dom T)"
  shows "card (with_task f (T(t := v)) p) + of_bool (Option.bind (T t) f = Some p) =
         card (with_task f T p) + of_bool (Option.bind v f = Some p)"
proof -
  note fin = with_task_finite [OF assms, of f p]
  show ?thesis
    using fin card_Suc_Diff1 [OF fin, of t]
    by (cases "Option.bind (T t) f = Some p"; cases "Option.bind v f = Some p")
      (auto simp: with_task_upd with_task_iff insert_absorb)
qed

text \<open>A thread that holds no new object and is at no new place of interest may move freely.\<close>

definition same_view :: "'b task option \<Rightarrow> 'b task option \<Rightarrow> bool" where
  "same_view v w \<longleftrightarrow>
     Option.bind v holds = Option.bind w holds \<and> Option.bind v tracked = Option.bind w tracked \<and>
     Option.bind v unregistering = Option.bind w unregistering \<and>
     Option.bind v stopping = Option.bind w stopping \<and> Option.bind v stopped = Option.bind w stopped"

lemma sys_inv_same_view:
  assumes "sys_inv D T R" "same_view v (T t)" "Option.bind v unregistered = None"
  shows "sys_inv D (T(t := v)) R"
proof -
  have same: "with_task holds (T(t := v)) = with_task holds T" "with_task tracked (T(t := v)) = with_task tracked T"
      "with_task unregistering (T(t := v)) = with_task unregistering T"
      "with_task stopping (T(t := v)) = with_task stopping T" "with_task stopped (T(t := v)) = with_task stopped T"
    using assms(2) by (simp_all add: same_view_def with_task_same)
  have "with_task unregistered (T(t := v)) p \<subseteq> with_task unregistered T p" for p
    using assms(3) by (auto simp: with_task_upd)
  then have "with_task unregistered (T(t := v)) p \<noteq> {} \<Longrightarrow> with_task unregistered T p \<noteq> {}" for p
    by fast
  then have "unregister_ok D (T(t := v))"
    using assms(1) by (simp add: sys_inv_def unregister_ok_def same)
  moreover have "refs_ok D (T(t := v)) R" "trackers_ok D (T(t := v))"
    using assms(1) by (simp_all add: sys_inv_def refs_ok_def trackers_ok_def same)
  ultimately show ?thesis using assms(1) by (simp add: sys_inv_def)
qed

subsection \<open>References\<close>

lemma objects_wf_cong:
  "heap D' = heap D \<Longrightarrow> arcs D' = arcs D \<Longrightarrow> exit_readers D' = exit_readers D \<Longrightarrow>
   next_obj D' = next_obj D \<Longrightarrow> exit_flag D' = exit_flag D \<Longrightarrow> objects_wf D' = objects_wf D"
  by (simp add: objects_wf_def)

lemma table_wf_cong:
  "dom (heap D') = dom (heap D) \<Longrightarrow> descriptors D' = descriptors D \<Longrightarrow> table_wf D' = table_wf D"
  by (simp add: table_wf_def)

lemma refs_ok_cong:
  "arcs D' = arcs D \<Longrightarrow> descriptors D' = descriptors D \<Longrightarrow> with_task holds T' = with_task holds T \<Longrightarrow>
   recv_holds R' = recv_holds R \<Longrightarrow> refs_ok D' T' R' = refs_ok D T R"
  by (simp add: refs_ok_def)

lemma trackers_ok_cong:
  "heap D' = heap D \<Longrightarrow> with_task tracked T' = with_task tracked T \<Longrightarrow> trackers_ok D' T' = trackers_ok D T"
  by (simp add: trackers_ok_def)

lemma unregister_ok_cong:
  "heap D' = heap D \<Longrightarrow> descriptors D' = descriptors D \<Longrightarrow> next_obj D' = next_obj D \<Longrightarrow>
   with_task unregistering T' = with_task unregistering T \<Longrightarrow> with_task stopping T' = with_task stopping T \<Longrightarrow>
   with_task stopped T' = with_task stopped T \<Longrightarrow> with_task unregistered T' = with_task unregistered T \<Longrightarrow>
   unregister_ok D' T' = unregister_ok D T"
  by (simp add: unregister_ok_def)

lemma sys_inv_frame:
  assumes "sys_inv D T R" "heap D' = heap D" "arcs D' = arcs D" "descriptors D' = descriptors D"
    "exit_readers D' = exit_readers D" "next_obj D' = next_obj D" "exit_flag D' = exit_flag D"
  shows "sys_inv D' T R"
  using assms(1) objects_wf_cong [of D' D] table_wf_cong [of D' D] refs_ok_cong [of D' D T T R R]
    trackers_ok_cong [of D' D T T] unregister_ok_cong [of D' D T T] assms(2-)
  by (simp add: sys_inv_def)

lemma sys_inv_receiver:
  "sys_inv D T R \<Longrightarrow> recv_holds R' = recv_holds R \<Longrightarrow> sys_inv D T R'"
  by (simp add: sys_inv_def refs_ok_def)

lemma sys_inv_count:
  "sys_inv D T R \<Longrightarrow> arcs D q = of_bool (q \<in> ran (descriptors D)) + card (with_task holds T q) +
     of_bool (recv_holds R = Some q)"
  by (simp add: sys_inv_def refs_ok_def)

lemma unregistering_holds: "unregistering k = Some p \<Longrightarrow> holds k = Some p"
  by (cases k) auto

lemma referenced_alive:
  assumes "sys_inv D T R"
    and "p \<in> ran (descriptors D) \<or> Option.bind (T t) holds = Some p \<or> recv_holds R = Some p"
  shows "\<exists>d. heap D p = Some d"
proof -
  have "0 < card (with_task holds T p)" if "Option.bind (T t) holds = Some p"
    using that with_task_finite [of T holds p] assms(1)
    by (auto simp: sys_inv_def card_gt_0_iff with_task_def)
  then have "0 < arcs D p"
    using assms by (auto simp: sys_inv_def refs_ok_def)
  then show ?thesis using assms(1) by (auto simp: sys_inv_def objects_wf_def)
qed

text \<open>A lock thread or the receiver never holds the last reference.\<close>

lemma holder_not_last:
  assumes inv: "sys_inv D T R" and t: "Option.bind (T t) holds = Some p" "Option.bind (T t) unregistering = None"
  shows "2 \<le> arcs D p"
proof -
  have fin: "finite (with_task holds T p)" using inv by (simp add: sys_inv_def with_task_finite)
  have "p \<in> dom (heap D)" using referenced_alive [OF inv, of p t] t by auto
  then consider "p \<in> ran (descriptors D)" | u where "Option.bind (T u) unregistering = Some p"
    using inv by (auto simp: sys_inv_def unregister_ok_def with_task_def)
  then show ?thesis
  proof cases
    case 1
    have "0 < card (with_task holds T p)" using fin t by (auto simp: card_gt_0_iff with_task_def)
    then show ?thesis using inv 1 by (simp add: sys_inv_def refs_ok_def)
  next
    case 2
    then have "u \<noteq> t" "{u, t} \<subseteq> with_task holds T p"
      using t by (auto simp: with_task_def bind_eq_Some_conv intro: unregistering_holds)
    then have "2 \<le> card (with_task holds T p)"
      using card_mono [OF fin, of "{u, t}"] by simp
    then show ?thesis using inv by (simp add: sys_inv_def refs_ok_def)
  qed
qed

lemma receiver_not_last:
  assumes inv: "sys_inv D T R" and r: "recv_holds R = Some p"
  shows "2 \<le> arcs D p"
proof -
  have fin: "finite (with_task holds T p)" using inv by (simp add: sys_inv_def with_task_finite)
  have "p \<in> dom (heap D)" using referenced_alive [OF inv] r by auto
  then consider "p \<in> ran (descriptors D)" | u where "Option.bind (T u) unregistering = Some p"
    using inv by (auto simp: sys_inv_def unregister_ok_def with_task_def)
  then show ?thesis
  proof cases
    case 1
    then show ?thesis using inv r by (simp add: sys_inv_def refs_ok_def)
  next
    case 2
    then have "with_task holds T p \<noteq> {}"
      by (auto simp: with_task_def bind_eq_Some_conv intro: unregistering_holds)
    then have "0 < card (with_task holds T p)" using fin by (simp add: card_gt_0_iff)
    then show ?thesis using inv r by (simp add: sys_inv_def refs_ok_def)
  qed
qed

lemma arc_drop_not_last:
  "2 \<le> arcs D p \<Longrightarrow> heap D p = Some d \<Longrightarrow> arc_drop p D = D\<lparr>arcs := (arcs D)(p := arcs D p - 1)\<rparr>"
  by (simp add: arc_drop_def)

text \<open>Changes of the strong counts that keep every count positive.\<close>

lemma sys_inv_counts:
  assumes inv: "sys_inv D T R" and fin: "finite (dom T')"
    and pos: "\<And>q. 0 < A q \<longleftrightarrow> 0 < arcs D q" and refs: "refs_ok (D\<lparr>arcs := A\<rparr>) T' R'"
    and same: "with_task tracked T' = with_task tracked T" "with_task unregistering T' = with_task unregistering T"
      "with_task stopping T' = with_task stopping T" "with_task stopped T' = with_task stopped T"
      "with_task unregistered T' = with_task unregistered T"
  shows "sys_inv (D\<lparr>arcs := A\<rparr>) T' R'"
proof -
  have "objects_wf (D\<lparr>arcs := A\<rparr>)" "table_wf (D\<lparr>arcs := A\<rparr>)"
    using inv pos by (simp_all add: sys_inv_def objects_wf_def table_wf_def)
  moreover have "trackers_ok (D\<lparr>arcs := A\<rparr>) T'" "unregister_ok (D\<lparr>arcs := A\<rparr>) T'"
    using inv trackers_ok_cong [of "D\<lparr>arcs := A\<rparr>" D T' T] unregister_ok_cong [of "D\<lparr>arcs := A\<rparr>" D T' T] same
    by (simp_all add: sys_inv_def)
  ultimately show ?thesis using fin refs by (simp add: sys_inv_def)
qed

lemma sys_inv_task_drop:
  assumes inv: "sys_inv D T R" and t: "Option.bind (T t) holds = Some p" "Option.bind (T t) unregistering = None"
    and v: "Option.bind v holds = None" "Option.bind v tracked = Option.bind (T t) tracked"
      "Option.bind v unregistering = None" "Option.bind v stopping = Option.bind (T t) stopping"
      "Option.bind v stopped = Option.bind (T t) stopped" "Option.bind v unregistered = Option.bind (T t) unregistered"
  shows "sys_inv (arc_drop p D) (T(t := v)) R"
proof -
  have two: "2 \<le> arcs D p" using holder_not_last [OF inv t] .
  obtain d where d: "heap D p = Some d" using referenced_alive [OF inv, of p t] t by blast
  have fin: "finite (dom T)" and refs: "refs_ok D T R" using inv by (simp_all add: sys_inv_def)
  have "refs_ok (D\<lparr>arcs := (arcs D)(p := arcs D p - 1)\<rparr>) (T(t := v)) R"
    unfolding refs_ok_def
  proof
    fix q
    show "arcs (D\<lparr>arcs := (arcs D)(p := arcs D p - 1)\<rparr>) q =
        of_bool (q \<in> ran (descriptors (D\<lparr>arcs := (arcs D)(p := arcs D p - 1)\<rparr>))) +
        card (with_task holds (T(t := v)) q) + of_bool (recv_holds R = Some q)"
      using refs two with_task_card [OF fin, of holds t v q] t(1) v(1)
      by (cases "q = p") (auto simp: refs_ok_def)
  qed
  then show ?thesis
    unfolding arc_drop_not_last [OF two d]
    by (intro sys_inv_counts [OF inv]) (use two fin v t in \<open>auto simp: with_task_same\<close>)
qed

lemma sys_inv_receiver_drop:
  assumes inv: "sys_inv D T R" and r: "recv_holds R = Some p" and r': "recv_holds R' = None"
  shows "sys_inv (arc_drop p D) T R'"
proof -
  have two: "2 \<le> arcs D p" using receiver_not_last [OF inv r] .
  obtain d where d: "heap D p = Some d" using referenced_alive [OF inv] r by blast
  have "refs_ok D T R" "finite (dom T)" using inv by (simp_all add: sys_inv_def)
  then have "refs_ok (D\<lparr>arcs := (arcs D)(p := arcs D p - 1)\<rparr>) T R'"
    using two r r' by (auto simp: refs_ok_def)
  then show ?thesis
    unfolding arc_drop_not_last [OF two d]
    by (intro sys_inv_counts [OF inv]) (use two \<open>finite (dom T)\<close> in auto)
qed

lemma sys_inv_receiver_clone:
  assumes inv: "sys_inv D T R" and p: "p \<in> ran (descriptors D)"
    and r: "recv_holds R = None" and r': "recv_holds R' = Some p"
  shows "sys_inv (arc_clone p D) T R'"
proof -
  have "refs_ok D T R" "finite (dom T)" using inv by (simp_all add: sys_inv_def)
  then have "refs_ok (D\<lparr>arcs := (arcs D)(p := Suc (arcs D p))\<rparr>) T R'" "0 < arcs D p"
    using p r r' by (auto simp: refs_ok_def)
  then show ?thesis
    unfolding arc_clone_def
    by (intro sys_inv_counts [OF inv]) (use \<open>finite (dom T)\<close> in auto)
qed

subsection \<open>Unregistering\<close>

lemma inj_on_map_remove: "inj_on m (dom m) \<Longrightarrow> inj_on (m(i := None)) (dom (m(i := None)))"
  by (auto simp: inj_on_def)

lemma ran_map_remove:
  assumes "inj_on m (dom m)" "m i = Some p"
  shows "ran (m(i := None)) = ran m - {p}"
proof (intro equalityI subsetI)
  fix q assume "q \<in> ran (m(i := None))"
  then obtain j where j: "j \<noteq> i" "m j = Some q" by (auto simp: ran_def split: if_splits)
  moreover have "q \<noteq> p"
  proof
    assume "q = p"
    then have "m j = m i" using j assms(2) by simp
    then show False using inj_onD [OF assms(1), of j i] j assms(2) by (simp add: domI)
  qed
  ultimately show "q \<in> ran m - {p}" by (auto simp: ran_def)
next
  fix q assume "q \<in> ran m - {p}"
  then obtain j where "m j = Some q" "q \<noteq> p" by (auto simp: ran_def)
  then have "(m(i := None)) j = Some q" using assms(2) by auto
  then show "q \<in> ran (m(i := None))" by (rule ranI)
qed

lemma sys_inv_take:
  assumes inv: "sys_inv D T R" and i: "descriptors D i = Some p" and t: "T t = Some (UnregisterTask f u)"
  shows "sys_inv (D\<lparr>descriptors := (descriptors D)(i := None)\<rparr>) (T(t \<mapsto> UnregisterTaken f p)) R"
    (is "sys_inv ?D ?T R")
proof -
  have fin: "finite (dom T)" and tab: "table_wf D" using inv by (simp_all add: sys_inv_def)
  have ran: "q \<in> ran (descriptors ?D) \<longleftrightarrow> q \<in> ran (descriptors D) \<and> q \<noteq> p" for q
    using tab i ran_map_remove [of "descriptors D" i p] by (simp add: table_wf_def)
  have p: "p \<in> ran (descriptors D)" using i by (auto simp: ran_def)
  have "refs_ok ?D ?T R"
    unfolding refs_ok_def
  proof
    fix q
    have "card (with_task holds ?T q) = card (with_task holds T q) + of_bool (p = q)"
      using with_task_card [OF fin, of holds t "Some (UnregisterTaken f p)" q] t by simp
    then show "arcs ?D q = of_bool (q \<in> ran (descriptors ?D)) + card (with_task holds ?T q) +
        of_bool (recv_holds R = Some q)"
      unfolding ran using sys_inv_count [OF inv, of q] p by (cases "q = p") simp_all
  qed
  moreover have "inj_on (descriptors ?D) (dom (descriptors ?D))"
    using tab inj_on_map_remove [of "descriptors D" i] by (simp add: table_wf_def)
  then have "table_wf ?D" using tab ran by (auto simp: table_wf_def)
  moreover have "objects_wf ?D" using inv objects_wf_cong [of ?D D] by (simp add: sys_inv_def)
  moreover have "trackers_ok ?D ?T"
    using inv trackers_ok_cong [of ?D D ?T T] t by (simp add: sys_inv_def with_task_same)
  moreover have "unregister_ok ?D ?T"
  proof -
    have "with_task unregistering ?T q = (if p = q then insert t else (\<lambda>A. A)) (with_task unregistering T q)" for q
      using t with_task_iff [of t unregistering T q] by (simp add: with_task_upd)
    then have "q \<in> ran (descriptors ?D) \<or> with_task unregistering ?T q \<noteq> {}" if "q \<in> dom (heap D)" for q
      using inv that ran [of q] by (cases "p = q") (simp_all add: sys_inv_def unregister_ok_def)
    moreover have "with_task stopping ?T = with_task stopping T" "with_task stopped ?T = with_task stopped T"
        "with_task unregistered ?T = with_task unregistered T"
      using t by (simp_all add: with_task_same)
    ultimately show ?thesis using inv by (simp add: sys_inv_def unregister_ok_def)
  qed
  ultimately show ?thesis using fin by (simp add: sys_inv_def)
qed

text \<open>Changes of a tracker.\<close>

lemma update_tracker_heap:
  "heap D p = Some d \<Longrightarrow> update_tracker p f D = D\<lparr>heap := (heap D)(p \<mapsto> d\<lparr>fd_tracker := f (fd_tracker d)\<rparr>)\<rparr>"
  by (simp add: update_tracker_def)

lemma sys_inv_tracker:
  assumes inv: "sys_inv D T R" and d: "heap D p = Some d" and fin: "finite (dom T')"
    and holds: "with_task holds T' = with_task holds T" and unreg: "with_task unregistering T' = with_task unregistering T"
    and other: "\<And>q. q \<noteq> p \<Longrightarrow> with_task tracked T' q = with_task tracked T q \<and>
        with_task stopping T' q = with_task stopping T q \<and> with_task stopped T' q = with_task stopped T q"
    and gone: "with_task unregistered T' = with_task unregistered T"
    and this_threads: "threads d' = with_task tracked T' p"
    and this_stop: "with_task stopping T' p \<noteq> {} \<Longrightarrow> \<not> can_spawn d'"
    and this_stopped: "with_task stopped T' p \<noteq> {} \<Longrightarrow> threads d' = {}"
  shows "sys_inv (update_tracker p (\<lambda>_. d') D) T' R"
proof -
  let ?D = "D\<lparr>heap := (heap D)(p \<mapsto> d\<lparr>fd_tracker := d'\<rparr>)\<rparr>"
  have D: "update_tracker p (\<lambda>_. d') D = ?D" using d by (simp add: update_tracker_heap)
  have dom: "dom (heap ?D) = dom (heap D)" using d by auto
  have "objects_wf ?D"
    using inv d by (auto simp: sys_inv_def objects_wf_def insert_absorb domI)
  moreover have "table_wf ?D" using inv table_wf_cong [of ?D D] dom by (simp add: sys_inv_def)
  moreover have "refs_ok ?D T' R" using inv refs_ok_cong [of ?D D T' T R R] holds by (simp add: sys_inv_def)
  moreover have "trackers_ok ?D T'"
    unfolding trackers_ok_def
  proof (intro conjI allI impI)
    fix q e assume "heap ?D q = Some e"
    then show "threads (fd_tracker e) = with_task tracked T' q"
      using inv other [of q] this_threads by (auto simp: sys_inv_def trackers_ok_def split: if_splits)
  next
    fix q assume "with_task tracked T' q \<noteq> {}"
    then show "q \<in> dom (heap ?D)"
      using inv other [of q] by (cases "q = p") (auto simp: sys_inv_def trackers_ok_def)
  qed
  moreover have "unregister_ok ?D T'"
  proof -
    have "\<not> can_spawn (fd_tracker e)" if "heap ?D q = Some e" "with_task stopping T' q \<noteq> {}" for q e
      using inv other [of q] this_stop that by (auto simp: sys_inv_def unregister_ok_def split: if_splits)
    moreover have "threads (fd_tracker e) = {}" if "heap ?D q = Some e" "with_task stopped T' q \<noteq> {}" for q e
      using inv other [of q] this_stopped that by (auto simp: sys_inv_def unregister_ok_def split: if_splits)
    moreover have "heap ?D q = None \<and> q < next_obj ?D" if "with_task unregistered T' q \<noteq> {}" for q
      using inv gone d that by (auto simp: sys_inv_def unregister_ok_def)
    ultimately show ?thesis using inv unreg dom by (simp add: sys_inv_def unregister_ok_def)
  qed
  ultimately show ?thesis using fin by (simp add: sys_inv_def D)
qed

lemma unregistering_only:
  "unregistering k = Some p \<Longrightarrow> tracked k = None \<and> unregistered k = None \<and>
     stopping k \<in> {None, Some p} \<and> stopped k \<in> {None, Some p}"
  by (cases k) auto

lemma sys_inv_stop:
  assumes inv: "sys_inv D T R" and t: "T t = Some k" "unregistering k = Some p" and d: "heap D p = Some d"
    and d': "threads d' = threads (fd_tracker d)" "\<not> can_spawn d'" "r = Returned \<Longrightarrow> threads d' = {}"
  shows "sys_inv (update_tracker p (\<lambda>_. d') D) (T(t \<mapsto> UnregisterStop f p r)) R"
proof (rule sys_inv_tracker [OF inv d])
  let ?T = "T(t \<mapsto> UnregisterStop f p r)"
  note k = unregistering_only [OF t(2)] unregistering_holds [OF t(2)]
  show "finite (dom ?T)" using inv by (simp add: sys_inv_def)
  show "with_task holds ?T = with_task holds T" "with_task unregistering ?T = with_task unregistering T"
    "with_task unregistered ?T = with_task unregistered T"
    using t k by (simp_all add: with_task_same)
  show "with_task tracked ?T q = with_task tracked T q \<and> with_task stopping ?T q = with_task stopping T q \<and>
      with_task stopped ?T q = with_task stopped T q" if "q \<noteq> p" for q
    using that t k with_task_iff [of t stopping T q] with_task_iff [of t stopped T q]
    by (auto simp: with_task_same with_task_upd)
  show "threads d' = with_task tracked ?T p"
    using inv d d'(1) t k by (simp add: sys_inv_def trackers_ok_def with_task_same)
  show "\<not> can_spawn d'" by (rule d'(2))
  assume "with_task stopped ?T p \<noteq> {}"
  then consider "r = Returned" | "with_task stopped T p \<noteq> {}"
    by (auto simp: with_task_upd split: if_splits)
  then show "threads d' = {}"
    by cases (use inv d d' in \<open>auto simp: sys_inv_def unregister_ok_def\<close>)
qed

lemma sys_inv_finish:
  assumes inv: "sys_inv D T R" and t: "T t = Some (UnregisterWait f p)" and last: "arcs D p = 1"
  shows "sys_inv (arc_drop p D) (T(t \<mapsto> UnregisterReply f p)) R"
proof -
  let ?T = "T(t \<mapsto> UnregisterReply f p)"
  obtain d where d: "heap D p = Some d" using referenced_alive [OF inv, of p t] t by auto
  let ?D = "arc_drop p D"
  have fin: "finite (dom T)" using inv by (simp add: sys_inv_def)
  have card: "card (with_task holds ?T q) + of_bool (p = q) = card (with_task holds T q)" for q
    using with_task_card [OF fin, of holds t "Some (UnregisterReply f p)" q] t by simp
  have only: "p \<notin> ran (descriptors D)" "recv_holds R \<noteq> Some p" "card (with_task holds ?T p) = 0"
    using sys_inv_count [OF inv, of p] card [of p] last by (auto split: if_splits)
  have none: "with_task tracked T p = {}"
  proof -
    have "with_task stopped T p \<noteq> {}" using t with_task_iff [of t stopped T p] by auto
    then have "threads (fd_tracker d) = {}" using inv d by (simp add: sys_inv_def unregister_ok_def)
    then show ?thesis using inv d by (simp add: sys_inv_def trackers_ok_def)
  qed
  have D: "heap ?D = (heap D)(p := None)" "arcs ?D = (arcs D)(p := 0)" "descriptors ?D = descriptors D"
      "next_obj ?D = next_obj D"
    using d last by (simp_all add: arc_drop_last)
  have "objects_wf ?D" using inv by (simp add: sys_inv_def objects_wf_drop)
  moreover have "table_wf ?D" using inv only(1) by (auto simp: sys_inv_def table_wf_def D)
  moreover have "refs_ok ?D ?T R"
    unfolding refs_ok_def
  proof
    fix q
    show "arcs ?D q = of_bool (q \<in> ran (descriptors ?D)) + card (with_task holds ?T q) + of_bool (recv_holds R = Some q)"
      using sys_inv_count [OF inv, of q] card [of q] only by (cases "q = p") (simp_all add: D)
  qed
  moreover have same: "with_task tracked ?T = with_task tracked T"
    using t by (simp add: with_task_same)
  then have "trackers_ok ?D ?T"
    using inv none by (auto simp: sys_inv_def trackers_ok_def D)
  moreover have sub: "with_task g ?T q = with_task g T q" if "q \<noteq> p" "g \<in> {unregistering, stopping, stopped, unregistered}" for g q
    using that t with_task_iff [of t g T q] by (auto simp: with_task_upd)
  have "unregister_ok ?D ?T"
  proof -
    have "q \<noteq> p" if "q \<in> dom (heap ?D)" for q using that by (auto simp: D)
    then show ?thesis
      using inv sub d unfolding sys_inv_def unregister_ok_def D
      by (auto simp: objects_wf_def split: if_splits)
  qed
  ultimately show ?thesis using fin by (simp add: sys_inv_def)
qed

subsection \<open>Lock threads\<close>

lemma sys_inv_abort_spawn:
  assumes inv: "sys_inv D T R" and t: "T t = None" and r: "recv_holds R = Some p"
  shows "sys_inv (arc_clone p D) (T(t \<mapsto> LockAbort p rf)) R"
proof -
  have fin: "finite (dom T)" using inv by (simp add: sys_inv_def)
  have pos: "0 < arcs D p" using sys_inv_count [OF inv, of p] r by simp
  have "refs_ok (D\<lparr>arcs := (arcs D)(p := Suc (arcs D p))\<rparr>) (T(t \<mapsto> LockAbort p rf)) R"
    unfolding refs_ok_def
  proof
    fix q
    show "arcs (D\<lparr>arcs := (arcs D)(p := Suc (arcs D p))\<rparr>) q =
        of_bool (q \<in> ran (descriptors (D\<lparr>arcs := (arcs D)(p := Suc (arcs D p))\<rparr>))) +
        card (with_task holds (T(t \<mapsto> LockAbort p rf)) q) + of_bool (recv_holds R = Some q)"
      using sys_inv_count [OF inv, of q] with_task_card [OF fin, of holds t "Some (LockAbort p rf)" q] t
      by (cases "q = p") simp_all
  qed
  then show ?thesis
    unfolding arc_clone_def
    by (intro sys_inv_counts [OF inv]) (use pos fin t in \<open>auto simp: with_task_same\<close>)
qed

text \<open>A task that changes only whether it is tracked, with the change of its tracker.\<close>

lemma sys_inv_retrack:
  assumes inv: "sys_inv D T R" and d: "heap D p = Some d"
    and v: "Option.bind v holds = Option.bind (T t) holds"
      "Option.bind v tracked \<in> {None, Some p}" "Option.bind (T t) tracked \<in> {None, Some p}"
      "Option.bind v unregistering = Option.bind (T t) unregistering" "Option.bind v stopping = Option.bind (T t) stopping"
      "Option.bind v stopped = Option.bind (T t) stopped" "Option.bind v unregistered = Option.bind (T t) unregistered"
    and d': "threads d' = with_task tracked (T(t := v)) p" "can_spawn d' = can_spawn (fd_tracker d)"
      "with_task stopped T p \<noteq> {} \<Longrightarrow> threads d' = {}"
  shows "sys_inv (update_tracker p (\<lambda>_. d') D) (T(t := v)) R"
proof (rule sys_inv_tracker [OF inv d])
  show "finite (dom (T(t := v)))" using inv by (simp add: sys_inv_def)
  show "with_task tracked (T(t := v)) q = with_task tracked T q \<and>
      with_task stopping (T(t := v)) q = with_task stopping T q \<and> with_task stopped (T(t := v)) q = with_task stopped T q"
    if "q \<noteq> p" for q
    using that v with_task_iff [of t tracked T q] by (auto simp: with_task_same with_task_upd)
  show "with_task stopping (T(t := v)) p \<noteq> {} \<Longrightarrow> \<not> can_spawn d'"
    using inv d d'(2) v by (simp add: with_task_same sys_inv_def unregister_ok_def)
  show "with_task stopped (T(t := v)) p \<noteq> {} \<Longrightarrow> threads d' = {}"
    using v d'(3) by (simp add: with_task_same)
qed (use v d' in \<open>simp_all add: with_task_same\<close>)

lemma sys_inv_track:
  assumes inv: "sys_inv D T R" and t: "T t = Some (LockAbort p rf)" and d: "heap D p = Some d"
    and can: "can_spawn (fd_tracker d)"
  shows "sys_inv (update_tracker p (\<lambda>_. (fd_tracker d)\<lparr>threads := insert t (threads (fd_tracker d)), new_thread := True\<rparr>) D)
     (T(t \<mapsto> LockTask p x f lock LockTry)) R"
proof (rule sys_inv_retrack [OF inv d])
  have "with_task stopping T p = {}" using inv d can by (auto simp: sys_inv_def unregister_ok_def)
  moreover have "with_task stopped T p \<subseteq> with_task stopping T p"
  proof
    fix u assume "u \<in> with_task stopped T p"
    then obtain k where "T u = Some k" "stopped k = Some p" by (auto simp: with_task_def bind_eq_Some_conv)
    moreover have "stopped k = Some p \<Longrightarrow> stopping k = Some p" by (cases k) (auto split: if_splits)
    ultimately show "u \<in> with_task stopping T p" by (simp add: with_task_def)
  qed
  ultimately show "threads ((fd_tracker d)\<lparr>threads := insert t (threads (fd_tracker d)), new_thread := True\<rparr>) = {}"
    if "with_task stopped T p \<noteq> {}" using that by auto
qed (use inv t d in \<open>simp_all add: with_task_upd sys_inv_def trackers_ok_def\<close>)

lemma sys_inv_untrack:
  assumes inv: "sys_inv D T R" and t: "T t = Some (LockTask p x f lock LockUntrack)"
  shows "sys_inv (update_tracker p (untrack t) D) (T(t \<mapsto> LockTask p x f lock LockExit)) R"
proof -
  have "t \<in> with_task tracked T p" using t by (simp add: with_task_def)
  then obtain d where d: "heap D p = Some d" using inv by (auto simp: sys_inv_def trackers_ok_def)
  have "update_tracker p (untrack t) D = update_tracker p (\<lambda>_. untrack t (fd_tracker d)) D"
    using d by (simp add: update_tracker_heap)
  moreover have "sys_inv (update_tracker p (\<lambda>_. untrack t (fd_tracker d)) D) (T(t \<mapsto> LockTask p x f lock LockExit)) R"
  proof (rule sys_inv_retrack [OF inv d])
    show "with_task stopped T p \<noteq> {} \<Longrightarrow> threads (untrack t (fd_tracker d)) = {}"
      using inv d by (simp add: sys_inv_def unregister_ok_def untrack_def)
  qed (use inv t d in \<open>simp_all add: with_task_upd untrack_def sys_inv_def trackers_ok_def\<close>)
  ultimately show ?thesis by simp
qed

subsection \<open>Registration and exit\<close>

lemma sys_inv_try_exit:
  assumes "sys_inv D T R" shows "sys_inv (snd (try_exit D)) T R"
proof -
  have "objects_wf (snd (try_exit D))" using assms by (simp add: sys_inv_def objects_wf_try_exit)
  moreover have "heap (snd (try_exit D)) = heap D" "arcs (snd (try_exit D)) = arcs D"
    "descriptors (snd (try_exit D)) = descriptors D" "next_obj (snd (try_exit D)) = next_obj D"
    by (simp_all add: try_exit_def)
  ultimately show ?thesis
    using assms table_wf_cong [of "snd (try_exit D)" D] refs_ok_cong [of "snd (try_exit D)" D T T R R]
      trackers_ok_cong [of "snd (try_exit D)" D T T] unregister_ok_cong [of "snd (try_exit D)" D T T]
    by (simp add: sys_inv_def)
qed

lemma fresh_unreferenced:
  assumes "sys_inv D T R"
  shows "with_task holds T (next_obj D) = {}" "recv_holds R \<noteq> Some (next_obj D)"
    "next_obj D \<notin> ran (descriptors D)" "with_task tracked T (next_obj D) = {}"
    "with_task unregistering T (next_obj D) = {}" "with_task unregistered T (next_obj D) = {}"
proof -
  have dead: "heap D (next_obj D) = None"
    using assms by (cases "heap D (next_obj D)") (auto simp: sys_inv_def objects_wf_def)
  then have "\<not> 0 < arcs D (next_obj D)"
    using assms by (auto simp: sys_inv_def objects_wf_def)
  then show h: "with_task holds T (next_obj D) = {}" "recv_holds R \<noteq> Some (next_obj D)"
      "next_obj D \<notin> ran (descriptors D)"
    using sys_inv_count [OF assms, of "next_obj D"] with_task_finite [of T holds "next_obj D"] assms
    by (auto simp: sys_inv_def)
  show "with_task tracked T (next_obj D) = {}" "with_task unregistered T (next_obj D) = {}"
    using assms dead by (auto simp: sys_inv_def trackers_ok_def unregister_ok_def)
  show "with_task unregistering T (next_obj D) = {}"
  proof -
    have "with_task unregistering T p \<subseteq> with_task holds T p" for p
      by (auto simp: with_task_def bind_eq_Some_conv intro: unregistering_holds)
    then show ?thesis using h by blast
  qed
qed

lemma stop_subsets:
  "with_task stopping T p \<subseteq> with_task unregistering T p" "with_task stopped T p \<subseteq> with_task unregistering T p"
proof -
  have "stopping k = Some p \<Longrightarrow> unregistering k = Some p" "stopped k = Some p \<Longrightarrow> unregistering k = Some p" for k :: "'b task"
    by (cases k; simp split: if_splits)+
  then show "with_task stopping T p \<subseteq> with_task unregistering T p" "with_task stopped T p \<subseteq> with_task unregistering T p"
    by (auto simp: with_task_def bind_eq_Some_conv)
qed

lemma sys_inv_register:
  assumes inv: "sys_inv D T R" and e: "\<not> exit_flag D" and v: "descriptors D i = None"
  shows "sys_inv (registered_state D fd i) T R"
proof -
  let ?D = "registered_state D fd i" and ?p = "next_obj D"
  note fresh = fresh_unreferenced [OF inv] and sub = stop_subsets [of T ?p]
  have wf: "daemon_wf ?D"
    using inv e v by (intro daemon_wf_registered) (simp_all add: daemon_wf_def sys_inv_def)
  have ran: "ran (descriptors ?D) = insert ?p (ran (descriptors D))"
    using v by (simp add: registered_state_def)
  have "refs_ok ?D T R"
    unfolding refs_ok_def
  proof
    fix q
    show "arcs ?D q = of_bool (q \<in> ran (descriptors ?D)) + card (with_task holds T q) + of_bool (recv_holds R = Some q)"
      unfolding ran using sys_inv_count [OF inv, of q] fresh
      by (cases "q = ?p") (simp_all add: registered_state_def)
  qed
  moreover have "trackers_ok ?D T"
    using inv fresh(4) unfolding sys_inv_def trackers_ok_def
    by (auto simp: registered_state_def)
  moreover have "unregister_ok ?D T"
    unfolding unregister_ok_def
  proof (intro conjI allI impI)
    fix q assume "q \<in> dom (heap ?D)"
    then show "q \<in> ran (descriptors ?D) \<or> with_task unregistering T q \<noteq> {}"
      unfolding ran using inv by (auto simp: registered_state_def sys_inv_def unregister_ok_def split: if_splits)
  next
    fix q d assume "heap ?D q = Some d" "with_task stopping T q \<noteq> {}"
    then show "\<not> can_spawn (fd_tracker d)"
      using inv fresh(5) sub by (cases "q = ?p") (auto simp: registered_state_def sys_inv_def unregister_ok_def)
  next
    fix q d assume "heap ?D q = Some d" "with_task stopped T q \<noteq> {}"
    then show "threads (fd_tracker d) = {}"
      using inv by (cases "q = ?p") (auto simp: registered_state_def sys_inv_def unregister_ok_def)
  next
    fix q assume q: "with_task unregistered T q \<noteq> {}"
    then have "q \<noteq> ?p" using fresh(6) by auto
    then show "heap ?D q = None" "q < next_obj ?D"
      using inv q by (auto simp: registered_state_def sys_inv_def unregister_ok_def intro: less_SucI)
  qed
  ultimately show ?thesis using wf inv by (simp add: sys_inv_def daemon_wf_def)
qed

subsection \<open>Every step keeps the invariant\<close>

definition owner_refs :: "('b, 'k) owner_sys \<Rightarrow> bool" where
  "owner_refs s \<longleftrightarrow> sys_inv (shared s) (tasks s) (receiver s)"

named_theorems owner_upd \<open>projections of the state updates\<close>

lemma owner_upd_simps [owner_upd, simp]:
  "shared (send_reply f r s) = shared s" "tasks (send_reply f r s) = tasks s"
  "receiver (send_reply f r s) = receiver s" "exits (send_reply f r s) = exits s"
  "next_exit (send_reply f r s) = next_exit s" "kern (send_reply f r s) = kern s"
  "ttl_queue (send_reply f r s) = ttl_queue s" "main_thread (send_reply f r s) = main_thread s"
  "sent (send_reply f r s) = sent s @ [(f, r)]"
  "shared (set_task t v s) = shared s" "tasks (set_task t v s) = (tasks s)(t := v)"
  "receiver (set_task t v s) = receiver s" "exits (set_task t v s) = exits s"
  "next_exit (set_task t v s) = next_exit s" "kern (set_task t v s) = kern s" "sent (set_task t v s) = sent s"
  "ttl_queue (set_task t v s) = ttl_queue s" "main_thread (set_task t v s) = main_thread s"
  by (simp_all add: send_reply_def set_task_def)

lemma register_result:
  assumes "handle_fd_register check D r = Some (res, D')"
  obtains (refused) e where "res = Inl e" "D' = close_received (register_fd r) D"
  | (accepted) i where "res = Inr i" "\<not> exit_flag D" "descriptors D i = None" "D' = registered_state D (register_fd r) i"
proof (cases "exit_flag D")
  case True
  then show thesis using assms refused [of "Custom BrokenPipe"] by (auto simp: register_refused)
next
  case False
  show thesis
  proof (cases check)
    case (Inl e)
    then show thesis using assms refused [of e] False by (auto simp: register_no_handler)
  next
    case (Inr u)
    then have check: "check = Inr ()" by simp
    show thesis
    proof (cases "vacant_id (descriptors D) (next_id D)")
      case None
      then show thesis
        using assms False check
        by (simp add: handle_fd_register_def acquire_exit_lock_def InterruptibleTracker_new_def
            arc_new_def insert_descriptor_def Let_def)
    next
      case (Some v)
      then obtain i n where v: "vacant_id (descriptors D) (next_id D) = Some (i, n)" by (cases v) simp
      then show thesis
        using assms accepted False check register_accepted [OF False v] vacant_id_sound [OF v] by auto
    qed
  qed
qed

lemma refs_receive:
  assumes inv: "owner_refs s" and step: "receive_request_step check t m f s = Some s'"
  shows "owner_refs s'"
proof -
  have idle: "receiver s = RecvIdle" and t: "tasks s t = None"
    and dis: "owner_dispatch check t m f (s\<lparr>ttl_queue := True\<rparr>) = Some s'"
    using step by (auto simp: receive_request_step_def split: if_splits)
  show ?thesis
  proof (cases m)
    case (Message_Ping x1)
    then show ?thesis using dis inv by (auto simp: owner_refs_def)
  next
    case (Message_Interrupt x2)
    then show ?thesis
      using dis inv t sys_inv_same_view [of "shared s" "tasks s" "receiver s" "Some (InterruptTask f x2)" t]
      by (auto simp: owner_refs_def same_view_def)
  next
    case (Message_RemoveInterrupt x3)
    then have "s' = send_reply f (ReplyUnit (io_cvt (fst (handle_interrupt_remove (shared s) x3))))
        (s\<lparr>ttl_queue := True, shared := snd (handle_interrupt_remove (shared s) x3)\<rparr>)"
      using dis by (simp add: case_prod_beta)
    moreover have "sys_inv (snd (handle_interrupt_remove (shared s) x3)) (tasks s) (receiver s)"
      by (rule sys_inv_frame [OF inv [unfolded owner_refs_def]])
        (simp_all add: handle_interrupt_remove_def split: option.splits)
    ultimately show ?thesis by (simp add: owner_refs_def)
  next
    case (Message_Register x4)
    then obtain res D' where reg: "handle_fd_register check (shared s) x4 = Some (res, D')"
      and s': "s' = send_reply f (ReplyId (io_cvt res)) (s\<lparr>ttl_queue := True, shared := D'\<rparr>)"
      using dis by auto
    from reg have "sys_inv D' (tasks s) (receiver s)"
    proof (cases rule: register_result)
      case (refused e)
      then show ?thesis
        using sys_inv_frame [OF inv [unfolded owner_refs_def], of D'] by (simp add: close_received_def)
    next
      case (accepted i)
      then show ?thesis using sys_inv_register inv by (simp add: owner_refs_def)
    qed
    then show ?thesis by (simp add: owner_refs_def s')
  next
    case (Message_Unregister x5)
    then show ?thesis
      using dis inv t sys_inv_same_view [of "shared s" "tasks s" "receiver s" "Some (UnregisterTask f x5)" t]
      by (auto simp: owner_refs_def same_view_def)
  next
    case (Message_LockCommand x6)
    show ?thesis
    proof (cases "descriptors (shared s) (command_id x6)")
      case None
      then show ?thesis using dis inv Message_LockCommand by (auto simp: lock_lookup_def owner_refs_def)
    next
      case (Some p)
      then have "s' = s\<lparr>ttl_queue := True, shared := arc_clone p (shared s), receiver := RecvCommand p x6 f\<rparr>"
        using dis Message_LockCommand by (simp add: lock_lookup_def)
      then show ?thesis
        using sys_inv_receiver_clone [of "shared s" "tasks s" "receiver s" p "RecvCommand p x6 f"] inv idle Some
        by (simp add: owner_refs_def ranI)
    qed
  qed
qed

lemma refs_command:
  assumes inv: "owner_refs s" and step: "command_step c fc os s = Some s'"
  shows "owner_refs s'"
proof (cases "receiver s")
  case (RecvRelease p)
  then show ?thesis
    using step inv sys_inv_receiver_drop [of "shared s" "tasks s" "receiver s" p RecvIdle]
    by (auto simp: command_step_def owner_refs_def)
next
  case (RecvCommand p cmd f)
  then have h: "handle_lock_command c fc os p cmd f s = Some s'" and fresh: "\<And>t. os = Inr t \<Longrightarrow> tasks s t = None"
    using step by (auto simp: command_step_def split: sum.splits if_splits)
  obtain d where d: "heap (shared s) p = Some d" using h by (auto simp: handle_lock_command_def split: option.splits)
  have rel: "sys_inv D T (RecvRelease p)" if "sys_inv D T (receiver s)" for D T
    using sys_inv_receiver [OF that, of "RecvRelease p"] RecvCommand by simp
  show ?thesis
  proof (cases "command_action cmd")
    case SetLockBlocking
    have abort: "sys_inv (arc_clone p (shared s)) ((tasks s)(t \<mapsto> LockAbort p f)) (RecvRelease p)" if "os = Inr t" for t
      using sys_inv_abort_spawn [of "shared s" "tasks s" "receiver s" t p] inv fresh [OF that] RecvCommand
      by (intro rel) (simp add: owner_refs_def)
    show ?thesis
    proof (cases "tracker_spawn os (next_exit s) (fd_tracker d)")
      case (Pair res d')
      show ?thesis
      proof (cases res)
        case (Inl e)
        then show ?thesis
          using h d SetLockBlocking Pair inv abort rel
          by (cases os) (auto simp: handle_lock_command_def owner_refs_def)
      next
        case (Inr gh)
        obtain t g h' where t: "os = Inr t" and gh: "gh = (g, h')"
          using Pair Inr by (cases os; cases gh) (auto simp: tracker_spawn_def)
        note spawned = Pair [unfolded Inr gh t]
        have "sys_inv (update_tracker p (\<lambda>_. d') (arc_clone p (shared s)))
            (((tasks s)(t \<mapsto> LockAbort p f))(t \<mapsto> LockTask p (next_exit s) f (command_params cmd) LockTry)) (RecvRelease p)"
          using sys_inv_track [OF abort [OF t], of t p f d] spawned d by (simp add: arc_clone_def)
        then show ?thesis
          using h d SetLockBlocking Pair [unfolded Inr gh] spawned
          by (auto simp: handle_lock_command_def owner_refs_def)
      qed
    qed
  qed (use h d inv rel in \<open>auto simp: handle_lock_command_def owner_refs_def split: prod.splits\<close>)
qed (use step in \<open>simp_all add: command_step_def\<close>)

lemma refs_interrupt:
  assumes inv: "owner_refs s" and t: "tasks s t = Some k"
    and step: "handle_interrupt_step bo tries t k s = Some (sigs, s')"
  shows "owner_refs s'"
proof -
  have move: "sys_inv (shared s) ((tasks s)(t := v)) (receiver s)"
    if "same_view v (Some k)" "Option.bind v unregistered = None" for v
    using sys_inv_same_view [of "shared s" "tasks s" "receiver s" v t] that inv t by (simp add: owner_refs_def)
  show ?thesis
  proof (cases k)
    case (InterruptTask f i)
    then show ?thesis
      using step by (auto simp: owner_refs_def interrupt_iter_def same_view_def case_prod_beta
          intro!: move split: sum.splits)
  next
    case (InterruptStop f h r)
    then show ?thesis
      using step by (auto simp: owner_refs_def interrupt_iter_def same_view_def case_prod_beta
          intro!: move split: option.splits if_splits)
  qed (use step in simp_all)
qed

lemma refs_unregister:
  assumes inv: "owner_refs s" and t: "tasks s t = Some k"
    and step: "handle_fd_unregister_step bo tries t k s = Some (sigs, s')"
  shows "owner_refs s'"
proof -
  note inv' = inv [unfolded owner_refs_def]
  have move: "sys_inv (shared s) ((tasks s)(t := v)) (receiver s)"
    if "same_view v (Some k)" "Option.bind v unregistered = None" for v
    using sys_inv_same_view [of "shared s" "tasks s" "receiver s" v t] that inv' t by simp
  show ?thesis
  proof (cases k)
    case (UnregisterTask f u)
    show ?thesis
    proof (cases "descriptors (shared s) (unregister_id u)")
      case None
      then show ?thesis
        using step UnregisterTask by (auto simp: unregister_take_def owner_refs_def same_view_def intro!: move)
    next
      case (Some p)
      then show ?thesis
        using step UnregisterTask sys_inv_take [OF inv' Some] t
        by (auto simp: unregister_take_def owner_refs_def)
    qed
  next
    case (UnregisterTaken f p)
    then obtain d where d: "heap (shared s) p = Some d"
      and s': "(sigs, s') = unregister_iter t f p (stop_enter bo (fd_tracker d)) s" using step by auto
    obtain g r d' where e: "stop_enter bo (fd_tracker d) = ((g, r), d')" by (metis surj_pair)
    then show ?thesis
      using s' sys_inv_stop [OF inv' t _ d, of d' r f] stop_enter_keeps [OF e] UnregisterTaken
      by (simp add: unregister_iter_def owner_refs_def)
  next
    case (UnregisterStop f p r0)
    show ?thesis
    proof (cases "resume_stop bo tries r0")
      case None
      then show ?thesis
        using step UnregisterStop by (auto simp: owner_refs_def same_view_def intro!: move split: if_splits)
    next
      case (Some l)
      then obtain d where d: "heap (shared s) p = Some d"
        and s': "(sigs, s') = unregister_iter t f p (stop_iter bo l (fd_tracker d)) s"
        using step UnregisterStop by auto
      obtain g r d' where e: "stop_iter bo l (fd_tracker d) = ((g, r), d')" by (metis surj_pair)
      have "t \<in> with_task stopping (tasks s) p" using t UnregisterStop by (simp add: with_task_def)
      then have "\<not> can_spawn (fd_tracker d)" using inv' d by (auto simp: sys_inv_def unregister_ok_def)
      then show ?thesis
        using s' e sys_inv_stop [OF inv' t _ d, of d' r f] stop_iter_keeps [OF e] UnregisterStop
        by (simp add: unregister_iter_def owner_refs_def)
    qed
  next
    case (UnregisterWait f p)
    then show ?thesis
      using step sys_inv_finish [OF inv'] t
      by (auto simp: owner_refs_def unregister_may_finish_def split: if_splits)
  next
    case (UnregisterReply f p)
    then show ?thesis using step by (auto simp: owner_refs_def same_view_def intro!: move)
  qed (use step in simp_all)
qed

lemma refs_lock:
  assumes inv: "owner_refs s" and t: "tasks s t = Some k"
    and step: "lock_thread_step c fc mask_change t k s = Some s'"
  shows "owner_refs s'"
proof -
  note inv' = inv [unfolded owner_refs_def]
  have move: "sys_inv D ((tasks s)(t := v)) (receiver s)"
    if "sys_inv D (tasks s) (receiver s)" "same_view v (Some k)" "Option.bind v unregistered = None" for v D
    using sys_inv_same_view [OF that(1), of v t] that(2,3) t by simp
  show ?thesis
  proof (cases k)
    case (LockAbort p rf)
    then show ?thesis
      using step t sys_inv_task_drop [OF inv', of t p None] by (auto simp: owner_refs_def)
  next
    case (LockTask p x f lock stage)
    show ?thesis
    proof (cases stage)
      case LockTry
      have "sys_inv owner' (tasks s) (receiver s)"
        if "set_lock_try c fc h d lock (shared s) (kern s) = Some (r, owner', k')" for h d r owner' k'
        by (rule sys_inv_frame [OF inv'])
          (use that in \<open>auto simp: set_lock_try_def handle_interrupt_add_def split: sum.splits prod.splits if_splits\<close>)
      then show ?thesis
        using step inv' LockTask LockTry
        by (auto simp: owner_refs_def same_view_def intro!: move split: sum.splits option.splits)
    next
      case LockWait
      then show ?thesis
        using step inv' LockTask
        by (auto simp: owner_refs_def same_view_def intro!: move split: sum.splits option.splits prod.splits)
    next
      case LockRelease
      then show ?thesis
        using step t LockTask sys_inv_task_drop [OF inv', of t p "Some (LockTask p x f lock LockUntrack)"]
        by (auto simp: owner_refs_def)
    next
      case LockUntrack
      have "InterruptibleGuard_drop_untrack \<lparr>guard_thread = t, guard_exit = x\<rparr> = untrack t"
        by (simp add: InterruptibleGuard_drop_untrack_def fun_eq_iff)
      then show ?thesis
        using step t LockTask LockUntrack sys_inv_untrack [OF inv'] by (auto simp: owner_refs_def)
    next
      case LockExit
      then show ?thesis
        using step inv' LockTask by (auto simp: owner_refs_def same_view_def intro!: move)
    qed
  qed (use step in simp_all)
qed

lemma refs_main:
  assumes inv: "owner_refs s" and step: "main_step ev s = Some s'"
  shows "owner_refs s'"
proof -
  have "shared s' \<in> {shared s, snd (try_exit (shared s))} \<and> tasks s' = tasks s \<and> receiver s' = receiver s"
    using step by (cases ev) (auto split: if_splits receiver_stage.splits sum.splits prod.splits)
  then show ?thesis using inv sys_inv_try_exit by (auto simp: owner_refs_def)
qed

lemma owner_refs_step: "owner_step bo c fc s s' \<Longrightarrow> owner_refs s \<Longrightarrow> owner_refs s'"
proof (induction rule: owner_step.induct)
  case (os_receive_error s e)
  then show ?case
    by (auto simp: receive_error_def owner_refs_def intro: sys_inv_receiver split: option.splits)
qed (blast intro: refs_receive refs_command refs_interrupt refs_unregister refs_lock refs_main)+

lemma owner_refs_start: "owner_refs (owner_start k)"
  using daemon_wf_new
  by (simp add: owner_refs_def owner_start_def sys_inv_def daemon_wf_def refs_ok_def trackers_ok_def
      unregister_ok_def with_task_def DaemonOwner_new_def)

subsection \<open>Exit flags\<close>

fun task_exit :: "'b task \<Rightarrow> exit_id option" where
  "task_exit (LockTask _ x _ _ _) = Some x"
| "task_exit _ = None"

fun stop_returned :: "'b task \<Rightarrow> exit_id option" where
  "stop_returned (InterruptStop _ h r) = (if r = Returned then Some (handle_exit h) else None)"
| "stop_returned _ = None"

text \<open>
  A lock thread has its own flag, which is set when it ends and not before; an interrupt that
  has returned has seen the flag of its handle.
\<close>

definition exits_ok ::
    "(pthread \<rightharpoonup> 'b task) \<Rightarrow> (exit_id \<Rightarrow> bool) \<Rightarrow> exit_id \<Rightarrow> bool" where
  "exits_ok T ex n \<longleftrightarrow>
     (\<forall>x. ex x \<longrightarrow> x < n) \<and>
     (\<forall>t x. Option.bind (T t) task_exit = Some x \<longrightarrow> x < n \<and> \<not> ex x) \<and>
     (\<forall>t u x. Option.bind (T t) task_exit = Some x \<longrightarrow> Option.bind (T u) task_exit = Some x \<longrightarrow> t = u) \<and>
     (\<forall>t x. Option.bind (T t) stop_returned = Some x \<longrightarrow> ex x)"

definition owner_exits :: "('b, 'k) owner_sys \<Rightarrow> bool" where
  "owner_exits s \<longleftrightarrow> exits_ok (tasks s) (exits s) (next_exit s)"

lemma exits_ok_move:
  assumes "exits_ok T ex n" "Option.bind v task_exit \<in> {None, Option.bind (T t) task_exit}"
    and "\<And>x. Option.bind v stop_returned = Some x \<Longrightarrow> ex x"
  shows "exits_ok (T(t := v)) ex n"
proof -
  have old: "Option.bind ((T(t := v)) u) task_exit = Some x \<Longrightarrow> Option.bind (T u) task_exit = Some x" for u x
    using assms(2) by (auto split: if_splits)
  have stop: "ex x" if "Option.bind ((T(t := v)) u) stop_returned = Some x" for u x
    using that assms(1,3) unfolding exits_ok_def by (cases "u = t") auto
  show ?thesis
    using assms(1) old stop unfolding exits_ok_def by blast
qed

lemma exits_ok_spawn:
  assumes "exits_ok T ex n" "T t = None"
  shows "exits_ok (T(t \<mapsto> LockTask p n f lock st)) ex (Suc n)"
proof -
  let ?T = "T(t \<mapsto> LockTask p n f lock st)"
  have new: "Option.bind (?T u) task_exit = Some x \<Longrightarrow> (u = t \<and> x = n) \<or> (u \<noteq> t \<and> Option.bind (T u) task_exit = Some x)" for u x
    by (auto split: if_splits)
  have stop: "Option.bind (?T u) stop_returned = Some x \<Longrightarrow> Option.bind (T u) stop_returned = Some x" for u x
    by (auto split: if_splits)
  have lt: "ex x \<Longrightarrow> x < n" "Option.bind (T u) task_exit = Some x \<Longrightarrow> x < n \<and> \<not> ex x" for x u
    using assms(1) unfolding exits_ok_def by blast+
  show ?thesis
    unfolding exits_ok_def
  proof (intro conjI allI impI)
    fix u w x assume "Option.bind (?T u) task_exit = Some x" "Option.bind (?T w) task_exit = Some x"
    then show "u = w" using new [of u x] new [of w x] lt(2) [of u x] lt(2) [of w x] assms(1)
      unfolding exits_ok_def by blast
  next
    fix u x assume "Option.bind (?T u) stop_returned = Some x"
    then show "ex x" using stop assms(1) unfolding exits_ok_def by blast
  next
    fix u x assume "Option.bind (?T u) task_exit = Some x"
    then show "x < Suc n" "\<not> ex x" using new [of u x] lt [of x] lt(2) [of u x] by (auto intro: less_SucI)
  qed (use lt(1) less_SucI in blast)
qed

lemma exits_ok_exit:
  assumes "exits_ok T ex n" "T t = Some (LockTask p x f lock st)"
  shows "exits_ok (T(t := None)) (ex(x := True)) n"
proof -
  have own: "Option.bind (T t) task_exit = Some x" using assms(2) by simp
  have other: "y \<noteq> x" if "Option.bind (T u) task_exit = Some y" "u \<noteq> t" for u y
    using assms(1) own that unfolding exits_ok_def by blast
  show ?thesis
    unfolding exits_ok_def
  proof (intro conjI allI impI)
    fix y assume "(ex(x := True)) y"
    then show "y < n" using assms(1) own unfolding exits_ok_def by (cases "y = x") auto
  next
    fix u y assume "Option.bind ((T(t := None)) u) task_exit = Some y"
    then have "Option.bind (T u) task_exit = Some y" "u \<noteq> t" by (auto split: if_splits)
    then show "y < n" "\<not> (ex(x := True)) y" using assms(1) other [of u y] unfolding exits_ok_def by auto
  next
    fix u w y assume "Option.bind ((T(t := None)) u) task_exit = Some y" "Option.bind ((T(t := None)) w) task_exit = Some y"
    then have "Option.bind (T u) task_exit = Some y" "Option.bind (T w) task_exit = Some y" by (auto split: if_splits)
    then show "u = w" using assms(1) unfolding exits_ok_def by blast
  next
    fix u y assume "Option.bind ((T(t := None)) u) stop_returned = Some y"
    then have "Option.bind (T u) stop_returned = Some y" by (auto split: if_splits)
    then show "(ex(x := True)) y" using assms(1) unfolding exits_ok_def by auto
  qed
qed

lemma exits_receive:
  assumes "owner_exits s" "receive_request_step check t m f s = Some s'"
  shows "owner_exits s'"
proof -
  have "exits s' = exits s \<and> next_exit s' = next_exit s \<and>
      (tasks s' = tasks s \<or> (\<exists>k. tasks s' = (tasks s)(t \<mapsto> k) \<and> task_exit k = None \<and> stop_returned k = None))"
    using assms(2)
    by (cases m) (auto simp: receive_request_step_def lock_lookup_def split: if_splits prod.splits option.splits)
  then show ?thesis
    using assms(1) by (auto simp: owner_exits_def intro!: exits_ok_move)
qed

lemma exits_command:
  assumes inv: "owner_exits s" and step: "command_step c fc os s = Some s'"
  shows "owner_exits s'"
proof (cases "receiver s")
  case (RecvCommand p cmd f)
  then have h: "handle_lock_command c fc os p cmd f s = Some s'" and fresh: "\<And>t. os = Inr t \<Longrightarrow> tasks s t = None"
    using step by (auto simp: command_step_def split: sum.splits if_splits)
  obtain d where d: "heap (shared s) p = Some d" using h by (auto simp: handle_lock_command_def split: option.splits)
  show ?thesis
  proof (cases "command_action cmd = SetLockBlocking \<and> is_ok (fst (tracker_spawn os (next_exit s) (fd_tracker d)))")
    case True
    then obtain t g h' d' where os: "os = Inr t"
      and sp: "tracker_spawn (Inr t) (next_exit s) (fd_tracker d) = (Inr (g, h'), d')"
      by (cases os; cases "tracker_spawn os (next_exit s) (fd_tracker d)")
        (auto simp: tracker_spawn_def elim!: is_okE split: prod.splits sum.splits)
    then have "tasks s' = (tasks s)(t \<mapsto> LockTask p (next_exit s) f (command_params cmd) LockTry)"
      "exits s' = exits s" "next_exit s' = Suc (next_exit s)"
      using h d True sp os by (auto simp: handle_lock_command_def)
    then show ?thesis using exits_ok_spawn [of "tasks s" "exits s" "next_exit s" t] inv fresh [OF os]
      by (simp add: owner_exits_def)
  next
    case False
    then have "exits s' = exits s \<and> next_exit s' = next_exit s \<and>
        (tasks s' = tasks s \<or> (\<exists>t. tasks s' = (tasks s)(t \<mapsto> LockAbort p f)))"
      using h d by (auto simp: handle_lock_command_def split: LockAction.splits sum.splits prod.splits)
    then show ?thesis
      using inv exits_ok_move [of "tasks s" "exits s" "next_exit s" "Some (LockAbort p f)"] by (auto simp: owner_exits_def)
  qed
qed (use step inv in \<open>auto simp: command_step_def owner_exits_def\<close>)

lemma exits_interrupt:
  assumes inv: "owner_exits s" and step: "handle_interrupt_step bo tries t k s = Some (sigs, s')"
  shows "owner_exits s'"
proof -
  have "exits_ok ((tasks s)(t := None)) (exits s) (next_exit s)"
    using inv exits_ok_move [of "tasks s" "exits s" "next_exit s" None t] by (simp add: owner_exits_def)
  moreover have "owner_exits (snd (interrupt_iter bo t f h l s))" for f h l
  proof -
    obtain g r where it: "handle_stop_iter bo t h l (exits s) = (g, r)" by (metis surj_pair)
    then show ?thesis
      using inv handle_stop_iter_keeps(3) [OF it]
      by (auto simp: interrupt_iter_def owner_exits_def intro!: exits_ok_move split: if_splits)
  qed
  ultimately show ?thesis
    using step by (cases k) (auto simp: owner_exits_def split: sum.splits option.splits if_splits dest!: arg_cong [where f = snd])
qed

lemma exits_unregister:
  assumes inv: "owner_exits s" and step: "handle_fd_unregister_step bo tries t k s = Some (sigs, s')"
  shows "owner_exits s'"
proof -
  have "exits s' = exits s \<and> next_exit s' = next_exit s \<and>
      (\<exists>v. tasks s' = (tasks s)(t := v) \<and> Option.bind v task_exit = None \<and> Option.bind v stop_returned = None)"
    using step
    by (cases k) (auto simp: unregister_iter_def case_prod_beta split: sum.splits option.splits if_splits prod.splits)
  then show ?thesis
    using inv by (auto simp: owner_exits_def intro!: exits_ok_move)
qed

lemma exits_lock:
  assumes inv: "owner_exits s" and t: "tasks s t = Some k" and step: "lock_thread_step c fc mask_change t k s = Some s'"
  shows "owner_exits s'"
proof (cases "\<exists>p x f lock. k = LockTask p x f lock LockExit")
  case True
  then show ?thesis
    using step t exits_ok_exit [of "tasks s" "exits s" "next_exit s" t] inv
    by (auto simp: owner_exits_def InterruptibleGuard_drop_exit_def)
next
  case False
  then have "exits s' = exits s \<and> next_exit s' = next_exit s \<and>
      (\<exists>v. tasks s' = (tasks s)(t := v) \<and> Option.bind v task_exit \<in> {None, task_exit k} \<and> Option.bind v stop_returned = None)"
    using step
    by (cases "(c, fc, mask_change, t, k, s)" rule: lock_thread_step.cases)
      (auto split: sum.splits option.splits if_splits prod.splits)
  then show ?thesis
    using inv t by (auto simp: owner_exits_def intro!: exits_ok_move)
qed

lemma exits_main: "owner_exits s \<Longrightarrow> main_step ev s = Some s' \<Longrightarrow> owner_exits s'"
  by (cases ev) (auto simp: owner_exits_def split: if_splits receiver_stage.splits sum.splits prod.splits)

lemma owner_exits_step: "owner_step bo c fc s s' \<Longrightarrow> owner_exits s \<Longrightarrow> owner_exits s'"
proof (induction rule: owner_step.induct)
  case (os_receive_error s e)
  then show ?case by (auto simp: receive_error_def owner_exits_def split: option.splits)
qed (blast intro: exits_receive exits_command exits_interrupt exits_unregister exits_lock exits_main)+

lemma owner_exits_start: "owner_exits (owner_start k)"
  by (simp add: owner_exits_def owner_start_def exits_ok_def)

definition owner_inv :: "('b, 'k) owner_sys \<Rightarrow> bool" where
  "owner_inv s \<longleftrightarrow> owner_refs s \<and> owner_exits s"

definition owner_init :: "('b, 'k) owner_sys \<Rightarrow> bool" where
  "owner_init s \<longleftrightarrow> (\<exists>k. s = owner_start k)"

interpretation owner: transition_system owner_init "owner_step bo c fc" owner_inv
  for bo :: "'b backoff_ops" and c :: libc_consts and fc :: "'k fcntl_calls"
proof
  fix s :: "('b, 'k) owner_sys" assume "owner_init s"
  then show "owner_inv s"
    by (auto simp: owner_init_def owner_inv_def owner_refs_start owner_exits_start)
next
  fix s s' :: "('b, 'k) owner_sys" assume "owner_inv s" "owner_step bo c fc s s'"
  then show "owner_inv s'" by (auto simp: owner_inv_def intro: owner_refs_step owner_exits_step)
qed

end
