(* ===== verification/Registry.thy ===== *)
theory Registry
  imports Daemon_Safety
begin

text \<open>
  What an owner process promises about the files it is given, as a specification without threads,
  references or system calls, and the proof that the process of \<open>Daemon_System\<close> implements it.

  In the specification a file is registered under a vacant identifier, which is told to the client
  in the same step; it is retired when its identifier is given up, closed some time later and
  then once; and the process is over only when no file is registered or retired, after which
  nothing can be registered. Threads that come and go, lock commands, interrupts and the
  bookkeeping of references are not visible.
\<close>

section \<open>Specification\<close>

record registry =
  files :: "u64 \<rightharpoonup> fd"
  retired :: "nat \<rightharpoonup> fd"
  closed :: "fd list"
  issued :: "u64 list"
  over :: bool

definition registry_empty :: registry where
  "registry_empty = \<lparr>files = Map.empty, retired = Map.empty, closed = [], issued = [], over = False\<rparr>"

inductive registry_step :: "registry \<Rightarrow> registry \<Rightarrow> bool" where
  reg_add: "\<not> over r \<Longrightarrow> files r i = None \<Longrightarrow>
    registry_step r (r\<lparr>files := (files r)(i \<mapsto> f), issued := issued r @ [i]\<rparr>)"
| reg_refuse: "registry_step r (r\<lparr>closed := closed r @ [f]\<rparr>)"
| reg_retire: "files r i = Some f \<Longrightarrow> retired r n = None \<Longrightarrow>
    registry_step r (r\<lparr>files := (files r)(i := None), retired := (retired r)(n \<mapsto> f)\<rparr>)"
| reg_close: "retired r n = Some f \<Longrightarrow>
    registry_step r (r\<lparr>retired := (retired r)(n := None), closed := closed r @ [f]\<rparr>)"
| reg_over: "files r = Map.empty \<Longrightarrow> retired r = Map.empty \<Longrightarrow> registry_step r (r\<lparr>over := True\<rparr>)"

inductive_cases registry_stepE: "registry_step r r'"

text \<open>A registry that is over holds nothing, and what it has issued is what has been registered.\<close>

definition registry_wf :: "registry \<Rightarrow> bool" where
  "registry_wf r \<longleftrightarrow> (over r \<longrightarrow> files r = Map.empty \<and> retired r = Map.empty) \<and>
     (\<forall>i f. files r i = Some f \<longrightarrow> i \<in> set (issued r))"

interpretation registry: transition_system "\<lambda>r. r = registry_empty" registry_step registry_wf
proof
  fix r assume "r = registry_empty"
  then show "registry_wf r" by (simp add: registry_wf_def registry_empty_def)
next
  fix r r' assume "registry_wf r" "registry_step r r'"
  then show "registry_wf r'" by (auto simp: registry_wf_def elim!: registry_stepE split: if_splits)
qed

section \<open>Abstraction\<close>

definition file_of :: "DaemonOwnerInner \<Rightarrow> obj \<rightharpoonup> fd" where
  "file_of D p = map_option descriptor (heap D p)"

fun issued_id :: "fd \<times> server_reply \<Rightarrow> u64 option" where
  "issued_id (_, ReplyId (Inr i)) = Some i"
| "issued_id _ = None"

definition registry_of :: "('b, 'k) owner_sys \<Rightarrow> registry" where
  "registry_of s =
     \<lparr>files = file_of (shared s) \<circ>\<^sub>m descriptors (shared s),
      retired = file_of (shared s) |` (- ran (descriptors (shared s))),
      closed = closed_fds (shared s),
      issued = List.map_filter issued_id (sent s),
      over = exit_flag (shared s)\<rparr>"

lemma file_of_update [simp]: "file_of (update_tracker p f D) = file_of D"
  by (auto simp: file_of_def update_tracker_def fun_eq_iff split: option.split)

lemma file_of_received [simp]: "file_of (close_received f D) = file_of D"
  by (simp add: file_of_def close_received_def fun_eq_iff)

lemma file_of_clone [simp]: "file_of (arc_clone p D) = file_of D"
  by (simp add: file_of_def arc_clone_def fun_eq_iff)

lemma table_update [simp]:
  "descriptors (update_tracker p f D) = descriptors D" "closed_fds (update_tracker p f D) = closed_fds D"
  "exit_flag (update_tracker p f D) = exit_flag D" "descriptors (arc_clone p D) = descriptors D"
  "closed_fds (arc_clone p D) = closed_fds D" "exit_flag (arc_clone p D) = exit_flag D"
  "descriptors (close_received g D) = descriptors D" "closed_fds (close_received g D) = closed_fds D @ [g]"
  "exit_flag (close_received g D) = exit_flag D"
  by (simp_all add: update_tracker_def arc_clone_def close_received_def split: option.split)

text \<open>The steps that are not visible.\<close>

definition unseen :: "DaemonOwnerInner \<Rightarrow> DaemonOwnerInner \<Rightarrow> bool" where
  "unseen D D' \<longleftrightarrow> descriptors D' = descriptors D \<and> file_of D' = file_of D \<and>
     closed_fds D' = closed_fds D \<and> exit_flag D' = exit_flag D"

lemma unseen_intros [simp]:
  "unseen D D" "unseen D (update_tracker p f D)" "unseen D (arc_clone p D)"
  "unseen D (update_tracker p f (arc_clone q D))"
  by (simp_all add: unseen_def)

lemma unseen_frame:
  "descriptors D' = descriptors D \<Longrightarrow> heap D' = heap D \<Longrightarrow> closed_fds D' = closed_fds D \<Longrightarrow>
   exit_flag D' = exit_flag D \<Longrightarrow> unseen D D'"
  by (simp add: unseen_def file_of_def fun_eq_iff)

lemma unseen_drop: "2 \<le> arcs D p \<Longrightarrow> unseen D (arc_drop p D)"
  by (cases "heap D p") (simp_all add: arc_drop_def unseen_frame)

lemma registry_unseen:
  "unseen (shared s) (shared s') \<Longrightarrow> List.map_filter issued_id (sent s') = List.map_filter issued_id (sent s) \<Longrightarrow>
   registry_of s' = registry_of s"
  by (simp add: registry_of_def unseen_def)

lemma map_filter_append [simp]: "List.map_filter f (xs @ ys) = List.map_filter f xs @ List.map_filter f ys"
  by (simp add: List.map_filter_def)

lemma map_filter_single [simp]: "List.map_filter f [x] = (case f x of None \<Rightarrow> [] | Some y \<Rightarrow> [y])"
  by (simp add: List.map_filter_def split: option.split)

section \<open>Simulation\<close>

definition registry_sim :: "('b, 'k) owner_sys \<Rightarrow> ('b, 'k) owner_sys \<Rightarrow> bool" where
  "registry_sim s s' \<longleftrightarrow> registry_of s' = registry_of s \<or> registry_step (registry_of s) (registry_of s')"

lemma sim_unseen:
  "unseen (shared s) (shared s') \<Longrightarrow> List.map_filter issued_id (sent s') = List.map_filter issued_id (sent s) \<Longrightarrow>
   registry_sim s s'"
  by (simp add: registry_sim_def registry_unseen)

text \<open>Registering: a new object, which no entry of the table refers to.\<close>

lemma registry_register:
  assumes wf: "objects_wf (shared s)" "table_wf (shared s)" and i: "descriptors (shared s) i = None"
    and s': "shared s' = registered_state (shared s) f i" "sent s' = sent s @ [(g, ReplyId (Inr i))]"
  shows "registry_of s' = (registry_of s)\<lparr>files := (files (registry_of s))(i \<mapsto> f), issued := issued (registry_of s) @ [i]\<rparr>"
proof -
  let ?D = "shared s" and ?D' = "shared s'"
  have fresh: "heap ?D (next_obj ?D) = None" "next_obj ?D \<notin> ran (descriptors ?D)"
    using wf by (auto simp: objects_wf_def table_wf_def)
  have D': "file_of ?D' = (file_of ?D)(next_obj ?D \<mapsto> f)" "descriptors ?D' = (descriptors ?D)(i \<mapsto> next_obj ?D)"
    "closed_fds ?D' = closed_fds ?D" "exit_flag ?D' = exit_flag ?D"
    by (auto simp: s' registered_state_def file_of_def)
  have "descriptors ?D j \<noteq> Some (next_obj ?D)" for j using fresh by (auto simp: ran_def)
  then have "file_of ?D' \<circ>\<^sub>m descriptors ?D' = (file_of ?D \<circ>\<^sub>m descriptors ?D)(i \<mapsto> f)"
    by (auto simp: D' map_comp_def fun_eq_iff split: option.split)
  moreover have "file_of ?D' |` (- ran (descriptors ?D')) = file_of ?D |` (- ran (descriptors ?D))"
    using fresh ran_map_upd [of "descriptors ?D" i "next_obj ?D"] i
    by (auto simp: D' restrict_map_def file_of_def fun_eq_iff)
  ultimately show ?thesis by (simp add: registry_of_def D' s'(2))
qed

lemma sim_receive:
  assumes inv: "owner_refs s" and st: "receive_request_step check t m f s = Some s'"
  shows "registry_sim s s'"
proof (cases m)
  case (Message_Register r)
  let ?u = "s\<lparr>ttl_queue := True\<rparr>"
  obtain res D' where h: "handle_fd_register check (shared s) r = Some (res, D')"
      "s' = send_reply f (ReplyId (io_cvt res)) (?u\<lparr>shared := D'\<rparr>)"
    using st Message_Register by (auto simp: receive_request_step_def split: if_splits)
  have wf: "objects_wf (shared s)" "table_wf (shared s)" using inv by (simp_all add: owner_refs_def sys_inv_def)
  from h(1) show ?thesis
  proof (cases rule: register_result)
    case (refused e)
    then have "registry_of s' = (registry_of s)\<lparr>closed := closed (registry_of s) @ [register_fd r]\<rparr>"
      by (simp add: h(2) registry_of_def io_cvt_def split: option.split)
    then show ?thesis by (simp add: registry_sim_def reg_refuse)
  next
    case (accepted i)
    have "registry_of s' = (registry_of s)\<lparr>files := (files (registry_of s))(i \<mapsto> register_fd r),
        issued := issued (registry_of s) @ [i]\<rparr>"
      using accepted by (intro registry_register [OF wf, of _ _ _ f]) (simp_all add: h(2) io_cvt_def)
    moreover have "\<not> over (registry_of s)" "files (registry_of s) i = None"
      using accepted by (simp_all add: registry_of_def)
    ultimately show ?thesis by (simp add: registry_sim_def reg_add)
  qed
qed (use st in \<open>auto simp: receive_request_step_def lock_lookup_def handle_interrupt_remove_def
      intro!: sim_unseen intro: unseen_frame split: if_splits option.splits\<close>)

text \<open>The receiver and the lock threads drop references that are not the last ones.\<close>

lemma sim_command:
  assumes inv: "owner_refs s" and st: "command_step c fc os s = Some s'"
  shows "registry_sim s s'"
proof (cases "receiver s")
  case (RecvRelease p)
  then have "2 \<le> arcs (shared s) p" using inv receiver_not_last [of "shared s" "tasks s" "receiver s" p]
    by (simp add: owner_refs_def)
  then show ?thesis
    using st RecvRelease unseen_drop [of "shared s" p] by (auto simp: command_step_def intro!: sim_unseen)
next
  case (RecvCommand p cmd f)
  then have "handle_lock_command c fc os p cmd f s = Some s'"
    using st by (auto simp: command_step_def split: sum.splits if_splits)
  then show ?thesis
    by (auto simp: handle_lock_command_def intro!: sim_unseen
        split: option.splits LockAction.splits sum.splits prod.splits)
qed (use st in \<open>auto simp: command_step_def\<close>)

lemma sim_interrupt: "handle_interrupt_step bo tries t k s = Some (sigs, s') \<Longrightarrow> registry_sim s s'"
  by (cases k) (auto simp: interrupt_iter_def case_prod_beta intro!: sim_unseen
      split: sum.splits option.splits if_splits)

lemma sim_lock:
  assumes inv: "owner_refs s" and t: "tasks s t = Some k" and st: "lock_thread_step c fc mask_change t k s = Some s'"
  shows "registry_sim s s'"
proof -
  have drop: "unseen (shared s) (arc_drop p (shared s))" if "holds k = Some p" "unregistering k = None" for p
    using that inv t holder_not_last [of "shared s" "tasks s" "receiver s" t p] by (simp add: unseen_drop owner_refs_def)
  show ?thesis
    using st drop
    by (cases "(c, fc, mask_change, t, k, s)" rule: lock_thread_step.cases)
      (auto simp: set_lock_try_def handle_interrupt_add_def intro!: sim_unseen intro: unseen_frame
        split: sum.splits option.splits if_splits prod.splits)
qed

text \<open>Unregistering: the entry is taken out, and the descriptor is closed with the last reference.\<close>

lemma registry_take:
  assumes wf: "table_wf (shared s)" and p: "descriptors (shared s) i = Some p"
    and s': "shared s' = shared s\<lparr>descriptors := (descriptors (shared s))(i := None)\<rparr>" "sent s' = sent s"
  shows "\<exists>f. files (registry_of s) i = Some f \<and> retired (registry_of s) p = None \<and>
    registry_of s' = (registry_of s)\<lparr>files := (files (registry_of s))(i := None), retired := (retired (registry_of s))(p \<mapsto> f)\<rparr>"
proof -
  let ?D = "shared s"
  have "p \<in> ran (descriptors ?D)" using p by (auto simp: ran_def)
  then obtain f where f: "file_of ?D p = Some f" using wf by (auto simp: table_wf_def file_of_def)
  have same: "file_of (shared s') = file_of ?D" by (simp add: s' file_of_def fun_eq_iff)
  have ran: "ran ((descriptors ?D)(i := None)) = ran (descriptors ?D) - {p}"
    using wf p by (intro ran_map_remove) (simp_all add: table_wf_def)
  have "file_of ?D \<circ>\<^sub>m (descriptors ?D)(i := None) = (file_of ?D \<circ>\<^sub>m descriptors ?D)(i := None)"
    by (auto simp: map_comp_def)
  moreover have "file_of ?D |` (- ran ((descriptors ?D)(i := None))) = (file_of ?D |` (- ran (descriptors ?D)))(p \<mapsto> f)"
    unfolding ran using f by (auto simp: restrict_map_def)
  ultimately have "registry_of s' = (registry_of s)\<lparr>files := (files (registry_of s))(i := None), retired := (retired (registry_of s))(p \<mapsto> f)\<rparr>"
    using same s' by (simp add: registry_of_def)
  then show ?thesis using f p \<open>p \<in> ran (descriptors ?D)\<close> by (auto simp: registry_of_def map_comp_def)
qed

lemma registry_close:
  assumes d: "heap (shared s) p = Some d" "arcs (shared s) p = 1" and p: "p \<notin> ran (descriptors (shared s))"
    and s': "shared s' = arc_drop p (shared s)" "sent s' = sent s"
  shows "retired (registry_of s) p = Some (descriptor d) \<and> registry_of s' = (registry_of s)\<lparr>
    retired := (retired (registry_of s))(p := None), closed := closed (registry_of s) @ [descriptor d]\<rparr>"
proof -
  let ?D = "shared s"
  have D': "descriptors (shared s') = descriptors ?D" "file_of (shared s') = (file_of ?D)(p := None)"
    "closed_fds (shared s') = closed_fds ?D @ [descriptor d]" "exit_flag (shared s') = exit_flag ?D"
    using d by (auto simp: s' arc_drop_def release_exit_lock_def file_of_def)
  have "(file_of ?D)(p := None) \<circ>\<^sub>m descriptors ?D = file_of ?D \<circ>\<^sub>m descriptors ?D"
    using p by (auto simp: map_comp_def fun_eq_iff ran_def split: option.split)
  moreover have "(file_of ?D)(p := None) |` (- ran (descriptors ?D)) = (file_of ?D |` (- ran (descriptors ?D)))(p := None)"
    by (auto simp: restrict_map_def)
  ultimately show ?thesis using d p D' s'(2) by (simp add: registry_of_def file_of_def)
qed

lemma sim_unregister:
  assumes inv: "owner_refs s" and t: "tasks s t = Some k"
    and st: "handle_fd_unregister_step bo tries t k s = Some (sigs, s')"
  shows "registry_sim s s'"
proof (cases k)
  case (UnregisterTask f u)
  show ?thesis
  proof (cases "descriptors (shared s) (unregister_id u)")
    case None
    then show ?thesis using st UnregisterTask by (auto simp: unregister_take_def intro!: sim_unseen)
  next
    case (Some p)
    let ?D = "shared s\<lparr>descriptors := (descriptors (shared s))(unregister_id u := None)\<rparr>"
    have "shared s' = ?D" "sent s' = sent s" using st UnregisterTask Some by (auto simp: unregister_take_def)
    from registry_take [OF _ Some this] show ?thesis
      using inv by (auto simp: registry_sim_def owner_refs_def sys_inv_def intro: reg_retire)
  qed
next
  case (UnregisterWait f p)
  then have s': "arcs (shared s) p = 1" "shared s' = arc_drop p (shared s)" "sent s' = sent s"
    using st by (auto simp: unregister_may_finish_def split: if_splits)
  have inv': "sys_inv (shared s) (tasks s) (receiver s)" using inv by (simp add: owner_refs_def)
  have held: "Option.bind (tasks s t) holds = Some p" using t UnregisterWait by simp
  then have "0 < card (with_task holds (tasks s) p)"
    using inv' with_task_finite [of "tasks s" holds p] by (auto simp: sys_inv_def card_gt_0_iff with_task_def)
  then have "p \<notin> ran (descriptors (shared s))" using sys_inv_count [OF inv', of p] s'(1) by (auto split: if_splits)
  moreover obtain d where "heap (shared s) p = Some d" using referenced_alive [OF inv', of p t] held by blast
  ultimately show ?thesis
    using registry_close [of s p d s'] s' by (auto simp: registry_sim_def intro: reg_close)
qed (use st in \<open>auto simp: unregister_iter_def case_prod_beta intro!: sim_unseen split: option.splits if_splits\<close>)

lemma sim_main:
  assumes inv: "owner_refs s" and st: "main_step ev s = Some s'"
  shows "registry_sim s s'"
proof (cases "shared s' = shared s")
  case True
  then show ?thesis using st by (cases ev) (auto intro!: sim_unseen split: if_splits receiver_stage.splits prod.splits sum.splits)
next
  case False
  then have s': "exit_readers (shared s) = 0" "shared s' = shared s\<lparr>exit_flag := True\<rparr>" "sent s' = sent s"
    using st by (cases ev; auto simp: try_exit_def split: if_splits receiver_stage.splits)+
  have "heap (shared s) = Map.empty"
    using inv s'(1) objects_wf_card [of "shared s"] by (simp add: owner_refs_def sys_inv_def)
  then have "files (registry_of s) = Map.empty" "retired (registry_of s) = Map.empty"
    by (auto simp: registry_of_def file_of_def map_comp_def restrict_map_def split: option.split)
  moreover have "registry_of s' = (registry_of s)\<lparr>over := True\<rparr>"
    using s' by (simp add: registry_of_def file_of_def map_comp_def restrict_map_def cong: option.case_cong if_cong)
  ultimately show ?thesis by (simp add: registry_sim_def reg_over)
qed

lemma sim_owner_step:
  assumes "owner_step bo c fc s s'" "owner_refs s"
  shows "registry_sim s s'"
  using assms
proof (induction rule: owner_step.induct)
  case (os_receive_error s e)
  then show ?case by (auto simp: receive_error_def intro!: sim_unseen split: option.split)
qed (blast intro: sim_receive sim_command sim_interrupt sim_unregister sim_lock sim_main)+

interpretation files: refinement owner_init "owner_step bo c fc" owner_inv registry_of "\<lambda>r. r = registry_empty" registry_step
  for bo :: "'b backoff_ops" and c :: libc_consts and fc :: "'k fcntl_calls"
proof
  fix s :: "('b, 'k) owner_sys" assume "owner_init s"
  then show "registry_of s = registry_empty"
    by (auto simp: owner_init_def owner_start_def DaemonOwner_new_def registry_of_def registry_empty_def
        file_of_def map_comp_def restrict_map_def List.map_filter_def)
next
  fix s s' :: "('b, 'k) owner_sys" assume "owner_inv s" "owner_step bo c fc s s'"
  then show "registry_of s' = registry_of s \<or> registry_step (registry_of s) (registry_of s')"
    using sim_owner_step [of bo c fc s s'] by (auto simp: owner_inv_def registry_sim_def)
qed

section \<open>Refinement\<close>



end
