(* ===== verification/Transport.thy ===== *)
theory Transport
  imports Framing
begin

text \<open>
  Correctness of the transport: frames and requests arrive unchanged, in order and exactly once.
  The locale \<open>unix_sockets\<close> states what the code relies on of Unix stream sockets and descriptor
  passing (\<^verbatim>\<open>unix(7)\<close>, \<^verbatim>\<open>recv(2)\<close>); \<open>pending s a\<close> is the view of the frames sent to
  endpoint \<open>a\<close> and not yet received, \<open>peer s a\<close> the other end of \<open>a\<close>, \<open>socks s\<close> the sockets
  created so far and \<open>eof s a\<close> says that the other end is closed. The laws are met by the queue
  model \<open>queue_sockets\<close> at the end of the interfaces.
\<close>

section \<open>Sequences of frames\<close>

text \<open>Sending frames one after the other, and receiving until the first error.\<close>

fun send_frames ::
    "'s socket_calls \<Rightarrow> fd \<Rightarrow> (u8 list \<times> fd list) list \<Rightarrow> 's \<Rightarrow> 's option" where
  "send_frames k a [] s = Some s"
| "send_frames k a ((buffer, fds) # fs) s =
     (case send_raw_message k a buffer fds s of
        (Inl _, _) \<Rightarrow> None
      | (Inr _, s1) \<Rightarrow> send_frames k a fs s1)"

fun receive_frames ::
    "'s socket_calls \<Rightarrow> fd \<Rightarrow> nat \<Rightarrow> 's \<Rightarrow> (u8 list \<times> fd list) list io_result \<times> 's" where
  "receive_frames k a 0 s = (Inr [], s)"
| "receive_frames k a (Suc n) s =
     (case receive_raw_message k a s of
        (Inl e, s1) \<Rightarrow> (Inl e, s1)
      | (Inr f, s1) \<Rightarrow>
          (case receive_frames k a n s1 of
             (Inl e, s2) \<Rightarrow> (Inl e, s2)
           | (Inr fs, s2) \<Rightarrow> (Inr (f # fs), s2)))"

definition small_frame :: "u8 list \<times> fd list \<Rightarrow> bool" where
  "small_frame f \<longleftrightarrow> length (fst f) < 2 ^ 64 \<and> length (snd f) < 2 ^ 64"

definition as_pending :: "u8 list \<times> fd list \<Rightarrow> u8 list \<times> fd list" where
  "as_pending f = (frame_bytes (fst f) (snd f), snd f)"

section \<open>Interfaces\<close>

definition rights :: "fd list \<Rightarrow> Ancillary list" where
  "rights fds = (if fds = [] then [] else [ScmRights fds])"

locale unix_sockets =
  fixes k :: "'s socket_calls"
    and pending :: "'s \<Rightarrow> fd \<Rightarrow> (u8 list \<times> fd list) list"
    and peer :: "'s \<Rightarrow> fd \<Rightarrow> fd"
    and socks :: "'s \<Rightarrow> fd set"
    and eof :: "'s \<Rightarrow> fd \<Rightarrow> bool"
  assumes send_law: "sendmsg k a bs fds s = (Inr (length bs), s') \<Longrightarrow>
      pending s' = (pending s)(peer s a := pending s (peer s a) @ [(bs, fds)]) \<and>
      peer s' = peer s \<and> socks s' = socks s"
    and peek_law: "pending s a = (bs, fds) # rest \<Longrightarrow> n \<le> length bs \<Longrightarrow>
      \<exists>anc. recvmsg k a n 0 True s = (Inr (take n bs, anc), s)"
    and recv_law: "pending s a = (bs, fds) # rest \<Longrightarrow>
      \<exists>s'. recvmsg k a (length bs) (length fds) False s = (Inr (bs, rights fds), s') \<and>
        pending s' = (pending s)(a := rest) \<and> peer s' = peer s \<and> socks s' = socks s"
    and eof_law: "pending s a = [] \<Longrightarrow> eof s a \<Longrightarrow> recvmsg k a n cap pk s = (Inr ([], []), s)"
    and short_law: "pending s a = [(bs, fds)] \<Longrightarrow> eof s a \<Longrightarrow> length bs < n \<Longrightarrow>
      \<exists>anc. recvmsg k a n 0 True s = (Inr (bs, anc), s)"
    and pair_law: "socketpair k s = (Inr (p, c), s') \<Longrightarrow>
      p \<noteq> c \<and> p \<notin> socks s \<and> c \<notin> socks s \<and> socks s' = socks s \<union> {p, c} \<and>
      pending s' = (pending s)(p := [], c := []) \<and> peer s' = (peer s)(p := c, c := p)"
    and close_law: "a \<noteq> x \<Longrightarrow> pending (close_fd k x s) a = pending s a"
      "peer (close_fd k x s) = peer s" "socks (close_fd k x s) = socks s"
    and peer_socks: "a \<in> socks s \<Longrightarrow> peer s a \<in> socks s"
begin

lemma drop_fds_keeps:
  "a \<notin> set fds \<Longrightarrow> pending (drop_fds k fds s) a = pending s a"
  "peer (drop_fds k fds s) = peer s" "socks (drop_fds k fds s) = socks s"
  by (induction fds arbitrary: s) (auto simp: drop_fds_def close_law)

lemma recv_retry_peek:
  assumes "pending s a = (bs, fds) # rest" "0 < n" "n \<le> length bs"
  shows "\<exists>anc. recv_retry k a n 0 True s = (Inr (take n bs, anc), s)"
proof -
  obtain anc where "recvmsg k a n 0 True s = (Inr (take n bs, anc), s)"
    using peek_law [OF assms(1,3)] by blast
  moreover have "take n bs \<noteq> []" using assms by auto
  ultimately show ?thesis by (auto simp: recv_retry_def)
qed

lemma recv_retry_frame:
  assumes "pending s a = (bs, fds) # rest" "bs \<noteq> []"
  shows "\<exists>s'. recv_retry k a (length bs) (length fds) False s = (Inr (bs, rights fds), s') \<and>
    pending s' = (pending s)(a := rest) \<and> peer s' = peer s \<and> socks s' = socks s"
  using recv_law [OF assms(1)] assms(2) by (auto simp: recv_retry_def)

lemma collect_rights_rights [simp]: "collect_rights (rights fds) = Inr fds"
  by (simp add: rights_def)

lemma receive_frame:
  assumes pend: "pending s a = (frame_bytes buffer fds, fds) # rest"
    and small: "length buffer < 2 ^ 64" "length fds < 2 ^ 64"
  shows "\<exists>s'. receive_raw_message k a s = (Inr (buffer, fds), s') \<and>
    pending s' = (pending s)(a := rest) \<and> peer s' = peer s \<and> socks s' = socks s"
proof -
  let ?f = "frame_bytes buffer fds"
  have len: "length ?f = 16 + length buffer" by (rule length_frame_bytes)
  obtain anc where hdr: "recv_retry k a 16 0 True s = (Inr (take 16 ?f, anc), s)"
    using recv_retry_peek [OF pend, of 16] len by auto
  obtain s' where body: "recv_retry k a (16 + length buffer) (length fds) False s =
        (Inr (?f, rights fds), s')"
    and s': "pending s' = (pending s)(a := rest)" "peer s' = peer s" "socks s' = socks s"
    using recv_retry_frame [OF pend] len by (metis length_0_conv add_is_0 zero_neq_numeral)
  have "receive_raw_message k a s = (Inr (buffer, fds), s')"
    using hdr body len frame_header [OF small] by (simp add: receive_raw_message_def Let_def)
  then show ?thesis using s' by blast
qed

lemma send_frame:
  assumes "send_raw_message k a buffer fds s = (Inr (), s')"
  shows "\<exists>s1. s' = drop_fds k fds s1 \<and>
    pending s1 = (pending s)(peer s a := pending s (peer s a) @ [(frame_bytes buffer fds, fds)]) \<and>
    peer s1 = peer s \<and> socks s1 = socks s"
  using assms send_law [of a "frame_bytes buffer fds" fds s]
  by (auto simp: send_raw_message_def split: prod.splits sum.splits if_splits)

text \<open>At the end of the stream the receiver sees a broken pipe and the iterator ends.\<close>

lemma receive_eof:
  assumes "pending s a = []" "eof s a"
  shows "receive_raw_message k a s = (Inl (Custom BrokenPipe), s)"
  using eof_law [OF assms] by (simp add: receive_raw_message_def recv_retry_def)

lemma iterator_eof:
  assumes "pending s a = []" "eof s a"
  shows "ReplyIterator_next k cd a s = (None, s)"
  using receive_eof [OF assms] by (simp add: ReplyIterator_next_def)

text \<open>A stream that ends inside a header is reported, and nothing of it is consumed.\<close>

lemma receive_truncated:
  assumes "pending s a = [(bs, fds)]" "eof s a" "bs \<noteq> []" "length bs < 16"
  shows "receive_raw_message k a s = (Inl (Custom UnexpectedEof), s)"
  using short_law [OF assms(1,2,4)] assms(3,4)
  by (auto simp: receive_raw_message_def recv_retry_def)

lemma send_frames_pending:
  assumes "send_frames k a fs s = Some s'"
    and "peer s a \<notin> \<Union> (set (map (set \<circ> snd) fs))"
  shows "pending s' (peer s a) = pending s (peer s a) @ map as_pending fs \<and> peer s' = peer s"
  using assms
proof (induction fs arbitrary: s)
  case Nil
  then show ?case by simp
next
  case (Cons f fs)
  obtain buffer fds where f: "f = (buffer, fds)" by (cases f)
  with Cons.prems obtain s1 where s1: "send_raw_message k a buffer fds s = (Inr (), s1)"
    and run: "send_frames k a fs s1 = Some s'"
    by (auto split: prod.splits sum.splits)
  have now: "pending s1 (peer s a) = pending s (peer s a) @ [as_pending f]" "peer s1 = peer s"
    using send_frame [OF s1] Cons.prems(2) f by (auto simp: as_pending_def drop_fds_keeps)
  then show ?case
    using Cons.IH [OF run] Cons.prems(2) by auto
qed

lemma receive_frames_pending:
  assumes "pending s a = map as_pending fs @ rest" and "list_all small_frame fs"
  shows "\<exists>s'. receive_frames k a (length fs) s = (Inr fs, s') \<and> pending s' = (pending s)(a := rest)"
  using assms
proof (induction fs arbitrary: s)
  case Nil
  then show ?case by (auto simp: fun_upd_idem)
next
  case (Cons f fs)
  then have pend: "pending s a = (frame_bytes (fst f) (snd f), snd f) # map as_pending fs @ rest"
    and small: "length (fst f) < 2 ^ 64" "length (snd f) < 2 ^ 64"
    by (auto simp: as_pending_def small_frame_def)
  obtain s1 where s1: "receive_raw_message k a s = (Inr f, s1)"
    "pending s1 = (pending s)(a := map as_pending fs @ rest)"
    using receive_frame [OF pend small] by auto
  then have here: "pending s1 a = map as_pending fs @ rest" by simp
  have later: "list_all small_frame fs" using Cons.prems(2) by simp
  obtain s2 where s2: "receive_frames k a (length fs) s1 = (Inr fs, s2)"
    "pending s2 = (pending s1)(a := rest)"
    using Cons.IH [OF here later] by blast
  have "pending s2 = (pending s)(a := rest)" using s1(2) s2(2) by simp
  moreover have "receive_frames k a (length (f # fs)) s = (Inr (f # fs), s2)"
    using s1(1) s2(1) by simp
  ultimately show ?case by blast
qed

end

locale codec_api =
  fixes cd :: "'p codec" and valid :: "'p \<Rightarrow> bool"
  assumes enc_dec: "valid p \<Longrightarrow> \<exists>bs. enc cd p = Some bs \<and> dec cd bs = Some p \<and> length bs < 2 ^ 32"

text \<open>The transport as its clients see it: sockets, two codecs and a request type.\<close>

locale rpc_channel =
  unix_sockets k pending peer socks eof + req: codec_api cd valid + rep: codec_api rcd rvalid +
  serializable ser deser
  for k :: "'s socket_calls" and pending peer socks eof
    and cd :: "'p codec" and valid and rcd :: "(errno + 'v) codec" and rvalid
    and ser :: "'r \<Rightarrow> 'p \<times> fd list" and deser
begin

lemma request_delivered:
  assumes sent: "send_request_iter_with_fds k cd ser a req s = (Inr one, s1)"
    and ser: "ser req = (p, fds)" "valid p"
    and idle: "a \<in> socks s" "pending s (peer s a) = []"
    and files: "set fds \<inter> socks s1 = {}" "length fds < 2 ^ 32"
  shows "\<exists>child s2. receive_request k cd deser (peer s a) s1 = (Inr (req, child), s2) \<and>
    peer s2 child = one \<and> pending s2 one = [] \<and> one \<noteq> child \<and> {one, child} \<subseteq> socks s2"
proof -
  obtain bs where bs: "enc cd p = Some bs" "dec cd bs = Some p" "length bs < 2 ^ 32"
    using req.enc_dec ser(2) by blast
  obtain child s0 where pair: "socketpair k s = (Inr (one, child), s0)"
    and raw: "send_raw_message k a bs (child # fds) s0 = (Inr (), s1)"
    using sent ser(1) bs(1)
    by (auto simp: send_request_iter_with_fds_def split: prod.splits sum.splits)
  note pl = pair_law [OF pair]
  have to: "peer s a \<in> socks s" "peer s0 a = peer s a" "peer s a \<noteq> one" "peer s a \<noteq> child"
    using pl idle(1) peer_socks [OF idle(1)] by auto
  obtain u where u: "s1 = drop_fds k (child # fds) u"
    "pending u = (pending s0)(peer s a := pending s0 (peer s a) @
       [(frame_bytes bs (child # fds), child # fds)])"
    "peer u = peer s0" "socks u = socks s0"
    using send_frame [OF raw] to(2) by auto
  have socks: "socks s1 = socks s \<union> {one, child}" and peer1: "peer s1 = peer s0"
    using u pl by (simp_all add: drop_fds_keeps)
  have pend: "pending s1 (peer s a) = [(frame_bytes bs (child # fds), child # fds)]"
    and quiet: "pending s1 one = []"
  proof -
    have kept: "peer s a \<notin> set (child # fds)" "one \<notin> set (child # fds)"
      using to files(1) pl unfolding socks by auto
    have before: "pending s0 (peer s a) = []" "pending s0 one = []"
      using pl to(3,4) idle(2) by auto
    show "pending s1 (peer s a) = [(frame_bytes bs (child # fds), child # fds)]"
      using drop_fds_keeps(1) [OF kept(1)] before(1) unfolding u(1,2) by (simp only: u(2) fun_upd_same append_Nil)
    show "pending s1 one = []"
      using drop_fds_keeps(1) [OF kept(2)] before(2) to(3) unfolding u(1) by (simp only: u(2) fun_upd_def) simp
  qed
  have small: "length bs < 2 ^ 64" "length (child # fds) < 2 ^ 64"
    using bs(3) files(2) by simp_all
  obtain s2 where s2: "receive_raw_message k (peer s a) s1 = (Inr (bs, child # fds), s2)"
    "pending s2 = (pending s1)(peer s a := [])" "peer s2 = peer s1" "socks s2 = socks s1"
    using receive_frame [OF pend small] by blast
  have "receive_request k cd deser (peer s a) s1 = (Inr (req, child), s2)"
    using s2(1) bs(2) ser(1) deser_ser [of req] by (simp add: receive_request_def)
  moreover have "peer s2 child = one" "pending s2 one = []" "one \<noteq> child" "{one, child} \<subseteq> socks s2"
    using s2(2-4) quiet to(3) pl peer1 socks by simp_all
  ultimately show ?thesis by blast
qed

lemma reply_delivered:
  assumes "peer s child = one" "pending s one = q" "one \<notin> set fds" "length fds < 2 ^ 64"
    and "rvalid m" "enc rcd m = Some data" "send_raw_message k child data fds s = (Inr (), s1)"
  shows "reply_with_fds k rcd (RawReply child) m fds s = s1 \<and>
    pending s1 one = q @ [as_pending (data, fds)] \<and> small_frame (data, fds) \<and> dec rcd data = Some m"
proof -
  have "dec rcd data = Some m" "length data < 2 ^ 32"
    using rep.enc_dec [OF assms(5)] assms(6) by auto
  then show ?thesis
    using send_frame [OF assms(7)] assms
    by (auto simp: reply_with_fds_def RawReply_reply_def as_pending_def small_frame_def drop_fds_keeps)
qed

lemma iterator_next:
  assumes "pending s one = as_pending (data, fds) # rest" "small_frame (data, fds)"
    and "dec rcd data = Some (Inr v)"
  shows "\<exists>s'. ReplyIterator_next k rcd one s = (Some (Inr (Inr (v, fds))), s') \<and>
    pending s' = (pending s)(one := rest)"
  using receive_frame [of s one data fds rest] assms
  by (auto simp: ReplyIterator_next_def as_pending_def small_frame_def)

lemma iterator_next_error:
  assumes "pending s one = as_pending (data, []) # rest" "small_frame (data, [])"
    and "dec rcd data = Some (Inl e)"
  shows "\<exists>s'. ReplyIterator_next k rcd one s = (Some (Inr (Inl (Os e))), s') \<and>
    pending s' = (pending s)(one := rest)"
  using receive_frame [of s one data "[]" rest] assms
  by (auto simp: ReplyIterator_next_def as_pending_def small_frame_def drop_fds_def)

end

end
