(* ===== verification/Kernel_Instances.thy ===== *)
theory Kernel_Instances
  imports Transport
begin

text \<open>
  Concrete functions for the two parameters of the transport, used where a statement has to be
  evaluated: message queues that behave as \<open>unix_sockets\<close> asks, and the documented default
  format of bincode 1 (fixed-width little-endian integers, 32-bit variant indices, trailing
  bytes ignored) for the payloads and replies of an owner process.
\<close>

section \<open>Sockets as queues\<close>

text \<open>Pair number \<open>i\<close> consists of the endpoints \<open>2 * i\<close> and \<open>2 * i + 1\<close>.\<close>

record queue_kernel =
  queues :: "fd \<Rightarrow> (u8 list \<times> fd list) list"
  pairs :: nat

definition queue_peer :: "fd \<Rightarrow> fd" where
  "queue_peer a = (if even a then a + 1 else a - 1)"

definition queue_recvmsg ::
    "fd \<Rightarrow> nat \<Rightarrow> nat \<Rightarrow> bool \<Rightarrow> queue_kernel \<Rightarrow> (errno + u8 list \<times> Ancillary list) \<times> queue_kernel" where
  "queue_recvmsg a n cap peek s =
     (case queues s a of
        [] \<Rightarrow> (Inr ([], []), s)
      | (bs, fds) # rest \<Rightarrow>
          if peek then (Inr (take n bs, []), s)
          else (Inr (take n bs, rights (take cap fds)),
                s\<lparr>queues := (queues s)(a := if n < length bs then (drop n bs, []) # rest else rest)\<rparr>))"

definition queue_sendmsg ::
    "fd \<Rightarrow> u8 list \<Rightarrow> fd list \<Rightarrow> queue_kernel \<Rightarrow> (errno + nat) \<times> queue_kernel" where
  "queue_sendmsg a bs fds s =
     (Inr (length bs),
      s\<lparr>queues := (queues s)(queue_peer a := queues s (queue_peer a) @ [(bs, fds)])\<rparr>)"

definition queue_socketpair :: "queue_kernel \<Rightarrow> (errno + fd \<times> fd) \<times> queue_kernel" where
  "queue_socketpair s =
     (Inr (2 * pairs s, 2 * pairs s + 1),
      \<lparr>queues = (queues s)(2 * pairs s := [], 2 * pairs s + 1 := []), pairs = Suc (pairs s)\<rparr>)"

definition queue_sockets :: "queue_kernel socket_calls" where
  "queue_sockets = \<lparr>recvmsg = queue_recvmsg, sendmsg = queue_sendmsg,
     socketpair = queue_socketpair, close_fd = (\<lambda>_ s. s)\<rparr>"

definition queue_init :: queue_kernel where
  "queue_init = \<lparr>queues = (\<lambda>_. []), pairs = 1\<rparr>"

lemmas queue_defs = queue_sockets_def queue_recvmsg_def queue_sendmsg_def queue_socketpair_def

lemma queue_peer_pair: "queue_peer(2 * n := 2 * n + 1, 2 * n + 1 := 2 * n) = queue_peer"
  by (rule ext) (auto simp: queue_peer_def)

lemma queue_peer_less: "a < 2 * n \<Longrightarrow> queue_peer a < 2 * n"
  unfolding queue_peer_def by (cases "even a") (auto elim!: evenE oddE)

interpretation queue: unix_sockets queue_sockets queues "\<lambda>_. queue_peer"
  "\<lambda>s. {..< 2 * pairs s}" "\<lambda>_ _. True"
proof unfold_locales
  fix s s' :: queue_kernel and p c
  assume "socketpair queue_sockets s = (Inr (p, c), s')"
  then show "p \<noteq> c \<and> p \<notin> {..< 2 * pairs s} \<and> c \<notin> {..< 2 * pairs s} \<and>
      {..< 2 * pairs s'} = {..< 2 * pairs s} \<union> {p, c} \<and>
      queues s' = (queues s)(p := [], c := []) \<and> queue_peer = queue_peer(p := c, c := p)"
    using queue_peer_pair [of "pairs s"] by (auto simp: queue_defs)
qed (auto simp: queue_defs queue_peer_less rights_def fun_upd_def)

section \<open>Bincode\<close>

definition get_word :: "nat \<Rightarrow> u8 list \<Rightarrow> ('a::len word \<times> u8 list) option" where
  "get_word n bs = (if length bs < n then None else Some (from_le_bytes (take n bs), drop n bs))"

fun action_tag :: "LockAction \<Rightarrow> u32" where
  "action_tag SetLockNonBlocking = 0" | "action_tag SetLockBlocking = 1" | "action_tag GetLockStatus = 2"

fun type_tag :: "LockType \<Rightarrow> u32" where
  "type_tag Read = 0" | "type_tag Write = 1" | "type_tag Unlock = 2"

fun whence_tag :: "LockWhence \<Rightarrow> u32" where
  "whence_tag Start = 0" | "whence_tag Current = 1" | "whence_tag End = 2"

definition of_tag :: "(u32 \<times> 'a) list \<Rightarrow> u8 list \<Rightarrow> ('a \<times> u8 list) option" where
  "of_tag tags bs =
     Option.bind (get_word 4 bs) (\<lambda>(t, rest). map_option (\<lambda>x. (x, rest)) (map_of tags t))"

definition put_params :: "LockParams \<Rightarrow> u8 list" where
  "put_params p = to_le_bytes 4 (type_tag (lock_type p)) @ to_le_bytes 4 (whence_tag (whence p)) @
     to_le_bytes 8 (start p) @ to_le_bytes 8 (len p) @ to_le_bytes 4 (pid p)"

definition get_params :: "u8 list \<Rightarrow> (LockParams \<times> u8 list) option" where
  "get_params bs =
     Option.bind (of_tag [(0, Read), (1, Write), (2, Unlock)] bs) (\<lambda>(ty, b1).
     Option.bind (of_tag [(0, Start), (1, Current), (2, End)] b1) (\<lambda>(wh, b2).
     Option.bind (get_word 8 b2) (\<lambda>(st, b3).
     Option.bind (get_word 8 b3) (\<lambda>(ln, b4).
     Option.bind (get_word 4 b4) (\<lambda>(pd, b5).
     Some (\<lparr>lock_type = ty, whence = wh, start = st, len = ln, pid = pd\<rparr>, b5))))))"

fun put_raw :: "RawMessage \<Rightarrow> u8 list" where
  "put_raw RawMessage_Ping = to_le_bytes 4 (0 :: u32)"
| "put_raw (RawMessage_Interrupt i) = to_le_bytes 4 (1 :: u32) @ to_le_bytes 8 i"
| "put_raw (RawMessage_RemoveInterrupt i) = to_le_bytes 4 (2 :: u32) @ to_le_bytes 8 i"
| "put_raw RawMessage_Register = to_le_bytes 4 (3 :: u32)"
| "put_raw (RawMessage_Unregister i) = to_le_bytes 4 (4 :: u32) @ to_le_bytes 8 i"
| "put_raw (RawMessage_LockCommand i a p) =
     to_le_bytes 4 (5 :: u32) @ to_le_bytes 8 i @ to_le_bytes 4 (action_tag a) @ put_params p"

definition get_raw :: "u8 list \<Rightarrow> RawMessage option" where
  "get_raw bs =
     Option.bind (get_word 4 bs) (\<lambda>(t :: u32, b).
       if t = 0 then Some RawMessage_Ping
       else if t = 1 then map_option (RawMessage_Interrupt \<circ> fst) (get_word 8 b)
       else if t = 2 then map_option (RawMessage_RemoveInterrupt \<circ> fst) (get_word 8 b)
       else if t = 3 then Some RawMessage_Register
       else if t = 4 then map_option (RawMessage_Unregister \<circ> fst) (get_word 8 b)
       else if t = 5 then
         Option.bind (get_word 8 b) (\<lambda>(i, b1).
         Option.bind (of_tag [(0, SetLockNonBlocking), (1, SetLockBlocking), (2, GetLockStatus)] b1)
           (\<lambda>(a, b2). map_option (RawMessage_LockCommand i a \<circ> fst) (get_params b2)))
       else None)"

definition raw_codec :: "RawMessage codec" where
  "raw_codec = \<lparr>enc = Some \<circ> put_raw, dec = get_raw\<rparr>"

definition result_codec :: "('v \<Rightarrow> u8 list) \<Rightarrow> (u8 list \<Rightarrow> 'v option) \<Rightarrow> (errno + 'v) codec" where
  "result_codec put get =
     \<lparr>enc = (\<lambda>m. Some (case m of Inr v \<Rightarrow> to_le_bytes 4 (0 :: u32) @ put v
                              | Inl e \<Rightarrow> to_le_bytes 4 (1 :: u32) @ to_le_bytes 4 e)),
      dec = (\<lambda>bs. Option.bind (get_word 4 bs) (\<lambda>(t :: u32, b).
        if t = 0 then map_option Inr (get b)
        else if t = 1 then map_option (Inl \<circ> fst) (get_word 4 b) else None))\<rparr>"

definition unit_codec :: "(errno + unit) codec" where
  "unit_codec = result_codec (\<lambda>_. []) (\<lambda>_. Some ())"

definition u64_codec :: "(errno + u64) codec" where
  "u64_codec = result_codec (to_le_bytes 8) (map_option fst \<circ> get_word 8)"

fun put_reply_data :: "ReplyLockCommandData \<Rightarrow> u8 list" where
  "put_reply_data (Pending i) = to_le_bytes 4 (0 :: u32) @ to_le_bytes 8 i"
| "put_reply_data (Done p) = to_le_bytes 4 (1 :: u32) @ put_params p"

definition get_reply_data :: "u8 list \<Rightarrow> ReplyLockCommandData option" where
  "get_reply_data bs =
     Option.bind (get_word 4 bs) (\<lambda>(t :: u32, b).
       if t = 0 then map_option (Pending \<circ> fst) (get_word 8 b)
       else if t = 1 then map_option (Done \<circ> fst) (get_params b) else None)"

definition lock_codec :: "(errno + ReplyLockCommandData) codec" where
  "lock_codec = result_codec put_reply_data get_reply_data"

lemma get_word_put [simp]:
  "get_word 4 (to_le_bytes 4 (w :: 32 word) @ rest) = Some (w, rest)"
  "get_word 8 (to_le_bytes 8 (v :: 64 word) @ rest) = Some (v, rest)"
  "get_word 4 (to_le_bytes 4 (w :: 32 word)) = Some (w, [])"
  "get_word 8 (to_le_bytes 8 (v :: 64 word)) = Some (v, [])"
  by (simp_all add: get_word_def from_to_le_bytes take_bit_word_eq_self)

lemma of_tag_put [simp]:
  "of_tag tags (to_le_bytes 4 t @ rest) = map_option (\<lambda>x. (x, rest)) (map_of tags t)"
  by (simp add: of_tag_def)

lemma get_put_params [simp]:
  "get_params (put_params p @ rest) = Some (p, rest)" "get_params (put_params p) = Some (p, [])"
proof -
  show gen: "get_params (put_params p @ rest) = Some (p, rest)" for rest
    by (cases "lock_type p"; cases "whence p") (simp_all add: get_params_def put_params_def)
  show "get_params (put_params p) = Some (p, [])" using gen [of "[]"] by simp
qed

lemma length_put_params [simp]: "length (put_params p) = 28"
  by (simp add: put_params_def)

interpretation raw: codec_api raw_codec "\<lambda>_. True"
proof unfold_locales
  fix m :: RawMessage
  have "get_raw (put_raw m) = Some m"
  proof (cases m)
    case (RawMessage_LockCommand i a p)
    then show ?thesis by (cases a) (simp_all add: get_raw_def)
  qed (simp_all add: get_raw_def)
  moreover have "length (put_raw m) < 2 ^ 32" by (cases m) simp_all
  ultimately show "\<exists>bs. enc raw_codec m = Some bs \<and> dec raw_codec bs = Some m \<and> length bs < 2 ^ 32"
    by (simp add: raw_codec_def)
qed

lemma result_codec_ok:
  assumes "\<And>v. get (put v) = Some v" "\<And>v. length (put v) < 1000"
  shows "codec_api (result_codec put get) (\<lambda>_. True)"
proof unfold_locales
  fix m :: "errno + 'a"
  show "\<exists>bs. enc (result_codec put get) m = Some bs \<and> dec (result_codec put get) bs = Some m \<and>
      length bs < 2 ^ 32"
    using assms(1) assms(2) [of "projr m"]
    by (cases m) (simp_all add: result_codec_def)
qed

interpretation unit_reply: codec_api unit_codec "\<lambda>_. True"
  unfolding unit_codec_def by (rule result_codec_ok) simp_all

interpretation u64_reply: codec_api u64_codec "\<lambda>_. True"
  unfolding u64_codec_def by (rule result_codec_ok) simp_all

interpretation lock_reply: codec_api lock_codec "\<lambda>_. True"
  unfolding lock_codec_def
proof (rule result_codec_ok)
  fix v show "get_reply_data (put_reply_data v) = Some v"
    by (cases v) (simp_all add: get_reply_data_def)
  show "length (put_reply_data v) < 1000"
    by (cases v) simp_all
qed

text \<open>The channel between a client and its owner process.\<close>

interpretation owner_channel: rpc_channel queue_sockets queues "\<lambda>_. queue_peer"
  "\<lambda>s. {..< 2 * pairs s}" "\<lambda>_ _. True" raw_codec "\<lambda>_. True" lock_codec "\<lambda>_. True"
  Message_serialize Message_deserialize
  by unfold_locales

lemma queue_send:
  "\<exists>s'. send_raw_message queue_sockets a buffer fds s = (Inr (), s') \<and> pairs s' = pairs s \<and>
     (\<forall>b. b \<noteq> queue_peer a \<longrightarrow> queues s' b = queues s b)"
proof -
  have "drop_fds queue_sockets fds u = u" for u
    by (induction fds) (simp_all add: drop_fds_def queue_sockets_def)
  then show ?thesis
    by (simp add: send_raw_message_def queue_sockets_def queue_sendmsg_def)
qed

lemma queue_request_codec:
  assumes "enc cd (fst (ser req)) \<noteq> None"
  shows "\<exists>s'. send_request_iter_with_fds queue_sockets cd ser a req s = (Inr (2 * pairs s), s') \<and>
     pairs s' = Suc (pairs s) \<and> (a < 2 * pairs s \<longrightarrow> queues s' (2 * pairs s) = [])"
proof -
  obtain p fds where ser: "ser req = (p, fds)" by (cases "ser req")
  then obtain bs where bs: "enc cd p = Some bs" using assms by auto
  define u where "u = snd (queue_socketpair s)"
  have u: "socketpair queue_sockets s = (Inr (2 * pairs s, 2 * pairs s + 1), u)"
    "pairs u = Suc (pairs s)" "queues u (2 * pairs s) = []"
    by (simp_all add: u_def queue_sockets_def queue_socketpair_def)
  obtain s' where s': "send_raw_message queue_sockets a bs ((2 * pairs s + 1) # fds) u =
      (Inr (), s')" "pairs s' = pairs u" "\<forall>b. b \<noteq> queue_peer a \<longrightarrow> queues s' b = queues u b"
    using queue_send by blast
  have "a < 2 * pairs s \<Longrightarrow> 2 * pairs s \<noteq> queue_peer a"
    using queue_peer_less [of a "pairs s"] by simp
  then show ?thesis
    using ser bs u s' by (auto simp: send_request_iter_with_fds_def)
qed

lemma queue_request:
  "\<exists>s'. send_request_iter_with_fds queue_sockets raw_codec ser a req s = (Inr (2 * pairs s), s') \<and>
     pairs s' = Suc (pairs s) \<and> (a < 2 * pairs s \<longrightarrow> queues s' (2 * pairs s) = [])"
  by (rule queue_request_codec) (simp add: raw_codec_def)

section \<open>Properties of the transport\<close>

text \<open>
  Property C15. Frames are delivered in order, complete and exactly once: whatever sequence of
  frames one end sends into an idle connection, receiving as many frames at the other end returns
  exactly that sequence, payloads and descriptors, and leaves nothing behind.
\<close>

theorem frames_in_order:
  assumes "unix_sockets k pending peer socks eof"
    and "send_frames k a fs s = Some s'" and "pending s (peer s a) = []"
    and "peer s a \<notin> \<Union> (set (map (set \<circ> snd) fs))" and "list_all small_frame fs"
  shows "\<exists>s''. receive_frames k (peer s a) (length fs) s' = (Inr fs, s'') \<and>
    pending s'' (peer s a) = []"
proof -
  have "pending s' (peer s a) = map as_pending fs @ []"
    using unix_sockets.send_frames_pending [OF assms(1,2,4)] assms(3) by simp
  from unix_sockets.receive_frames_pending [OF assms(1) this assms(5)]
  obtain s'' where "receive_frames k (peer s a) (length fs) s' = (Inr fs, s'')"
    and "pending s'' = (pending s')(peer s a := [])" by blast
  then show ?thesis by auto
qed

theorem frames_in_order_witness:
  "\<exists>s' s''. send_frames queue_sockets 0 [([1], []), ([2, 3], [50])] queue_init = Some s' \<and>
     receive_frames queue_sockets 1 2 s' = (Inr [([1], []), ([2, 3], [50])], s'')"
proof -
  let ?fs = "[([1], []), ([2, 3], [50])] :: (u8 list \<times> fd list) list"
  have p: "queue_peer 0 = 1" by (simp add: queue_peer_def)
  obtain s' where s': "send_frames queue_sockets 0 ?fs queue_init = Some s'"
  proof -
    obtain u where u: "send_raw_message queue_sockets 0 [1] [] queue_init = (Inr (), u)"
      using queue_send by blast
    obtain v where "send_raw_message queue_sockets 0 [2, 3] [50] u = (Inr (), v)"
      using queue_send by blast
    with u that show ?thesis by simp
  qed
  have "\<exists>s''. receive_frames queue_sockets (queue_peer 0) (length ?fs) s' =
      (Inr ?fs, s'') \<and> queues s'' (queue_peer 0) = []"
    by (rule frames_in_order [OF queue.unix_sockets_axioms s'])
      (simp_all add: p queue_init_def small_frame_def)
  then show ?thesis using s' by (auto simp: p numeral_2_eq_2)
qed



text \<open>
  When the other side has closed the connection, a request that waits for its reply
  ends with an error of kind \<^verbatim>\<open>BrokenPipe\<close>; no reply is made up and the call does not hang.
\<close>

lemma closed_connection_broken_pipe:
  assumes "unix_sockets k pending peer socks eof"
    and "send_request_iter_with_fds k cd ser a req s = (Inr one, s1)"
    and "pending s1 one = []" "eof s1 one"
  shows "\<exists>e s2. send_request k cd rcd ser a req s = (Inl e, s2) \<and> kind e = BrokenPipe"
  using unix_sockets.iterator_eof [OF assms(1,3,4), of rcd] assms(2)
  by (simp add: send_request_def send_request_with_fds_def first_reply_def discard_fds_def)

end
