(* ===== verification/Client.thy ===== *)
theory Client
  imports Kernel_Instances Signal_Guard Tracker
begin

text \<open>
  The client side of an owner process (\<^verbatim>\<open>src/owner.rs\<close> lines 456 to 732): registering a file,
  the three lock operations of a \<^verbatim>\<open>Lockable\<close>, the drop actions, and the detached variant of the
  blocking lock with its callbacks.

  A function takes the state \<open>t\<close> of the calling thread (its signal mask) and the state \<open>s\<close> of the
  kernel's sockets and returns both. The sockets and the codecs are the parameter \<open>env\<close>. The
  mutex around the communication socket is held while a request is sent and is not modelled.
  The blocking lock waits in a loop that may run forever, so it is a partial function.
\<close>

section \<open>Data\<close>

record OwnerInner =
  communication :: fd

record Owner =
  owner_inner :: OwnerInner

record RawLockable =
  lockable_owner :: OwnerInner
  lockable_id :: u64

record Lockable =
  raw_lockable :: RawLockable

record Interruptable =
  interrupt_lockable :: RawLockable
  interruptable_id :: u64

record 's client_env =
  net :: "'s socket_calls"
  dup_fd :: "fd \<Rightarrow> 's \<Rightarrow> (errno + fd) \<times> 's"
  req_cd :: "RawMessage codec"
  unit_cd :: "(errno + unit) codec"
  id_cd :: "(errno + u64) codec"
  lock_cd :: "(errno + ReplyLockCommandData) codec"

text \<open>The result of \<^verbatim>\<open>??\<close> on a fetched reply.\<close>

definition flatten :: "'v fetched \<Rightarrow> 'v io_result" where
  "flatten r = and_then r (\<lambda>x. x)"

section \<open>Drop actions\<close>

text \<open>Dropping a handle unregisters it; an error is logged.\<close>

definition Lockable_drop :: "'s client_env \<Rightarrow> Lockable \<Rightarrow> 's \<Rightarrow> 's" where
  "Lockable_drop env l s =
     snd (send_request (net env) (req_cd env) (unit_cd env) Unregister_serialize
       (communication (lockable_owner (raw_lockable l))) (Unregister (lockable_id (raw_lockable l))) s)"

definition Interruptable_drop :: "'s client_env \<Rightarrow> Interruptable \<Rightarrow> 's \<Rightarrow> 's" where
  "Interruptable_drop env i s =
     snd (send_request (net env) (req_cd env) (unit_cd env) RemoveInterrupt_serialize
       (communication (lockable_owner (interrupt_lockable i))) (RemoveInterrupt (interruptable_id i)) s)"

section \<open>Operations that do not wait\<close>

definition lock_request :: "RawLockable \<Rightarrow> LockAction \<Rightarrow> LockParams \<Rightarrow> LockCommand" where
  "lock_request l action params = LockCommand (lockable_id l) action params"

fun expect_done :: "ReplyLockCommandData \<Rightarrow> LockParams io_result" where
  "expect_done (Done params) = Inr params"
| "expect_done (Pending _) = Inl (Custom InvalidData)"

definition RawLockable_get_lock ::
    "'t sigmask_call \<Rightarrow> 's client_env \<Rightarrow> RawLockable \<Rightarrow> LockParams \<Rightarrow> 't \<Rightarrow> 's \<Rightarrow>
     LockParams io_result \<times> 't \<times> 's" where
  "RawLockable_get_lock pm env l params t s =
     (case block_all_signals pm t of
        (Inl e, t1) \<Rightarrow> (Inl e, t1, s)
      | (Inr restore, t1) \<Rightarrow>
          (case send_request (net env) (req_cd env) (lock_cd env) LockCommand_serialize
             (communication (lockable_owner l)) (lock_request l GetLockStatus params) s of
             (res, s1) \<Rightarrow> (and_then (flatten res) expect_done, SigSetGuard_drop pm restore t1, s1)))"

definition RawLockable_set_lock_nonblocking ::
    "'t sigmask_call \<Rightarrow> 's client_env \<Rightarrow> RawLockable \<Rightarrow> LockParams \<Rightarrow> 't \<Rightarrow> 's \<Rightarrow>
     LockParams io_result \<times> 't \<times> 's" where
  "RawLockable_set_lock_nonblocking pm env l params t s =
     (case block_all_signals pm t of
        (Inl e, t1) \<Rightarrow> (Inl e, t1, s)
      | (Inr restore, t1) \<Rightarrow>
          (case send_request (net env) (req_cd env) (lock_cd env) LockCommand_serialize
             (communication (lockable_owner l)) (lock_request l SetLockNonBlocking params) s of
             (res, s1) \<Rightarrow> (and_then (flatten res) expect_done, SigSetGuard_drop pm restore t1, s1)))"

text \<open>Registering sends a duplicate of the descriptor.\<close>

definition Owner_register ::
    "'t sigmask_call \<Rightarrow> 's client_env \<Rightarrow> Owner \<Rightarrow> fd \<Rightarrow> 't \<Rightarrow> 's \<Rightarrow> Lockable io_result \<times> 't \<times> 's" where
  "Owner_register pm env owner fd t s =
     (case block_all_signals pm t of
        (Inl e, t1) \<Rightarrow> (Inl e, t1, s)
      | (Inr restore, t1) \<Rightarrow>
          (case dup_fd env fd s of
             (Inl e, s1) \<Rightarrow> (Inl (Os e), SigSetGuard_drop pm restore t1, s1)
           | (Inr cloned, s1) \<Rightarrow>
               (case send_request (net env) (req_cd env) (id_cd env) Register_serialize
                  (communication (owner_inner owner)) (Register cloned) s1 of
                  (res, s2) \<Rightarrow>
                    (and_then (flatten res) (\<lambda>new_id. Inr \<lparr>raw_lockable =
                        \<lparr>lockable_owner = owner_inner owner, lockable_id = new_id\<rparr>\<rparr>),
                     SigSetGuard_drop pm restore t1, s2))))"

definition Owner_ping ::
    "'t sigmask_call \<Rightarrow> 's client_env \<Rightarrow> Owner \<Rightarrow> 't \<Rightarrow> 's \<Rightarrow> unit io_result \<times> 't \<times> 's" where
  "Owner_ping pm env owner t s =
     (case block_all_signals pm t of
        (Inl e, t1) \<Rightarrow> (Inl e, t1, s)
      | (Inr restore, t1) \<Rightarrow>
          (case send_request (net env) (req_cd env) (unit_cd env) Ping_serialize
             (communication (owner_inner owner)) Ping s of
             (res, s1) \<Rightarrow> (flatten res, SigSetGuard_drop pm restore t1, s1)))"

section \<open>The blocking lock\<close>

text \<open>The next reply on the one-shot socket; descriptors that come with it are dropped.\<close>

definition iterator_next_item ::
    "'s client_env \<Rightarrow> fd \<Rightarrow> 's \<Rightarrow> ReplyLockCommandData fetched option \<times> 's" where
  "iterator_next_item env oneshot s =
     (case ReplyIterator_next (net env) (lock_cd env) oneshot s of
        (None, s1) \<Rightarrow> (None, s1)
      | (Some item, s1) \<Rightarrow> (case discard_fds (net env) item s1 of (r, s2) \<Rightarrow> (Some r, s2)))"

text \<open>Until it has been interrupted once, the caller waits with SIGUSR1 unblocked.\<close>

definition open_window ::
    "'t sigmask_call \<Rightarrow> bool \<Rightarrow> 't \<Rightarrow> SigSetGuard option io_result \<times> 't" where
  "open_window pm interrupted t =
     (if interrupted then (Inr None, t)
      else case unblock_signal pm SIGUSR1 t of
             (Inl e, t1) \<Rightarrow> (Inl e, t1)
           | (Inr g, t1) \<Rightarrow> (Inr (Some g), t1))"

definition close_window :: "'t sigmask_call \<Rightarrow> SigSetGuard option \<Rightarrow> 't \<Rightarrow> 't" where
  "close_window pm restore t = (case restore of None \<Rightarrow> t | Some g \<Rightarrow> SigSetGuard_drop pm g t)"

text \<open>One round of the waiting loop: it returns, or continues after an interrupt was passed on.\<close>

definition await_round ::
    "'t sigmask_call \<Rightarrow> 's client_env \<Rightarrow> Interruptable \<Rightarrow> fd \<Rightarrow> bool \<Rightarrow> 't \<Rightarrow> 's \<Rightarrow>
     (LockParams io_result \<times> 't \<times> 's) + ('t \<times> 's)" where
  "await_round pm env interruptable oneshot interrupted t s =
     (case open_window pm interrupted t of
        (Inl e, t1) \<Rightarrow> Inl (Inl e, t1, s)
      | (Inr restore, t1) \<Rightarrow>
          (case iterator_next_item env oneshot s of (next_item, s1) \<Rightarrow>
             let t2 = close_window pm restore t1
             in case next_item of
                  None \<Rightarrow> Inl (Inl (Custom BrokenPipe), t2, s1)
                | Some (Inr (Inr (Done params))) \<Rightarrow> Inl (Inr params, t2, s1)
                | Some (Inr (Inr (Pending _))) \<Rightarrow> Inl (Inl (Custom InvalidData), t2, s1)
                | Some (Inr (Inl e)) \<Rightarrow> Inl (Inl e, t2, s1)
                | Some (Inl e) \<Rightarrow>
                    if kind e = Interrupted
                    then (case send_request (net env) (req_cd env) (unit_cd env) Interrupt_serialize
                            (communication (lockable_owner (interrupt_lockable interruptable)))
                            (Interrupt (interruptable_id interruptable)) s1 of
                            (res, s2) \<Rightarrow>
                              (case flatten res of
                                 Inl e' \<Rightarrow> Inl (Inl e', t2, s2)
                               | Inr _ \<Rightarrow> Inr (t2, s2)))
                    else Inl (Inl e, t2, s1)))"

partial_function (option) await_lock ::
    "'t sigmask_call \<Rightarrow> 's client_env \<Rightarrow> Interruptable \<Rightarrow> fd \<Rightarrow> bool \<Rightarrow> 't \<Rightarrow> 's \<Rightarrow>
     (LockParams io_result \<times> 't \<times> 's) option" where
  "await_lock pm env interruptable oneshot interrupted t s =
     (case await_round pm env interruptable oneshot interrupted t s of
        Inl res \<Rightarrow> Some res
      | Inr (t', s') \<Rightarrow> await_lock pm env interruptable oneshot True t' s')"

text \<open>
  What follows the sending of the request: the first reply, and when it says that the lock is
  pending, the loop, after which the interrupt is removed. In the end the iterator is dropped.
\<close>

definition blocking_receive ::
    "'t sigmask_call \<Rightarrow> 's client_env \<Rightarrow> RawLockable \<Rightarrow> fd \<Rightarrow> 't \<Rightarrow> 's \<Rightarrow>
     (LockParams io_result \<times> 't \<times> 's) option" where
  "blocking_receive pm env l oneshot t s =
     (case iterator_next_item env oneshot s of
        (None, s1) \<Rightarrow> Some (Inl (Custom BrokenPipe), t, close_fd (net env) oneshot s1)
      | (Some r, s1) \<Rightarrow>
          (case flatten r of
             Inl e \<Rightarrow> Some (Inl e, t, close_fd (net env) oneshot s1)
           | Inr (Done params) \<Rightarrow> Some (Inr params, t, close_fd (net env) oneshot s1)
           | Inr (Pending pending_id) \<Rightarrow>
               (let interruptable = \<lparr>interrupt_lockable = l, interruptable_id = pending_id\<rparr>
                in map_option (\<lambda>(res, t2, s2).
                     (res, t2, close_fd (net env) oneshot (Interruptable_drop env interruptable s2)))
                     (await_lock pm env interruptable oneshot False t s1))))"

definition RawLockable_set_lock_blocking ::
    "'t sigmask_call \<Rightarrow> 's client_env \<Rightarrow> RawLockable \<Rightarrow> LockParams \<Rightarrow> 't \<Rightarrow> 's \<Rightarrow>
     (LockParams io_result \<times> 't \<times> 's) option" where
  "RawLockable_set_lock_blocking pm env l params t s =
     (case block_all_signals pm t of
        (Inl e, t1) \<Rightarrow> Some (Inl e, t1, s)
      | (Inr restore, t1) \<Rightarrow>
          (case send_request_iter_with_fds (net env) (req_cd env) LockCommand_serialize
             (communication (lockable_owner l)) (lock_request l SetLockBlocking params) s of
             (Inl e, s1) \<Rightarrow> Some (Inl e, SigSetGuard_drop pm restore t1, s1)
           | (Inr oneshot, s1) \<Rightarrow>
               map_option (\<lambda>(res, t2, s2). (res, SigSetGuard_drop pm restore t2, s2))
                 (blocking_receive pm env l oneshot t1 s1)))"

text \<open>The methods of the public handle.\<close>

definition Lockable_get_lock ::
    "'t sigmask_call \<Rightarrow> 's client_env \<Rightarrow> Lockable \<Rightarrow> LockParams \<Rightarrow> 't \<Rightarrow> 's \<Rightarrow>
     LockParams io_result \<times> 't \<times> 's" where
  "Lockable_get_lock pm env l params t s = RawLockable_get_lock pm env (raw_lockable l) params t s"

definition Lockable_set_lock_nonblocking ::
    "'t sigmask_call \<Rightarrow> 's client_env \<Rightarrow> Lockable \<Rightarrow> LockParams \<Rightarrow> 't \<Rightarrow> 's \<Rightarrow>
     LockParams io_result \<times> 't \<times> 's" where
  "Lockable_set_lock_nonblocking pm env l params t s =
     RawLockable_set_lock_nonblocking pm env (raw_lockable l) params t s"

definition Lockable_set_lock_blocking ::
    "'t sigmask_call \<Rightarrow> 's client_env \<Rightarrow> Lockable \<Rightarrow> LockParams \<Rightarrow> 't \<Rightarrow> 's \<Rightarrow>
     (LockParams io_result \<times> 't \<times> 's) option" where
  "Lockable_set_lock_blocking pm env l params t s =
     RawLockable_set_lock_blocking pm env (raw_lockable l) params t s"

section \<open>The detached blocking lock\<close>

text \<open>
  The invoker calls its callback at most once; the log records the calls. Dropping it calls the
  callback if it has not been called. A step of user code or of the lock operation may panic, and
  then the closure is dropped by unwinding.
\<close>

record Invoker =
  callback_left :: bool
  callback_log :: "LockParams io_result list"

datatype 'a outcome = Value 'a | Panic

definition Invoker_new :: Invoker where
  "Invoker_new = \<lparr>callback_left = True, callback_log = []\<rparr>"

definition invoke :: "LockParams io_result \<Rightarrow> Invoker \<Rightarrow> Invoker" where
  "invoke r i = (if callback_left i then \<lparr>callback_left = False, callback_log = callback_log i @ [r]\<rparr> else i)"

definition Invoker_drop :: "Invoker \<Rightarrow> Invoker" where
  "Invoker_drop i = invoke (Inl (Custom Other)) i"

text \<open>The closure, from its call to the drop of what it captured.\<close>

fun detached_body :: "unit io_result outcome \<Rightarrow> LockParams io_result outcome \<Rightarrow> Invoker \<Rightarrow> Invoker" where
  "detached_body Panic lock i = Invoker_drop i"
| "detached_body (Value (Inl e)) lock i = Invoker_drop (invoke (Inl e) i)"
| "detached_body (Value (Inr _)) Panic i = Invoker_drop i"
| "detached_body (Value (Inr _)) (Value res) i = Invoker_drop (invoke res i)"

text \<open>
  \<open>os\<close> is the outcome of starting the thread. When the thread cannot be started, or the tracker
  refuses it, the closure is dropped without being called.
\<close>

definition set_lock_blocking_detached ::
    "errno + pthread \<Rightarrow> exit_id \<Rightarrow> RawInterruptibleTrackerData \<Rightarrow> unit io_result outcome \<Rightarrow>
     LockParams io_result outcome \<Rightarrow>
     InterruptibleHandle io_result \<times> RawInterruptibleTrackerData \<times> Invoker" where
  "set_lock_blocking_detached os x d pre lock =
     (case tracker_spawn os x d of
        (Inl e, d') \<Rightarrow> (Inl e, d', Invoker_drop Invoker_new)
      | (Inr (_, handle), d') \<Rightarrow> (Inr handle, d', detached_body pre lock Invoker_new))"

section \<open>Signal masks\<close>

lemma open_window_restores:
  assumes api: "sigmask_api pm mask_of" and win: "open_window pm intr t = (r, t1)"
  shows "case r of Inl _ \<Rightarrow> mask_of t1 = mask_of t | Inr restore \<Rightarrow> mask_of (close_window pm restore t1) = mask_of t"
proof (cases "unblock_signal pm SIGUSR1 t")
  case (Pair g u)
  then show ?thesis
    using win sigmask_api.unblock_ok [OF api, of SIGUSR1 t _ u] sigmask_api.unblock_err [OF api, of SIGUSR1 t _ u]
      sigmask_api.guard_drop_mask [OF api, of _ t u]
    by (cases g) (auto simp: open_window_def close_window_def split: if_splits)
qed

lemma await_round_restores:
  assumes "sigmask_api pm mask_of" "await_round pm env i one intr t s = r"
  shows "case r of Inl res \<Rightarrow> mask_of (fst (snd res)) = mask_of t | Inr cont \<Rightarrow> mask_of (fst cont) = mask_of t"
proof (cases "open_window pm intr t")
  case (Pair w t1)
  then show ?thesis
    using assms(2) open_window_restores [OF assms(1) Pair]
    by (cases w) (auto simp: await_round_def Let_def
        split: prod.splits sum.splits option.splits if_splits ReplyLockCommandData.splits)
qed

lemma await_lock_restores:
  fixes pm :: "'t sigmask_call" and env :: "'s client_env"
  assumes api: "sigmask_api pm mask_of" and ret: "await_lock pm env i one intr t s = Some res"
  shows "mask_of (fst (snd res)) = mask_of t"
proof -
  have "sigmask_api pm mask_of \<longrightarrow> mask_of (fst (snd res)) = mask_of t"
  proof (rule await_lock.raw_induct [where P = "\<lambda>pm env i one intr t s res.
      sigmask_api pm mask_of \<longrightarrow> mask_of (fst (snd res)) = mask_of t", OF _ ret], rule impI)
    fix loop :: "'t sigmask_call \<Rightarrow> 's client_env \<Rightarrow> Interruptable \<Rightarrow> fd \<Rightarrow> bool \<Rightarrow> 't \<Rightarrow> 's \<Rightarrow>
        (LockParams io_result \<times> 't \<times> 's) option"
      and pm :: "'t sigmask_call" and env :: "'s client_env" and i one intr t s res
    assume IH: "\<And>pm env i one intr t s res. loop pm env i one intr t s = Some res \<Longrightarrow>
        sigmask_api pm mask_of \<longrightarrow> mask_of (fst (snd res)) = mask_of t"
      and now: "(case await_round pm env i one intr t s of
        Inl res \<Rightarrow> Some res | Inr (t', s') \<Rightarrow> loop pm env i one True t' s') = Some res"
      and api: "sigmask_api pm mask_of"
    note here = await_round_restores [OF api refl, of t env i one intr s]
    show "mask_of (fst (snd res)) = mask_of t"
    proof (cases "await_round pm env i one intr t s")
      case (Inl res')
      then show ?thesis using now here by simp
    next
      case (Inr cont)
      then show ?thesis using now here IH api by (auto split: prod.splits)
    qed
  qed
  then show ?thesis using api by simp
qed

lemma blocking_receive_restores:
  assumes "sigmask_api pm mask_of" "blocking_receive pm env l one t s = Some (r, t', s')"
  shows "mask_of t' = mask_of t"
  using assms(2)
  by (auto simp: blocking_receive_def Let_def dest: await_lock_restores [OF assms(1)]
      split: prod.splits option.splits sum.splits ReplyLockCommandData.splits)

text \<open>
  Property C24. Every client operation that returns, with a value or with an error and also when
  it was interrupted, leaves the caller's signal mask as it found it; and so does the waiting part
  of the blocking lock on its own, so the window in which SIGUSR1 is let through is closed again
  before the interrupt entry is removed.
\<close>

theorem client_masks_restored:
  assumes "sigmask_api pm mask_of"
  shows "mask_of (fst (snd (RawLockable_get_lock pm env l params t s))) = mask_of t \<and>
    mask_of (fst (snd (RawLockable_set_lock_nonblocking pm env l params t s))) = mask_of t \<and>
    mask_of (fst (snd (Owner_register pm env owner fd t s))) = mask_of t \<and>
    mask_of (fst (snd (Owner_ping pm env owner t s))) = mask_of t \<and>
    (RawLockable_set_lock_blocking pm env l params t s = Some (r, t', s') \<longrightarrow> mask_of t' = mask_of t) \<and>
    (blocking_receive pm env l one u v = Some (r, u', v') \<longrightarrow> mask_of u' = mask_of u)"
proof -
  have window: "blocking_receive pm env l one u v = Some (r, u', v') \<longrightarrow> mask_of u' = mask_of u"
    by (intro impI) (rule blocking_receive_restores [OF assms])
  obtain g t1 where b: "block_all_signals pm t = (g, t1)" by (metis surj_pair)
  show ?thesis
  proof (cases g)
    case (Inl e)
    then show ?thesis
      using b window sigmask_api.block_all_err [OF assms, of t e t1]
      by (auto simp: RawLockable_get_lock_def RawLockable_set_lock_nonblocking_def Owner_register_def
          Owner_ping_def RawLockable_set_lock_blocking_def)
  next
    case (Inr h)
    have "old h = mask_of t" using sigmask_api.block_all_ok [OF assms b [unfolded Inr]] by simp
    then have "mask_of (SigSetGuard_drop pm h u) = mask_of t" for u
      by (rule sigmask_api.guard_drop_mask [OF assms])
    then show ?thesis
      using b Inr window
      by (auto simp: RawLockable_get_lock_def RawLockable_set_lock_nonblocking_def Owner_register_def
          Owner_ping_def RawLockable_set_lock_blocking_def case_prod_beta split: sum.splits)
  qed
qed

text \<open>An environment of message queues, and an owner connected through socket 0.\<close>

definition queue_env :: "queue_kernel client_env" where
  "queue_env = \<lparr>net = queue_sockets, dup_fd = (\<lambda>fd s. (Inr fd, s)), req_cd = raw_codec,
     unit_cd = unit_codec, id_cd = u64_codec, lock_cd = lock_codec\<rparr>"

abbreviation some_lockable :: RawLockable where
  "some_lockable \<equiv> \<lparr>lockable_owner = \<lparr>communication = 0\<rparr>, lockable_id = 7\<rparr>"

theorem client_masks_restored_witness:
  "fst (snd (Owner_ping posix_sigmask queue_env \<lparr>owner_inner = \<lparr>communication = 0\<rparr>\<rparr> {2} queue_init)) - unblockable =
     {2} - unblockable"
  by (rule client_masks_restored [OF posix.sigmask_api_axioms, THEN conjunct2, THEN conjunct2,
        THEN conjunct2, THEN conjunct1])

section \<open>Callbacks\<close>

text \<open>
  Property C28. The post-callback of the detached lock is called exactly once, whatever happens:
  with the error of the pre-callback, with the result of the lock operation, or with a generic
  error when the thread could not be started, the tracker refused it, or something panicked.
\<close>

theorem done_called_once:
  "callback_log (snd (snd (set_lock_blocking_detached os x d pre lock))) =
     [if is_err (fst (set_lock_blocking_detached os x d pre lock)) then Inl (Custom Other)
      else case pre of
             Panic \<Rightarrow> Inl (Custom Other)
           | Value (Inl e) \<Rightarrow> Inl e
           | Value (Inr _) \<Rightarrow> (case lock of Panic \<Rightarrow> Inl (Custom Other) | Value r \<Rightarrow> r)]"
  by (cases "(pre, lock, Invoker_new)" rule: detached_body.cases)
    (auto simp: set_lock_blocking_detached_def Invoker_drop_def invoke_def Invoker_new_def
      split: prod.splits sum.splits)

section \<open>Replies to a blocking lock\<close>

lemma iterator_item:
  assumes "ReplyIterator_next (net env) (lock_cd env) one s = (Some (Inr (Inr (v, []))), s')"
  shows "iterator_next_item env one s = (Some (Inr (Inr v)), s')"
  using assms by (simp add: iterator_next_item_def discard_fds_def drop_fds_def)

lemma iterator_item_error:
  assumes "ReplyIterator_next (net env) (lock_cd env) one s = (Some (Inr (Inl e)), s')"
  shows "iterator_next_item env one s = (Some (Inr (Inl e)), s')"
  using assms by (simp add: iterator_next_item_def discard_fds_def)

text \<open>A reply that waits on the one-shot socket is the next item, and the others stay.\<close>

lemma pending_item:
  assumes "rpc_channel (net env) pending peer socks eof cd valid (lock_cd env) rvalid ser deser"
    and "rvalid x" "enc (lock_cd env) x = Some bytes" "pending s one = as_pending (bytes, []) # rest"
  shows "\<exists>s'. iterator_next_item env one s =
      (Some (Inr (case x of Inr v \<Rightarrow> Inr v | Inl e \<Rightarrow> Inl (Os e))), s') \<and> pending s' = (pending s)(one := rest)"
proof -
  have rep: "codec_api (lock_cd env) rvalid" using assms(1) by (simp add: rpc_channel_def)
  have dec: "dec (lock_cd env) bytes = Some x" "small_frame (bytes, [])"
    using codec_api.enc_dec [OF rep assms(2)] assms(3) by (auto simp: small_frame_def)
  show ?thesis
  proof (cases x)
    case (Inl e)
    then show ?thesis
      using rpc_channel.iterator_next_error [OF assms(1,4) dec(2)] dec(1) iterator_item_error by force
  next
    case (Inr v)
    then show ?thesis
      using rpc_channel.iterator_next [OF assms(1,4) dec(2)] dec(1) iterator_item by force
  qed
qed

lemma await_item:
  assumes "open_window pm intr t = (Inr restore, t1)" "iterator_next_item env one s = (Some r, s1)"
    and "\<And>e. r = Inl e \<Longrightarrow> kind e \<noteq> Interrupted"
  shows "await_lock pm env i one intr t s = Some (and_then (flatten r) expect_done, close_window pm restore t1, s1)"
proof -
  have "await_round pm env i one intr t s = Inl (and_then (flatten r) expect_done, close_window pm restore t1, s1)"
    using assms by (auto simp: await_round_def flatten_def Let_def split: sum.split ReplyLockCommandData.split)
  then show ?thesis using await_lock.simps [of pm env i one intr t s] by simp
qed

text \<open>
  Property C25. An interrupt that arrives while the caller waits for a pending lock is passed on
  to the owner exactly once; once it is acknowledged the caller waits on with signals blocked and
  returns what the owner says then, and the interrupt entry is removed before the call returns.
\<close>

theorem interrupted_wait:
  assumes "iterator_next_item env one s = (Some (Inr (Inr (Pending i))), s1)"
    and "unblock_signal pm SIGUSR1 t = (Inr g, t1)"
    and "iterator_next_item env one s1 = (Some (Inl (Os EINTR)), s2)"
    and "send_request (net env) (req_cd env) (unit_cd env) Interrupt_serialize
           (communication (lockable_owner l)) (Interrupt i) s2 = (Inr (Inr ()), s3)"
    and "iterator_next_item env one s3 = (Some r, s4)" "\<not> (\<exists>e. r = Inl e \<and> kind e = Interrupted)"
  shows "blocking_receive pm env l one t s =
     Some (and_then (flatten r) expect_done, SigSetGuard_drop pm g t1,
       close_fd (net env) one (Interruptable_drop env \<lparr>interrupt_lockable = l, interruptable_id = i\<rparr> s4))"
proof -
  let ?i = "\<lparr>interrupt_lockable = l, interruptable_id = i\<rparr>"
  let ?t = "SigSetGuard_drop pm g t1"
  have w: "open_window pm False t = (Inr (Some g), t1)" using assms(2) by (simp add: open_window_def)
  have "await_round pm env ?i one False t s1 = Inr (?t, s3)"
    using assms(3,4) w
    by (simp add: await_round_def flatten_def close_window_def decode_error_kind_def error_kind_table_def)
  moreover have "await_lock pm env ?i one True ?t s3 = Some (and_then (flatten r) expect_done, close_window pm None ?t, s4)"
    by (rule await_item) (use assms(5,6) in \<open>auto simp: open_window_def\<close>)
  ultimately have "await_lock pm env ?i one False t s1 = Some (and_then (flatten r) expect_done, ?t, s4)"
    using await_lock.simps [of pm env ?i one False t s1] by (simp add: close_window_def)
  then show ?thesis using assms(1) by (simp add: blocking_receive_def flatten_def Let_def)
qed

text \<open>A kernel that answers receives from a script.\<close>

type_synonym script = "(errno + u8 list \<times> Ancillary list) list"

fun script_recv :: "script \<Rightarrow> (errno + u8 list \<times> Ancillary list) \<times> script" where
  "script_recv [] = (Inr ([], []), [])"
| "script_recv (x # xs) = (x, xs)"

definition script_env :: "script client_env" where
  "script_env = \<lparr>net = \<lparr>recvmsg = (\<lambda>_ _ _ _ s. script_recv s),
     sendmsg = (\<lambda>_ bs _ s. (Inr (length bs), s)), socketpair = (\<lambda>s. (Inr (10, 11), s)), close_fd = (\<lambda>_ s. s)\<rparr>,
     dup_fd = (\<lambda>fd s. (Inr fd, s)), req_cd = raw_codec, unit_cd = unit_codec, id_cd = u64_codec,
     lock_cd = lock_codec\<rparr>"

definition script_frame :: "u8 list option \<Rightarrow> script" where
  "script_frame m = (case m of None \<Rightarrow> [] | Some bs \<Rightarrow>
     [Inr (take 16 (frame_bytes bs []), []), Inr (frame_bytes bs [], [])])"

text \<open>The lock is pending, the wait is interrupted, the interrupt acknowledged, the lock given up.\<close>

definition interrupt_script :: script where
  "interrupt_script = script_frame (enc lock_codec (Inr (Pending 3))) @ [Inl EINTR] @
     script_frame (enc unit_codec (Inr ())) @ script_frame (enc lock_codec (Inl EINTR))"

theorem interrupted_wait_witness:
  "\<exists>t' s'. blocking_receive posix_sigmask script_env some_lockable 12 {} interrupt_script =
     Some (Inl (Os EINTR), t', s')"
proof -
  let ?s1 = "drop 2 interrupt_script" and ?s2 = "drop 3 interrupt_script" and ?s3 = "drop 5 interrupt_script"
  have 1: "iterator_next_item script_env 12 interrupt_script = (Some (Inr (Inr (Pending 3))), ?s1)" by code_simp
  have 2: "unblock_signal posix_sigmask SIGUSR1 {} = (Inr (SigSetGuard_new ({} - unblockable)), {} - {SIGUSR1})"
    by (simp add: unblock_signal_def posix_sigmask_def)
  have 3: "iterator_next_item script_env 12 ?s1 = (Some (Inl (Os EINTR)), ?s2)" by code_simp
  have 4: "send_request (net script_env) (req_cd script_env) (unit_cd script_env) Interrupt_serialize
      (communication (lockable_owner some_lockable)) (Interrupt 3) ?s2 = (Inr (Inr ()), ?s3)" by code_simp
  have 5: "iterator_next_item script_env 12 ?s3 = (Some (Inr (Inl (Os EINTR))), [])" by code_simp
  show ?thesis
    using interrupted_wait [where env = script_env and one = 12, OF 1 2 3 4 5] by (simp add: flatten_def)
qed

end
