(* ===== verification/Owner_Loop.thy ===== *)
theory Owner_Loop
  imports Daemon_System Kernel_Instances
begin

text \<open>
  The receiving loop of the owner process (\<^verbatim>\<open>owner_receiving_loop\<close>, \<^verbatim>\<open>src/owner.rs\<close> lines 169 to
  235) on top of the transport. What is done with a request or a bad message is an argument
  \<open>handle\<close> here, so that the loop can be studied alone: when it returns, what it has handled by then,
  and how often it has refreshed the time to live. After a bad message the code only sends on the
  channel of the timer, logs and continues; \<open>handle\<close> is asked there too since the state it works on holds
  that channel and since other threads may run before the next receive. \<open>Service\<close> gives the handler of the owner process.
  The loop may run forever, and so may a handler, so it is a partial function.
\<close>

section \<open>The loop\<close>

datatype received = Got Message fd | Rejected io_error

type_synonym ('s, 'w) handler = "received \<Rightarrow> 's \<Rightarrow> 'w \<Rightarrow> ('s \<times> 'w) option"

partial_function (option) receiving_loop ::
    "'s socket_calls \<Rightarrow> RawMessage codec \<Rightarrow> fd \<Rightarrow> ('s, 'w) handler \<Rightarrow> 's \<Rightarrow> 'w \<Rightarrow> nat \<Rightarrow>
     (unit io_result \<times> 's \<times> 'w \<times> nat) option" where
  "receiving_loop k cd comm handle s w refreshes =
     (case receive_request k cd Message_deserialize comm s of
        (Inl e, s1) \<Rightarrow>
          (case recv_failed e of
             Some r \<Rightarrow> Some (r, s1, w, refreshes)
           | None \<Rightarrow>
               (case handle (Rejected e) s1 w of
                  None \<Rightarrow> None
                | Some (s2, w2) \<Rightarrow> receiving_loop k cd comm handle s2 w2 (Suc refreshes)))
      | (Inr (m, reply_fd), s1) \<Rightarrow>
          (case handle (Got m reply_fd) s1 w of
             None \<Rightarrow> None
           | Some (s2, w2) \<Rightarrow> receiving_loop k cd comm handle s2 w2 (Suc refreshes)))"

text \<open>The loop runs with all signals blocked; the guard is dropped when it returns.\<close>

definition owner_receiving_loop ::
    "'t sigmask_call \<Rightarrow> 's socket_calls \<Rightarrow> RawMessage codec \<Rightarrow> fd \<Rightarrow> ('s, 'w) handler \<Rightarrow> 't \<Rightarrow> 's \<Rightarrow> 'w \<Rightarrow>
     (unit io_result \<times> 't \<times> 's \<times> 'w \<times> nat) option" where
  "owner_receiving_loop pm k cd comm handle t s w =
     (case block_all_signals pm t of
        (Inl e, t1) \<Rightarrow> Some (Inl e, t1, s, w, 0)
      | (Inr g, t1) \<Rightarrow>
          map_option (\<lambda>(r, s', w', n). (r, SigSetGuard_drop pm g t1, s', w', n))
            (receiving_loop k cd comm handle s w 0))"

section \<open>What the loop does\<close>

text \<open>The effect of receiving and handling a given sequence of requests and bad messages.\<close>

fun serve ::
    "'s socket_calls \<Rightarrow> RawMessage codec \<Rightarrow> fd \<Rightarrow> ('s, 'w) handler \<Rightarrow> received list \<Rightarrow> 's \<Rightarrow> 'w \<Rightarrow>
     ('s \<times> 'w) option" where
  "serve k cd comm handle [] s w = Some (s, w)"
| "serve k cd comm handle (Got m reply_fd # items) s w =
     (case receive_request k cd Message_deserialize comm s of
        (r, s1) \<Rightarrow>
          if r = Inr (m, reply_fd)
          then Option.bind (handle (Got m reply_fd) s1 w) (\<lambda>(s2, w2). serve k cd comm handle items s2 w2)
          else None)"
| "serve k cd comm handle (Rejected e # items) s w =
     (case receive_request k cd Message_deserialize comm s of
        (r, s1) \<Rightarrow>
          if r = Inl e \<and> recv_failed e = None
          then Option.bind (handle (Rejected e) s1 w) (\<lambda>(s2, w2). serve k cd comm handle items s2 w2)
          else None)"

definition fatal ::
    "'s socket_calls \<Rightarrow> RawMessage codec \<Rightarrow> fd \<Rightarrow> 's \<Rightarrow> unit io_result \<Rightarrow> 's \<Rightarrow> bool" where
  "fatal k cd comm s r s' \<longleftrightarrow>
     (\<exists>e. receive_request k cd Message_deserialize comm s = (Inl e, s') \<and> recv_failed e = Some r)"

lemma receiving_loop_serve:
  "serve k cd comm handle items s w = Some (s1, w1) \<Longrightarrow>
   receiving_loop k cd comm handle s w n = receiving_loop k cd comm handle s1 w1 (n + length items)"
proof (induction k cd comm handle items s w arbitrary: n rule: serve.induct)
  case (1 k cd comm handle s w)
  then show ?case by simp
next
  case (2 k cd comm handle m f items s w)
  then show ?case
    using receiving_loop.simps [of k cd comm handle s w n] by (auto simp: bind_eq_Some_conv split: prod.splits if_splits)
next
  case (3 k cd comm handle e items s w)
  then show ?case
    using receiving_loop.simps [of k cd comm handle s w n] by (auto simp: bind_eq_Some_conv split: prod.splits if_splits)
qed

lemma receiving_loop_fatal:
  "fatal k cd comm s r s' \<Longrightarrow> receiving_loop k cd comm handle s w n = Some (r, s', w, n)"
  using receiving_loop.simps [of k cd comm handle s w n] by (auto simp: fatal_def)

lemma receiving_loop_returned:
  assumes "receiving_loop k cd comm handle s w n = Some res"
  shows "\<exists>items s1 w1. serve k cd comm handle items s w = Some (s1, w1) \<and>
     fatal k cd comm s1 (fst res) (fst (snd res)) \<and> snd (snd res) = (w1, n + length items)"
proof (rule receiving_loop.raw_induct [where P = "\<lambda>k cd comm handle s w n res.
    \<exists>items s1 w1. serve k cd comm handle items s w = Some (s1, w1) \<and>
      fatal k cd comm s1 (fst res) (fst (snd res)) \<and> snd (snd res) = (w1, n + length items)", OF _ assms])
  fix loop k cd comm handle s w n res
  assume IH: "\<And>k cd comm handle s w n res. loop k cd comm handle s w n = Some res \<Longrightarrow>
      \<exists>items s1 w1. serve k cd comm handle items s w = Some (s1, w1) \<and>
        fatal k cd comm s1 (fst res) (fst (snd res)) \<and> snd (snd res) = (w1, n + length items)"
    and now: "(case receive_request k cd Message_deserialize comm s of
        (Inl e, s1) \<Rightarrow> (case recv_failed e of Some r \<Rightarrow> Some (r, s1, w, n)
          | None \<Rightarrow> (case handle (Rejected e) s1 w of None \<Rightarrow> None | Some (s2, w2) \<Rightarrow> loop k cd comm handle s2 w2 (Suc n)))
      | (Inr (m, reply_fd), s1) \<Rightarrow> (case handle (Got m reply_fd) s1 w of None \<Rightarrow> None
          | Some (s2, w2) \<Rightarrow> loop k cd comm handle s2 w2 (Suc n))) = Some res"
  obtain r s1 where recv: "receive_request k cd Message_deserialize comm s = (r, s1)" by (metis surj_pair)
  have cons: "\<exists>items s1 w1. serve k cd comm handle items s w = Some (s1, w1) \<and>
      fatal k cd comm s1 (fst res) (fst (snd res)) \<and> snd (snd res) = (w1, n + length items)"
    if "loop k cd comm handle s2 w2 (Suc n) = Some res"
      "\<And>items. serve k cd comm handle (item # items) s w = serve k cd comm handle items s2 w2" for item s2 w2
  proof -
    from IH [OF that(1)] obtain items s3 w3 where "serve k cd comm handle items s2 w2 = Some (s3, w3)"
      "fatal k cd comm s3 (fst res) (fst (snd res))" "snd (snd res) = (w3, Suc n + length items)" by blast
    then have "serve k cd comm handle (item # items) s w = Some (s3, w3) \<and>
        fatal k cd comm s3 (fst res) (fst (snd res)) \<and> snd (snd res) = (w3, n + length (item # items))"
      using that(2) by simp
    then show ?thesis by blast
  qed
  show "\<exists>items s1 w1. serve k cd comm handle items s w = Some (s1, w1) \<and>
      fatal k cd comm s1 (fst res) (fst (snd res)) \<and> snd (snd res) = (w1, n + length items)"
  proof (cases r)
    case (Inl e)
    show ?thesis
    proof (cases "recv_failed e")
      case None
      then obtain s2 w2 where "handle (Rejected e) s1 w = Some (s2, w2)" "loop k cd comm handle s2 w2 (Suc n) = Some res"
        using now recv Inl by (auto split: option.splits)
      then show ?thesis using cons [of s2 w2 "Rejected e"] recv Inl None by simp
    next
      case (Some r')
      then have "serve k cd comm handle [] s w = Some (s, w) \<and>
          fatal k cd comm s (fst res) (fst (snd res)) \<and> snd (snd res) = (w, n + length ([] :: received list))"
        using now recv Inl by (auto simp: fatal_def)
      then show ?thesis by blast
    qed
  next
    case (Inr mf)
    obtain m f where mf: "mf = (m, f)" by (cases mf)
    then obtain s2 w2 where "handle (Got m f) s1 w = Some (s2, w2)" "loop k cd comm handle s2 w2 (Suc n) = Some res"
      using now recv Inr by (auto split: option.splits)
    then show ?thesis using cons [of s2 w2 "Got m f"] recv Inr mf by simp
  qed
qed

section \<open>Properties\<close>


text \<open>
  Property C36. When the peer closes the connection after sending a part of a frame header, the
  loop does not return, whatever the other threads do that leaves the unread bytes where they are:
  every receive reports the same recoverable error without consuming anything, and any number of
  rounds is made, each of which refreshes the time to live, so the process does not exit either.
\<close>

theorem truncated_header_livelock:
  fixes handle :: "('s, 'w) handler"
  assumes "unix_sockets k pending peer socks eof"
    and "pending s comm = [(bs, fds)]" "eof s comm" "bs \<noteq> []" "length bs < 16"
    and "\<forall>s w. \<exists>s' w'. handle (Rejected (Custom UnexpectedEof)) s w = Some (s', w') \<and>
      pending s' comm = pending s comm \<and> eof s' comm = eof s comm"
  shows "receiving_loop k cd comm handle s w n = None \<and>
     (\<exists>items s' w'. length items = N \<and> serve k cd comm handle items s w = Some (s', w'))"
proof
  define Q where "Q u \<longleftrightarrow> pending u comm = [(bs, fds)] \<and> eof u comm" for u
  have stuck: "receive_request k cd Message_deserialize comm u = (Inl (Custom UnexpectedEof), u)" if "Q u" for u
    using unix_sockets.receive_truncated [OF assms(1), of u comm bs fds] that assms(4,5)
    by (simp add: receive_request_def Q_def)
  have keep: "Q u'" if "Q u" "handle (Rejected (Custom UnexpectedEof)) u x = Some (u', x')" for u x u' x'
    using assms(6) that by (auto simp: Q_def dest: spec [of _ u] dest!: spec [of _ x])
  have start: "Q s" using assms(2,3) by (simp add: Q_def)
  have served: "Q u'" if "Q u" "serve k cd comm handle items u x = Some (u', x')" for items u x u' x'
    using that
  proof (induction items arbitrary: u x)
    case (Cons item items)
    obtain v y where "handle (Rejected (Custom UnexpectedEof)) u x = Some (v, y)" "serve k cd comm handle items v y = Some (u', x')"
      using Cons.prems(2) stuck [OF Cons.prems(1)] by (cases item) (auto simp: bind_eq_Some_conv split: if_splits)
    then show ?case using Cons.IH keep [OF Cons.prems(1)] by blast
  qed simp
  have "\<not> fatal k cd comm u r s'" if "Q u" for u r s' using stuck [OF that] by (simp add: fatal_def recv_failed_def)
  then have "receiving_loop k cd comm handle s w n \<noteq> Some res" for res
    using receiving_loop_returned [of k cd comm handle s w n res] served [OF start] by blast
  then show "receiving_loop k cd comm handle s w n = None" by (metis not_None_eq)
  have "\<exists>s' w'. serve k cd comm handle (replicate N (Rejected (Custom UnexpectedEof))) u x = Some (s', w')" if "Q u" for u x
    using that
  proof (induction N arbitrary: u x)
    case (Suc N)
    obtain u' x' where h: "handle (Rejected (Custom UnexpectedEof)) u x = Some (u', x')" using assms(6) by blast
    then have "Q u'" by (rule keep [OF Suc.prems])
    then show ?case using Suc.IH [of u' x'] stuck [OF Suc.prems] h by (simp add: recv_failed_def)
  qed simp
  from this [OF start, of w] show "\<exists>items s' w'. length items = N \<and> serve k cd comm handle items s w = Some (s', w')"
    by (intro exI [of _ "replicate N (Rejected (Custom UnexpectedEof))"]) simp
qed

theorem truncated_header_livelock_witness:
  "receiving_loop queue_sockets raw_codec 1 (\<lambda>_ s w. Some (s, w))
     (queue_init\<lparr>queues := (\<lambda>_. [])(1 := [([9], [])])\<rparr>) () 0 = None"
  using truncated_header_livelock [OF queue.unix_sockets_axioms,
      of "queue_init\<lparr>queues := (\<lambda>_. [])(1 := [([9], [])])\<rparr>" 1 "[9]" "[]" "\<lambda>_ s w. Some (s, w)" raw_codec "()" 0 0]
  by simp

end
