(* ===== verification/Sessions.thy ===== *)
theory Sessions
  imports Daemon_Safety
begin

text \<open>
  The reply protocol of the owner process: what a client may read on the one-shot socket of a
  request. A reply object (\<open>create_reply\<close>) is held by the receiving thread or by the thread that was
  started for the request; it may be used once, for a blocking lock twice, and its socket is closed
  when its holder drops it. A session is the sequence of replies on one such socket. The theorems are
  about every run of the process: replies have the type the request asks for, they come in the order
  the protocol allows, and the socket is closed exactly when the session is complete.
\<close>

section \<open>Reply objects\<close>

text \<open>The one-shot socket a thread will reply on.\<close>

fun task_fd :: "'b task \<Rightarrow> fd option" where
  "task_fd (InterruptTask f _) = Some f"
| "task_fd (InterruptStop f _ _) = Some f"
| "task_fd (UnregisterTask f _) = Some f"
| "task_fd (UnregisterTaken f _) = Some f"
| "task_fd (UnregisterStop f _ _) = Some f"
| "task_fd (UnregisterWait f _) = Some f"
| "task_fd (UnregisterReply f _) = Some f"
| "task_fd (LockTask _ _ f _ stage) = (if stage = LockTry \<or> stage = LockWait then Some f else None)"
| "task_fd (LockAbort _ f) = Some f"

fun recv_fd :: "receiver_stage \<Rightarrow> fd option" where
  "recv_fd (RecvCommand _ _ f) = Some f"
| "recv_fd _ = None"

text \<open>The socket of the thread that makes a move, and the places where it may be after the move.\<close>

fun move_fd :: "move \<Rightarrow> ('b, 'k) owner_sys \<Rightarrow> fd option" where
  "move_fd (MReceive _ _ _ f) w = Some f"
| "move_fd (MCommand _) w = recv_fd (receiver w)"
| "move_fd (MInterrupt t _) w = Option.bind (tasks w t) task_fd"
| "move_fd (MUnregister t _) w = Option.bind (tasks w t) task_fd"
| "move_fd (MLock t _) w = Option.bind (tasks w t) task_fd"
| "move_fd (MError _) w = None"
| "move_fd (MMain _) w = None"

fun moved_fds :: "move \<Rightarrow> ('b, 'k) owner_sys \<Rightarrow> fd option list" where
  "moved_fds (MReceive _ t _ _) w = [Option.bind (tasks w t) task_fd, recv_fd (receiver w)]"
| "moved_fds (MCommand (Inr t)) w = [Option.bind (tasks w t) task_fd]"
| "moved_fds (MCommand (Inl _)) w = []"
| "moved_fds (MInterrupt t _) w = [Option.bind (tasks w t) task_fd]"
| "moved_fds (MUnregister t _) w = [Option.bind (tasks w t) task_fd]"
| "moved_fds (MLock t _) w = [Option.bind (tasks w t) task_fd]"
| "moved_fds _ w = []"

definition dropped_fds :: "move \<Rightarrow> ('b, 'k) owner_sys \<Rightarrow> ('b, 'k) owner_sys \<Rightarrow> fd list" where
  "dropped_fds mv w w' =
     (case move_fd mv w of
        None \<Rightarrow> []
      | Some f \<Rightarrow> if Some f \<in> set (moved_fds mv w') then [] else [f])"

section \<open>The protocol\<close>

text \<open>The type of the payload that the trait \<^verbatim>\<open>Reply\<close> gives each reply object.\<close>

fun reply_type :: "reply_object \<Rightarrow> server_reply \<Rightarrow> bool" where
  "reply_type (ReplyRegister _) (ReplyId _) = True"
| "reply_type (ReplyRegister _) _ = False"
| "reply_type (ReplyLockCommand _) (ReplyLock _) = True"
| "reply_type (ReplyLockCommand _) _ = False"
| "reply_type _ (ReplyUnit _) = True"
| "reply_type _ _ = False"

text \<open>
  What a lock reply may say when \<open>lock\<close> was asked for: the final one an error or that very lock, the
  first one of a blocking request also that the lock is pending.
\<close>

fun final_answer :: "LockParams \<Rightarrow> server_reply \<Rightarrow> bool" where
  "final_answer lock (ReplyLock (Inl _)) = True"
| "final_answer lock (ReplyLock (Inr (Done p))) = (p = lock)"
| "final_answer lock _ = False"

fun first_answer :: "LockParams \<Rightarrow> server_reply \<Rightarrow> bool" where
  "first_answer lock (ReplyLock (Inr (Pending _))) = True"
| "first_answer lock r = final_answer lock r"

fun status_answer :: "server_reply \<Rightarrow> bool" where
  "status_answer (ReplyLock (Inr (Pending _))) = False"
| "status_answer (ReplyLock _) = True"
| "status_answer _ = False"

fun is_unit_reply :: "server_reply \<Rightarrow> bool" where
  "is_unit_reply (ReplyUnit _) = True"
| "is_unit_reply _ = False"

fun is_error :: "server_reply \<Rightarrow> bool" where
  "is_error (ReplyLock (Inl _)) = True"
| "is_error _ = False"

text \<open>
  The replies of a request whose reply object has been dropped. Without a reply ends a blocking
  request whose thread could not be started, and an interrupt of a handle that names the interrupting
  thread itself, which panics.
\<close>

fun complete_lock :: "LockAction \<Rightarrow> LockParams \<Rightarrow> server_reply list \<Rightarrow> bool" where
  "complete_lock GetLockStatus lock rs = (case rs of [r] \<Rightarrow> status_answer r | _ \<Rightarrow> False)"
| "complete_lock SetLockNonBlocking lock rs = (case rs of [r] \<Rightarrow> final_answer lock r | _ \<Rightarrow> False)"
| "complete_lock SetLockBlocking lock rs =
     (case rs of
        [] \<Rightarrow> True
      | [r] \<Rightarrow> is_error r
      | [r1, r2] \<Rightarrow> first_answer lock r1 \<and> final_answer lock r2
      | _ \<Rightarrow> False)"

fun complete_session :: "Message \<Rightarrow> server_reply list \<Rightarrow> bool" where
  "complete_session (Message_Ping _) rs = (rs = [ReplyUnit (Inr ())])"
| "complete_session (Message_Interrupt _) rs = (case rs of [] \<Rightarrow> True | [r] \<Rightarrow> is_unit_reply r | _ \<Rightarrow> False)"
| "complete_session (Message_RemoveInterrupt _) rs = (case rs of [r] \<Rightarrow> is_unit_reply r | _ \<Rightarrow> False)"
| "complete_session (Message_Register _) rs = (case rs of [ReplyId _] \<Rightarrow> True | _ \<Rightarrow> False)"
| "complete_session (Message_Unregister _) rs = (case rs of [r] \<Rightarrow> is_unit_reply r | _ \<Rightarrow> False)"
| "complete_session (Message_LockCommand cmd) rs = complete_lock (command_action cmd) (command_params cmd) rs"

text \<open>The holder of a reply object, and the replies it has made while it still holds it.\<close>

datatype 'b holder = HeldBy pthread "'b task" | Dispatching LockCommand

fun open_session :: "Message \<Rightarrow> 'b holder \<Rightarrow> server_reply list \<Rightarrow> bool" where
  "open_session (Message_Interrupt i) (HeldBy _ (InterruptTask _ i')) rs = (i' = i \<and> rs = [])"
| "open_session (Message_Interrupt _) (HeldBy _ (InterruptStop _ _ _)) rs = (rs = [])"
| "open_session (Message_Unregister u) (HeldBy _ (UnregisterTask _ u')) rs = (u' = u \<and> rs = [])"
| "open_session (Message_Unregister _) (HeldBy _ (UnregisterTaken _ _)) rs = (rs = [])"
| "open_session (Message_Unregister _) (HeldBy _ (UnregisterStop _ _ _)) rs = (rs = [])"
| "open_session (Message_Unregister _) (HeldBy _ (UnregisterWait _ _)) rs = (rs = [])"
| "open_session (Message_Unregister _) (HeldBy _ (UnregisterReply _ _)) rs = (rs = [])"
| "open_session (Message_LockCommand cmd) (Dispatching cmd') rs = (cmd' = cmd \<and> rs = [])"
| "open_session (Message_LockCommand cmd) (HeldBy _ (LockTask _ _ _ lock stage)) rs =
     (command_action cmd = SetLockBlocking \<and> lock = command_params cmd \<and>
      (case stage of
         LockTry \<Rightarrow> rs = []
       | LockWait \<Rightarrow> (case rs of [r] \<Rightarrow> first_answer lock r | _ \<Rightarrow> False)
       | _ \<Rightarrow> False))"
| "open_session (Message_LockCommand cmd) (HeldBy _ (LockAbort _ _)) rs =
     (command_action cmd = SetLockBlocking \<and> rs = [])"
| "open_session _ _ rs = False"

text \<open>The replies sent on a socket, its holders and the requests of a run.\<close>

definition replies_on :: "fd \<Rightarrow> ('b, 'k) owner_sys \<Rightarrow> server_reply list" where
  "replies_on f w = map snd (filter (\<lambda>x. fst x = f) (sent w))"

definition holders :: "('b, 'k) owner_sys \<Rightarrow> fd \<Rightarrow> 'b holder set" where
  "holders w f = {h. (\<exists>t k. h = HeldBy t k \<and> tasks w t = Some k \<and> task_fd k = Some f) \<or>
     (\<exists>p cmd. h = Dispatching cmd \<and> receiver w = RecvCommand p cmd f)}"

fun requests :: "move list \<Rightarrow> (fd \<times> Message) list" where
  "requests [] = []"
| "requests (MReceive _ _ m f # mvs) = (f, m) # requests mvs"
| "requests (_ # mvs) = requests mvs"

text \<open>A session on its way: one holder and an open session, or no holder and a complete one.\<close>

definition session_ok :: "Message \<Rightarrow> 'b holder set \<Rightarrow> server_reply list \<Rightarrow> bool" where
  "session_ok m hs rs \<longleftrightarrow> (hs = {} \<and> complete_session m rs) \<or> (\<exists>h. hs = {h} \<and> open_session m h rs)"

definition session_at :: "Message option \<Rightarrow> 'b holder set \<Rightarrow> server_reply list \<Rightarrow> bool" where
  "session_at r hs rs \<longleftrightarrow> (case r of None \<Rightarrow> hs = {} \<and> rs = [] | Some m \<Rightarrow> session_ok m hs rs)"

definition sessions_ok :: "(fd \<rightharpoonup> Message) \<Rightarrow> ('b, 'k) owner_sys \<Rightarrow> bool" where
  "sessions_ok reqs w \<longleftrightarrow> (\<forall>f. session_at (reqs f) (holders w f) (replies_on f w))"

section \<open>What a move does to the sessions\<close>

lemma replies_on_send [simp]:
  "replies_on f (send_reply g r w) = replies_on f w @ (if f = g then [r] else [])"
  by (simp add: replies_on_def send_reply_def)

lemma replies_on_cong: "sent w' = sent w @ map (Pair g) rs \<Longrightarrow>
   replies_on f w' = replies_on f w @ (if f = g then rs else [])"
  by (induction rs arbitrary: w') (auto simp: replies_on_def filter_map comp_def)

lemma holders_cong: "tasks w' = tasks w \<Longrightarrow> receiver w' = receiver w \<Longrightarrow> holders w' = holders w"
  by (simp add: holders_def fun_eq_iff)

lemma holders_empty:
  "holders w f = {} \<longleftrightarrow> (\<forall>t k. tasks w t = Some k \<longrightarrow> task_fd k \<noteq> Some f) \<and> recv_fd (receiver w) \<noteq> Some f"
  by (cases "receiver w") (auto simp: holders_def)

lemma holders_task:
  assumes "tasks w' = (tasks w)(t := v)" "receiver w' = receiver w"
  shows "holders w' f = (holders w f - range (HeldBy t)) \<union>
    (case v of Some k \<Rightarrow> if task_fd k = Some f then {HeldBy t k} else {} | None \<Rightarrow> {})"
  using assms by (auto simp: holders_def split: option.splits if_splits)

lemma sessions_okD:
  assumes "sessions_ok reqs w" "h \<in> holders w f"
  obtains m where "reqs f = Some m" "holders w f = {h}" "open_session m h (replies_on f w)"
  using assms unfolding sessions_ok_def session_at_def session_ok_def by (force split: option.splits)

lemma sessions_ok_same:
  "sessions_ok reqs w \<Longrightarrow> holders w' = holders w \<Longrightarrow> (\<And>f. replies_on f w' = replies_on f w) \<Longrightarrow> sessions_ok reqs w'"
  by (simp add: sessions_ok_def)

lemma sessions_ok_new:
  assumes "sessions_ok reqs w" "session_ok m (holders w' f) (replies_on f w')"
    and "\<And>g. g \<noteq> f \<Longrightarrow> holders w' g = holders w g \<and> replies_on g w' = replies_on g w"
  shows "sessions_ok (reqs(f \<mapsto> m)) w'"
  unfolding sessions_ok_def
proof
  fix g
  show "session_at ((reqs(f \<mapsto> m)) g) (holders w' g) (replies_on g w')"
    using assms(1) [unfolded sessions_ok_def, rule_format, of g] assms(2) assms(3) [of g]
    by (cases "g = f") (simp_all add: session_at_def)
qed

text \<open>A step of a thread that holds a reply object: it makes some replies and may drop the object.\<close>

lemma holder_move:
  assumes inv: "sessions_ok reqs w" and task: "tasks w t = Some k" "task_fd k = Some f"
    and eff: "tasks w' = (tasks w)(t := v)" "receiver w' = receiver w" "sent w' = sent w @ map (Pair f) rs"
    and proto: "\<And>m. open_session m (HeldBy t k) (replies_on f w) \<Longrightarrow>
      (case Option.bind v task_fd of
         None \<Rightarrow> complete_session m (replies_on f w @ rs)
       | Some f' \<Rightarrow> f' = f \<and> open_session m (HeldBy t (the v)) (replies_on f w @ rs))"
  shows "sessions_ok reqs w'"
  unfolding sessions_ok_def
proof
  fix g
  note rep = replies_on_cong [OF eff(3), of g] and hold = holders_task [OF eff(1,2), of g]
  have now: "HeldBy t k \<in> holders w f" using task by (auto simp: holders_def)
  then obtain m where m: "reqs f = Some m" "holders w f = {HeldBy t k}" "open_session m (HeldBy t k) (replies_on f w)"
    by (rule sessions_okD [OF inv])
  have v: "task_fd k' = Some f" if "v = Some k'" "task_fd k' \<noteq> None" for k' using proto [OF m(3)] that by auto
  show "session_at (reqs g) (holders w' g) (replies_on g w')"
  proof (cases "g = f")
    case True
    have "session_ok m (holders w' f) (replies_on f w @ rs)"
      using proto [OF m(3)] hold [unfolded True] m(2) by (cases v) (auto simp: session_ok_def split: option.splits if_splits)
    then show ?thesis using m(1) rep True by (simp add: session_at_def)
  next
    case False
    have "holders w g \<inter> range (HeldBy t) = {}" using task False by (auto simp: holders_def)
    then have "holders w' g = holders w g" using hold v False by (auto split: option.splits if_splits)
    then show ?thesis using inv rep False by (simp add: sessions_ok_def)
  qed
qed

text \<open>A step of a thread that holds none.\<close>

lemma free_move:
  assumes "sessions_ok reqs w" "tasks w t = Some k" "task_fd k = None" "Option.bind v task_fd = None"
    and "tasks w' = (tasks w)(t := v)" "receiver w' = receiver w" "sent w' = sent w"
  shows "sessions_ok reqs w'"
proof (rule sessions_ok_same [OF assms(1)])
  show "holders w' = holders w"
  proof
    fix f
    have "holders w f \<inter> range (HeldBy t) = {}" using assms(2,3) by (auto simp: holders_def)
    then show "holders w' f = holders w f"
      using holders_task [OF assms(5,6), of f] assms(4) by (auto split: option.splits)
  qed
qed (use assms(7) in \<open>simp add: replies_on_def\<close>)

text \<open>The moves of the threads.\<close>

lemma open_interruptD:
  "open_session m (HeldBy t (InterruptTask f i)) rs \<Longrightarrow> m = Message_Interrupt i \<and> rs = []"
  "open_session m (HeldBy t (InterruptStop f h r)) rs \<Longrightarrow> (\<exists>i. m = Message_Interrupt i) \<and> rs = []"
  by (cases m; simp)+

lemma open_unregisterD:
  "open_session m (HeldBy t (UnregisterTask f u)) rs \<Longrightarrow> m = Message_Unregister u \<and> rs = []"
  "open_session m (HeldBy t (UnregisterTaken f p)) rs \<Longrightarrow> (\<exists>u. m = Message_Unregister u) \<and> rs = []"
  "open_session m (HeldBy t (UnregisterStop f p r)) rs \<Longrightarrow> (\<exists>u. m = Message_Unregister u) \<and> rs = []"
  "open_session m (HeldBy t (UnregisterWait f p)) rs \<Longrightarrow> (\<exists>u. m = Message_Unregister u) \<and> rs = []"
  "open_session m (HeldBy t (UnregisterReply f p)) rs \<Longrightarrow> (\<exists>u. m = Message_Unregister u) \<and> rs = []"
  by (cases m; simp)+

lemma open_lockD:
  "open_session m (HeldBy t (LockTask p x f lock LockTry)) rs \<Longrightarrow>
    (\<exists>cmd. m = Message_LockCommand cmd \<and> command_action cmd = SetLockBlocking \<and> command_params cmd = lock) \<and> rs = []"
  "open_session m (HeldBy t (LockTask p x f lock LockWait)) rs \<Longrightarrow>
    (\<exists>cmd. m = Message_LockCommand cmd \<and> command_action cmd = SetLockBlocking \<and> command_params cmd = lock) \<and>
    (\<exists>r. rs = [r] \<and> first_answer lock r)"
  "open_session m (HeldBy t (LockAbort p f)) rs \<Longrightarrow>
    (\<exists>cmd. m = Message_LockCommand cmd \<and> command_action cmd = SetLockBlocking) \<and> rs = []"
  "open_session m (Dispatching cmd) rs \<Longrightarrow> m = Message_LockCommand cmd \<and> rs = []"
  by (cases m; auto split: list.splits)+

lemma io_cvt_error: obtains n where "io_cvt (Inl e) = Inl n"
  by (cases "raw_os_error e") (simp_all add: io_cvt_def)

lemmas session_effects = set_task_def send_reply_def io_cvt_def

lemma interrupt_sessions:
  assumes inv: "sessions_ok reqs w" and task: "tasks w t = Some k"
    and step: "handle_interrupt_step bo tries t k w = Some (sigs, w')"
  shows "sessions_ok reqs w'"
proof (cases k)
  case (InterruptTask f i)
  show ?thesis
  proof (cases "interrupt_lookup (shared w) i")
    case (Inl e)
    then show ?thesis using step InterruptTask
      by (intro holder_move [OF inv task, of f _ None "[ReplyUnit (io_cvt (Inl e))]"])
        (auto simp: session_effects dest!: open_interruptD)
  next
    case (Inr h)
    then obtain r where "w' = set_task t (Some (InterruptStop f h r)) w"
      using step InterruptTask by (auto simp: interrupt_iter_def split: prod.splits)
    then show ?thesis using InterruptTask
      by (intro holder_move [OF inv task, of f _ "Some (InterruptStop f h r)" "[]"])
        (auto simp: session_effects dest!: open_interruptD)
  qed
next
  case (InterruptStop f h r)
  show ?thesis
  proof (cases "resume_stop bo tries r")
    case None
    then show ?thesis using step InterruptStop
      by (intro holder_move [OF inv task, of f _ None "if r = Returned then [ReplyUnit (io_cvt (Inr ()))] else []"])
        (auto simp: session_effects split: if_splits dest!: open_interruptD)
  next
    case (Some l)
    then obtain r' where "w' = set_task t (Some (InterruptStop f h r')) w"
      using step InterruptStop by (auto simp: interrupt_iter_def split: prod.splits)
    then show ?thesis using InterruptStop
      by (intro holder_move [OF inv task, of f _ "Some (InterruptStop f h r')" "[]"])
        (auto simp: session_effects dest!: open_interruptD)
  qed
qed (use step in simp_all)

lemma unregister_iter_task:
  "unregister_iter t f p iter w = (sigs, w') \<Longrightarrow>
   \<exists>r. tasks w' = (tasks w)(t \<mapsto> UnregisterStop f p r) \<and> receiver w' = receiver w \<and> sent w' = sent w"
  by (auto simp: unregister_iter_def set_task_def split: prod.splits)

lemma unregister_sessions:
  assumes inv: "sessions_ok reqs w" and task: "tasks w t = Some k"
    and step: "handle_fd_unregister_step bo tries t k w = Some (sigs, w')"
  shows "sessions_ok reqs w'"
proof -
  have move: "sessions_ok reqs w'" if "task_fd k = Some f" "\<And>m rs. open_session m (HeldBy t k) rs \<Longrightarrow> (\<exists>u. m = Message_Unregister u) \<and> rs = []"
      "tasks w' = (tasks w)(t := v)" "receiver w' = receiver w" "sent w' = sent w @ map (Pair f) rs"
      "(v = None \<and> (\<exists>r. rs = [ReplyUnit r])) \<or> (\<exists>k'. v = Some k' \<and> rs = [] \<and>
         (k' \<in> {UnregisterTaken f p, UnregisterWait f p, UnregisterReply f p} \<or> (\<exists>r. k' = UnregisterStop f p r)))" for f v rs p
    using that by (intro holder_move [OF inv task that(1,3,4,5)]) (fastforce dest!: that(2))
  show ?thesis
  proof (cases k)
    case (UnregisterTask f u)
    obtain r D where take: "unregister_take (shared w) u = (r, D)" by fastforce
    show ?thesis
    proof (cases r)
      case (Inl e)
      then show ?thesis using step take UnregisterTask
        by (intro move [of f None "[ReplyUnit (io_cvt (Inl e))]"]) (auto dest!: open_unregisterD simp: session_effects)
    next
      case (Inr p)
      then show ?thesis using step take UnregisterTask
        by (intro move [of f "Some (UnregisterTaken f p)" "[]" p]) (auto dest!: open_unregisterD simp: session_effects)
    qed
  next
    case (UnregisterTaken f p)
    then obtain d :: FdData where "unregister_iter t f p (stop_enter bo (fd_tracker d)) w = (sigs, w')" using step by auto
    then show ?thesis using UnregisterTaken
      by (auto intro!: move [of f _ "[]" p] dest!: open_unregisterD unregister_iter_task)
  next
    case (UnregisterStop f p r)
    show ?thesis
    proof (cases "resume_stop bo tries r")
      case None
      then show ?thesis using step UnregisterStop
        by (intro move [of f "Some (UnregisterWait f p)" "[]" p])
          (auto dest!: open_unregisterD simp: session_effects split: if_splits)
    next
      case (Some l)
      then obtain d :: FdData where "unregister_iter t f p (stop_iter bo l (fd_tracker d)) w = (sigs, w')" using step UnregisterStop by auto
      then show ?thesis using UnregisterStop
        by (auto intro!: move [of f _ "[]" p] dest!: open_unregisterD unregister_iter_task)
    qed
  next
    case (UnregisterWait f p)
    then show ?thesis using step
      by (intro move [of f "Some (UnregisterReply f p)" "[]" p])
        (auto dest!: open_unregisterD simp: session_effects split: if_splits)
  next
    case (UnregisterReply f p)
    then show ?thesis using step
      by (intro move [of f None "[ReplyUnit (io_cvt (Inr ()))]" p])
        (auto dest!: open_unregisterD simp: session_effects)
  qed (use step in simp_all)
qed

lemma lock_sessions:
  assumes inv: "sessions_ok reqs w" and task: "tasks w t = Some k"
    and step: "lock_thread_step c fc mask_change t k w = Some w'"
  shows "sessions_ok reqs w'"
proof (cases "task_fd k")
  case None
  then obtain p x f lock stage where k: "k = LockTask p x f lock stage" "stage \<noteq> LockTry" "stage \<noteq> LockWait"
    using step by (cases k) (auto split: if_splits)
  then have "\<exists>v. Option.bind v task_fd = None \<and> tasks w' = (tasks w)(t := v) \<and> receiver w' = receiver w \<and> sent w' = sent w"
    using step
    by (intro exI [of _ "case stage of LockRelease \<Rightarrow> Some (LockTask p x f lock LockUntrack)
          | LockUntrack \<Rightarrow> Some (LockTask p x f lock LockExit) | _ \<Rightarrow> None"], cases stage) (auto simp: set_task_def)
  then show ?thesis using free_move [OF inv task None] by blast
next
  case (Some f)
  then consider (first) p x lock where "k = LockTask p x f lock LockTry" | (wait) p x lock where "k = LockTask p x f lock LockWait"
    | (abort) p where "k = LockAbort p f" using step by (cases k) (auto split: if_splits)
  then show ?thesis
  proof cases
    case first
    show ?thesis
    proof (cases "\<exists>e. mask_change = Inl e")
      case True
      then obtain e where "mask_change = Inl e" by blast
      then show ?thesis using step first
        by (intro holder_move [OF inv task Some, of _ "Some (LockTask p x f lock LockRelease)" "[ReplyLock (io_cvt (Inl e))]"])
          (auto simp: session_effects dest!: open_lockD split: option.splits)
    next
      case False
      then obtain r where r: "tasks w' = (tasks w)(t \<mapsto> LockTask p x f lock LockWait)" "receiver w' = receiver w"
          "sent w' = sent w @ [(f, ReplyLock r)]" "first_answer lock (ReplyLock r)"
        using step first
        by (auto simp: set_task_def send_reply_def set_lock_try_def io_cvt_def split: option.splits sum.splits prod.splits if_splits)
      show ?thesis
        by (rule holder_move [OF inv task Some r(1,2), of "[ReplyLock r]"])
          (use r first in \<open>auto dest!: open_lockD\<close>)
    qed
  next
    case wait
    have "\<exists>r. tasks w' = (tasks w)(t \<mapsto> LockTask p x f lock LockRelease) \<and> receiver w' = receiver w \<and>
        sent w' = sent w @ [(f, r)] \<and> final_answer lock r"
      using step wait
      by (auto simp: set_task_def send_reply_def set_lock_wait_def io_cvt_def split: option.splits sum.splits prod.splits if_splits)
    then obtain r where r: "tasks w' = (tasks w)(t \<mapsto> LockTask p x f lock LockRelease)" "receiver w' = receiver w"
        "sent w' = sent w @ [(f, r)]" "final_answer lock r" by blast
    show ?thesis
      by (rule holder_move [OF inv task Some r(1,2), of "[r]"]) (use r wait in \<open>auto dest!: open_lockD\<close>)
  next
    case abort
    then show ?thesis using step
      by (intro holder_move [OF inv task Some, of _ None "[]"]) (auto simp: set_task_def dest!: open_lockD)
  qed
qed

text \<open>The moves of the receiving thread.\<close>

lemma request_replied:
  assumes inv: "sessions_ok reqs w" and new: "reqs f = None" and ok: "complete_session m [r]"
    and eff: "tasks w' = tasks w" "receiver w' = receiver w" "sent w' = sent w @ [(f, r)]"
  shows "sessions_ok (reqs(f \<mapsto> m)) w'"
proof -
  have none: "holders w f = {}" "replies_on f w = []"
    using inv [unfolded sessions_ok_def, rule_format, of f] new by (simp_all add: session_at_def)
  have "holders w' = holders w" "replies_on g w' = replies_on g w @ (if g = f then [r] else [])" for g
    using holders_cong eff(1,2) replies_on_cong [of w' w f "[r]"] eff(3) by auto
  then show ?thesis using none ok by (intro sessions_ok_new [OF inv]) (simp_all add: session_ok_def)
qed

lemma request_handed:
  assumes inv: "sessions_ok reqs w" and new: "reqs f = None" and ok: "open_session m h []"
    and eff: "\<And>g. holders w' g = holders w g \<union> (if g = f then {h} else {})" "sent w' = sent w"
  shows "sessions_ok (reqs(f \<mapsto> m)) w'"
proof -
  have none: "holders w f = {}" "replies_on f w = []"
    using inv [unfolded sessions_ok_def, rule_format, of f] new by (simp_all add: session_at_def)
  have "replies_on g w' = replies_on g w" for g using eff(2) by (simp add: replies_on_def)
  then show ?thesis using none ok eff(1) by (intro sessions_ok_new [OF inv]) (simp_all add: session_ok_def)
qed

lemma dispatch_sessions:
  assumes inv: "sessions_ok reqs w" and new: "reqs f = None"
    and step: "receive_request_step check t m f w = Some w'"
  shows "sessions_ok (reqs(f \<mapsto> m)) w'"
proof -
  have idle: "receiver w = RecvIdle" "tasks w t = None"
    using step by (auto simp: receive_request_step_def split: if_splits)
  have hold: "HeldBy t k \<notin> holders w g" for g k using idle by (auto simp: holders_def)
  note replied = request_replied [OF inv new] and handed = request_handed [OF inv new]
  have started: ?thesis if "open_session m (HeldBy t k) []" "tasks w' = (tasks w)(t \<mapsto> k)" "receiver w' = receiver w"
      "task_fd k = Some f" "sent w' = sent w" for k
    using that by (intro handed [of _ "HeldBy t k"]) (auto simp: holders_task [OF that(2,3)] hold)
  show ?thesis
  proof (cases m)
    case (Message_LockCommand cmd)
    show ?thesis
    proof (cases "lock_lookup (shared w) (command_id cmd)")
      case (Pair r D)
      show ?thesis
      proof (cases r)
        case (Inl e)
        obtain n where "(io_cvt (Inl e) :: errno + ReplyLockCommandData) = Inl n" by (rule io_cvt_error)
        then show ?thesis using step Pair idle Message_LockCommand Inl
          by (intro replied [of _ "ReplyLock (Inl n)"]; cases "command_action cmd")
            (auto simp: receive_request_step_def send_reply_def)
      next
        case (Inr p)
        then have w': "tasks w' = tasks w" "receiver w' = RecvCommand p cmd f" "sent w' = sent w"
          using step Pair idle Message_LockCommand by (auto simp: receive_request_step_def)
        then have "holders w' g = holders w g \<union> (if g = f then {Dispatching cmd} else {})" for g
          using idle by (auto simp: holders_def)
        then show ?thesis using w'(3) Message_LockCommand by (intro handed [of _ "Dispatching cmd"]) auto
      qed
    qed
  next
    case (Message_Interrupt i)
    then show ?thesis using step idle
      by (intro started [of "InterruptTask f i"]) (auto simp: receive_request_step_def set_task_def)
  next
    case (Message_Unregister u)
    then show ?thesis using step idle
      by (intro started [of "UnregisterTask f u"]) (auto simp: receive_request_step_def set_task_def)
  next
    case (Message_Ping x)
    then show ?thesis using step idle
      by (intro replied [of _ "ReplyUnit (Inr ())"]) (auto simp: receive_request_step_def send_reply_def)
  next
    case (Message_RemoveInterrupt i)
    obtain r D where "handle_interrupt_remove (shared w) i = (r, D)" by fastforce
    then show ?thesis using step idle Message_RemoveInterrupt
      by (intro replied [of _ "ReplyUnit (io_cvt r)"]) (auto simp: receive_request_step_def send_reply_def)
  next
    case (Message_Register r)
    then obtain res D where "handle_fd_register check (shared w) r = Some (res, D)"
      using step idle by (auto simp: receive_request_step_def)
    then show ?thesis using step idle Message_Register
      by (intro replied [of _ "ReplyId (io_cvt res)"]) (auto simp: receive_request_step_def send_reply_def)
  qed
qed

lemma status_reply_ok: "get_lock_status c fc fd lock k = (r, k') \<Longrightarrow> status_answer (ReplyLock r)"
  by (auto simp: get_lock_status_def io_cvt_def map_ok_def and_then_def split: prod.splits sum.splits option.splits)

lemma nonblocking_reply_ok:
  "consts_ok c \<Longrightarrow> set_lock_nonblocking c fc fd lock k = (r, k') \<Longrightarrow> final_answer lock (ReplyLock r)"
  using flock_params_accept [of c "flock_from c lock" lock]
  by (auto simp: set_lock_nonblocking_def io_cvt_def Let_def split: prod.splits sum.splits option.splits)

text \<open>
  The receiving thread is done with a lock command: it has dropped the reply object after its
  replies, or has handed it to the new thread.
\<close>

lemma command_held:
  fixes w :: "('b, 'k) owner_sys"
  assumes inv: "sessions_ok reqs w" and recv: "receiver w = RecvCommand p cmd f"
  obtains m where "reqs f = Some m" "holders w f = {Dispatching cmd}" "m = Message_LockCommand cmd" "replies_on f w = []"
proof -
  have "Dispatching cmd \<in> holders w f" using recv by (auto simp: holders_def)
  then obtain m where m: "reqs f = Some m" "holders w f = {Dispatching cmd}"
      "open_session m (Dispatching cmd :: 'b holder) (replies_on f w)" by (rule sessions_okD [OF inv])
  then show thesis using that open_lockD(4) [OF m(3)] by blast
qed

lemma command_dropped:
  assumes inv: "sessions_ok reqs w" and recv: "receiver w = RecvCommand p cmd f" and held: "reqs f = Some (Message_LockCommand cmd)"
    and eff: "tasks w' = tasks w" "receiver w' = RecvRelease p" "sent w' = sent w @ map (Pair f) rs"
    and ok: "complete_lock (command_action cmd) (command_params cmd) rs"
  shows "sessions_ok reqs w'"
proof -
  have reqs: "reqs = reqs(f \<mapsto> Message_LockCommand cmd)" using held by auto
  have none: "replies_on f w = []" by (rule command_held [OF inv recv])
  have hold: "holders w' g = holders w g - {Dispatching cmd}" for g using eff(1,2) recv by (auto simp: holders_def)
  show ?thesis
  proof (subst reqs, rule sessions_ok_new [OF inv])
    show "session_ok (Message_LockCommand cmd) (holders w' f) (replies_on f w')"
      using ok none eff(1,2) recv command_held [OF inv recv] hold [of f]
      by (auto simp: session_ok_def replies_on_cong [OF eff(3)])
    show "holders w' g = holders w g \<and> replies_on g w' = replies_on g w" if "g \<noteq> f" for g
      using that hold [of g] recv replies_on_cong [OF eff(3), of g] by (auto simp: holders_def)
  qed
qed

lemma command_handed:
  assumes inv: "sessions_ok reqs w" and recv: "receiver w = RecvCommand p cmd f" and held: "reqs f = Some (Message_LockCommand cmd)"
    and eff: "tasks w' = (tasks w)(t \<mapsto> k)" "receiver w' = RecvRelease p" "sent w' = sent w" "tasks w t = None"
    and ok: "task_fd k = Some f" "open_session (Message_LockCommand cmd) (HeldBy t k) []"
  shows "sessions_ok reqs w'"
proof -
  have reqs: "reqs = reqs(f \<mapsto> Message_LockCommand cmd)" using held by auto
  have none: "replies_on f w = []" "holders w f = {Dispatching cmd}" by (rule command_held [OF inv recv], assumption)+
  have hold: "holders w' g = (holders w g - {Dispatching cmd}) \<union> (if g = f then {HeldBy t k} else {})" for g
    using eff ok(1) recv by (auto simp: holders_def) (metis option.distinct(1))
  show ?thesis
  proof (subst reqs, rule sessions_ok_new [OF inv])
    show "session_ok (Message_LockCommand cmd) (holders w' f) (replies_on f w')"
      using eff(3) ok(2) none hold [of f] by (auto simp: session_ok_def replies_on_def)
    show "holders w' g = holders w g \<and> replies_on g w' = replies_on g w" if "g \<noteq> f" for g
      using that hold [of g] recv eff(3) by (simp add: replies_on_def) (auto simp: holders_def)
  qed
qed

lemma command_sessions:
  fixes w :: "('b, 'k) owner_sys"
  assumes inv: "sessions_ok reqs w" and abi: "consts_ok c" and step: "command_step c fc os w = Some w'"
  shows "sessions_ok reqs w'"
proof (cases "receiver w")
  case (RecvRelease p)
  then have "holders w' = holders w" "sent w' = sent w" using step by (auto simp: command_step_def holders_def)
  then show ?thesis by (intro sessions_ok_same [OF inv]) (simp_all add: replies_on_def)
next
  case (RecvCommand p cmd f)
  have held: "reqs f = Some (Message_LockCommand cmd)" by (rule command_held [OF inv RecvCommand]) simp
  have lock: "handle_lock_command c fc os p cmd f w = Some w'" and free: "\<And>t. os = Inr t \<Longrightarrow> tasks w t = None"
    using step RecvCommand by (auto simp: command_step_def split: sum.splits if_splits)
  note dropped = command_dropped [OF inv RecvCommand held]
    and handed = command_handed [OF inv RecvCommand held]
  obtain d where d: "heap (shared w) p = Some d" using lock by (auto simp: handle_lock_command_def split: option.splits)
  show ?thesis
  proof (cases "command_action cmd")
    case GetLockStatus
    obtain r k' where r: "get_lock_status c fc (descriptor d) (command_params cmd) (kern w) = (r, k')" by fastforce
    then have "status_answer (ReplyLock r)" by (rule status_reply_ok)
    then show ?thesis using lock d r GetLockStatus
      by (intro dropped [of _ "[ReplyLock r]"]) (auto simp: handle_lock_command_def send_reply_def)
  next
    case SetLockNonBlocking
    obtain r k' where r: "set_lock_nonblocking c fc (descriptor d) (command_params cmd) (kern w) = (r, k')" by fastforce
    then have "final_answer (command_params cmd) (ReplyLock r)" by (rule nonblocking_reply_ok [OF abi])
    then show ?thesis using lock d r SetLockNonBlocking
      by (intro dropped [of _ "[ReplyLock r]"]) (auto simp: handle_lock_command_def send_reply_def)
  next
    case SetLockBlocking
    show ?thesis
    proof (cases os)
      case (Inl e)
      then show ?thesis using lock d SetLockBlocking
        by (intro dropped [of _ "[]"]) (auto simp: handle_lock_command_def tracker_spawn_def)
    next
      case (Inr t)
      obtain r d' where g: "InterruptibleGuard_new t (next_exit w) (fd_tracker d) = (r, d')" by fastforce
      show ?thesis
      proof (cases r)
        case (Inl e)
        then show ?thesis using lock d g Inr SetLockBlocking free
          by (intro handed [of _ t "LockAbort p f"]) (auto simp: handle_lock_command_def tracker_spawn_def set_task_def)
      next
        case (Inr guard)
        then have "guard = \<lparr>guard_thread = t, guard_exit = next_exit w\<rparr>"
          using g by (auto simp: InterruptibleGuard_new_def split: prod.splits sum.splits)
        then show ?thesis using lock d g Inr \<open>os = Inr t\<close> SetLockBlocking free
          by (intro handed [of _ t "LockTask p (next_exit w) f (command_params cmd) LockTry"])
            (auto simp: handle_lock_command_def tracker_spawn_def set_task_def)
      qed
    qed
  qed
qed (use step in \<open>simp_all add: command_step_def\<close>)

lemma exec_sessions:
  assumes inv: "sessions_ok reqs w" and abi: "consts_ok c" and step: "owner_exec bo c fc mv w = Some w'"
    and new: "\<And>f m. (f, m) \<in> set (requests [mv]) \<Longrightarrow> reqs f = None"
  shows "sessions_ok (reqs ++ map_of (requests [mv])) w'"
proof (cases mv)
  case (MReceive check t m f)
  then have "reqs ++ map_of (requests [mv]) = reqs(f \<mapsto> m)" "reqs f = None" using new by auto
  then show ?thesis using dispatch_sessions [OF inv, of f check t m w'] step MReceive by simp
next
  case (MInterrupt t tries)
  then show ?thesis using interrupt_sessions [OF inv] step by (auto simp: bind_eq_Some_conv)
next
  case (MUnregister t tries)
  then show ?thesis using unregister_sessions [OF inv] step by (auto simp: bind_eq_Some_conv)
next
  case (MLock t mask_change)
  then show ?thesis using lock_sessions [OF inv] step by (auto simp: bind_eq_Some_conv)
next
  case (MCommand os)
  then show ?thesis using command_sessions [OF inv abi] step by simp
next
  case (MError e)
  then have "tasks w' = tasks w" "recv_fd (receiver w') = None" "recv_fd (receiver w) = None" "sent w' = sent w"
    using step by (auto simp: receive_error_def split: if_splits option.splits)
  then have "holders w' = holders w" "\<And>f. replies_on f w' = replies_on f w"
    by (auto simp: holders_def fun_eq_iff replies_on_def)
  then have "sessions_ok reqs w'" by (rule sessions_ok_same [OF inv])
  then show ?thesis using MError by simp
next
  case (MMain ev)
  then have "tasks w' = tasks w" "receiver w' = receiver w" "sent w' = sent w"
    using step by (cases ev; auto split: if_splits prod.splits sum.splits receiver_stage.splits)+
  then have "sessions_ok reqs w'" by (intro sessions_ok_same [OF inv holders_cong]) (simp_all add: replies_on_def)
  then show ?thesis using MMain by simp
qed

lemma requests_append: "requests (xs @ ys) = requests xs @ requests ys"
  by (induction xs rule: requests.induct) auto

lemma run_sessions:
  assumes "sessions_ok reqs w" "consts_ok c" "owner_run bo c fc mvs w = Some w'"
    and "distinct (map fst (requests mvs))" "\<And>f. f \<in> fst ` set (requests mvs) \<Longrightarrow> reqs f = None"
  shows "sessions_ok (reqs ++ map_of (requests mvs)) w'"
  using assms(1,3-)
proof (induction mvs arbitrary: w reqs)
  case (Cons mv mvs)
  obtain w1 where w1: "owner_exec bo c fc mv w = Some w1" "owner_run bo c fc mvs w1 = Some w'"
    using Cons.prems(2) by (auto simp: bind_eq_Some_conv simp del: owner_exec.simps)
  have req: "requests (mv # mvs) = requests [mv] @ requests mvs" using requests_append [of "[mv]" mvs] by simp
  let ?reqs = "reqs ++ map_of (requests [mv])"
  have new: "(f, m) \<in> set (requests [mv]) \<Longrightarrow> reqs f = None" for f m using Cons.prems(4) req by force
  have "sessions_ok ?reqs w1" by (rule exec_sessions [OF Cons.prems(1) assms(2) w1(1) new])
  moreover have "?reqs f = None" if "f \<in> fst ` set (requests mvs)" for f
    using Cons.prems(3,4) that unfolding req by (auto simp: map_add_None map_of_eq_None_iff)
  ultimately have "sessions_ok (?reqs ++ map_of (requests mvs)) w'"
    using Cons.IH w1(2) Cons.prems(3) unfolding req by simp
  moreover have "dom (map_of (requests [mv])) \<inter> dom (map_of (requests mvs)) = {}"
    using Cons.prems(3) unfolding req by (simp add: dom_map_of_conv_image_fst)
  then have "reqs ++ map_of (requests (mv # mvs)) = ?reqs ++ map_of (requests mvs)"
    unfolding req map_of_append map_add_assoc [symmetric] by (metis map_add_comm)
  ultimately show ?case by simp
qed simp

lemma sessions_start: "sessions_ok Map.empty (owner_start k)"
  by (simp add: sessions_ok_def session_at_def holders_def replies_on_def owner_start_def)

section \<open>Types\<close>

lemma lock_reply_type:
  "first_answer lock r \<Longrightarrow> reply_type (ReplyLockCommand raw) r" "final_answer lock r \<Longrightarrow> reply_type (ReplyLockCommand raw) r"
  "status_answer r \<Longrightarrow> reply_type (ReplyLockCommand raw) r" "is_error r \<Longrightarrow> reply_type (ReplyLockCommand raw) r"
  by (cases r; simp)+

lemma complete_lock_type: "complete_lock a lock rs \<Longrightarrow> r \<in> set rs \<Longrightarrow> reply_type (ReplyLockCommand raw) r"
  by (cases a) (auto intro: lock_reply_type split: list.splits)

lemma complete_types: "complete_session m rs \<Longrightarrow> r \<in> set rs \<Longrightarrow> reply_type (create_reply m f) r"
  by (cases m; cases r) (auto simp: create_reply_defs complete_lock_type split: list.splits server_reply.splits
      dest: complete_lock_type [where raw = "RawReply f"])

lemma open_types:
  assumes "open_session m h rs" "r \<in> set rs"
  shows "reply_type (create_reply m f) r"
proof (cases "(m, h, rs)" rule: open_session.cases)
  case (9 cmd t p x g lock stage rs')
  then show ?thesis using assms
    by (auto simp: create_reply_defs intro: lock_reply_type split: lock_stage.splits list.splits)
qed (use assms in auto)

text \<open>A reply object that has been used twice is gone.\<close>

lemma two_replies_closed: "open_session m h [r1, r2] \<Longrightarrow> False"
  by (cases "(m, h, [r1, r2])" rule: open_session.cases) (auto split: lock_stage.splits)

section \<open>Which sockets a move closes\<close>

text \<open>A thread's move leaves the other threads and the receiving thread where they are.\<close>

lemma thread_frame:
  assumes "owner_exec bo c fc mv w = Some w'" "mv \<in> {MInterrupt t tries, MUnregister t tries, MLock t mask_change}"
  shows "receiver w' = receiver w \<and> (\<forall>t'. t' \<noteq> t \<longrightarrow> tasks w' t' = tasks w t') \<and>
    Option.bind (tasks w' t) task_fd \<in> {None, Option.bind (tasks w t) task_fd} \<and>
    (\<forall>f. Option.bind (tasks w t) task_fd \<noteq> Some f \<longrightarrow> replies_on f w' = replies_on f w)"
proof -
  consider (interrupt) k sigs where "tasks w t = Some k" "handle_interrupt_step bo tries t k w = Some (sigs, w')"
    | (unregister) k sigs where "tasks w t = Some k" "handle_fd_unregister_step bo tries t k w = Some (sigs, w')"
    | (lock) k where "tasks w t = Some k" "lock_thread_step c fc mask_change t k w = Some w'"
    using assms by (auto simp: bind_eq_Some_conv)
  then show ?thesis
  proof cases
    case interrupt
    then show ?thesis
      by (cases k) (auto simp: interrupt_iter_def session_effects replies_on_def split: sum.splits option.splits if_splits prod.splits)
  next
    case unregister
    then show ?thesis
      by (cases k) (auto simp: unregister_iter_def case_prod_beta session_effects replies_on_def split: sum.splits option.splits if_splits prod.splits)
  next
    case lock
    then show ?thesis
      by (cases "(c, fc, mask_change, t, k, w)" rule: lock_thread_step.cases)
        (auto simp: session_effects replies_on_def split: sum.splits option.splits if_splits prod.splits)
  qed
qed

lemma holder_elsewhere:
  assumes "h \<in> holders w' f" "receiver w' = receiver w" "\<And>t'. t' \<noteq> t \<Longrightarrow> tasks w' t' = tasks w t'" "holders w f \<subseteq> {HeldBy t k}"
  shows "Option.bind (tasks w' t) task_fd = Some f"
proof -
  from assms(1) consider t' k' where "tasks w' t' = Some k'" "task_fd k' = Some f" | p cmd where "receiver w' = RecvCommand p cmd f"
    by (auto simp: holders_def)
  then show ?thesis
  proof cases
    case 1
    then show ?thesis using assms(3) [of t'] assms(4) by (cases "t' = t") (auto simp: holders_def)
  next
    case 2
    then have "Dispatching cmd \<in> holders w f" using assms(2) by (auto simp: holders_def)
    then show ?thesis using assms(4) by auto
  qed
qed

text \<open>Whether the socket that a move deals with still has a holder is seen where the move left it.\<close>

lemma held_here: "Option.bind (tasks w' t) task_fd = Some f \<Longrightarrow> holders w' f \<noteq> {}"
  by (cases "tasks w' t") (auto simp: holders_def)

lemma thread_moved:
  assumes inv: "sessions_ok reqs w" and task: "Option.bind (tasks w t) task_fd = Some f"
    and frame: "receiver w' = receiver w \<and> (\<forall>t'. t' \<noteq> t \<longrightarrow> tasks w' t' = tasks w t')"
  shows "Option.bind (tasks w' t) task_fd = Some f \<longleftrightarrow> holders w' f \<noteq> {}"
proof
  obtain k where "tasks w t = Some k" "task_fd k = Some f" using task by (cases "tasks w t") auto
  then have "HeldBy t k \<in> holders w f" by (auto simp: holders_def)
  then have one: "holders w f \<subseteq> {HeldBy t k}" by (rule sessions_okD [OF inv]) simp
  assume "holders w' f \<noteq> {}"
  then show "Option.bind (tasks w' t) task_fd = Some f" using holder_elsewhere [OF _ _ _ one] frame by blast
qed (rule held_here)

lemma command_moved:
  assumes inv: "sessions_ok reqs w" and step: "command_step c fc os w = Some w'" and recv: "receiver w = RecvCommand p cmd f"
  shows "(\<exists>t. os = Inr t \<and> Option.bind (tasks w' t) task_fd = Some f) \<longleftrightarrow> holders w' f \<noteq> {}"
proof
  have one: "holders w f = {Dispatching cmd}" by (rule command_held [OF inv recv])
  have frame: "receiver w' = RecvRelease p" "os \<noteq> Inr t' \<Longrightarrow> tasks w' t' = tasks w t'" for t'
    using step recv
    by (auto simp: command_step_def handle_lock_command_def tracker_spawn_def InterruptibleGuard_new_def session_effects
        split: sum.splits option.splits LockAction.splits prod.splits if_splits)
  assume "holders w' f \<noteq> {}"
  then obtain t k where t: "tasks w' t = Some k" "task_fd k = Some f" using frame(1) by (auto simp: holders_def)
  then have "os = Inr t" using frame(2) [of t] one by (cases "os = Inr t") (auto simp: holders_def)
  then show "\<exists>t. os = Inr t \<and> Option.bind (tasks w' t) task_fd = Some f" using t by auto
qed (use held_here in blast)

lemma request_moved:
  assumes none: "holders w f = {}" and step: "receive_request_step check t m f w = Some w'"
  shows "Option.bind (tasks w' t) task_fd = Some f \<or> recv_fd (receiver w') = Some f \<longleftrightarrow> holders w' f \<noteq> {}"
proof
  have frame: "t' \<noteq> t \<Longrightarrow> tasks w' t' = tasks w t'" for t'
    using step by (cases m; auto simp: receive_request_step_def set_task_def send_reply_def split: prod.splits sum.splits if_splits)
  assume "holders w' f \<noteq> {}"
  then consider t' k' where "tasks w' t' = Some k'" "task_fd k' = Some f" | p cmd where "receiver w' = RecvCommand p cmd f"
    by (auto simp: holders_def)
  then show "Option.bind (tasks w' t) task_fd = Some f \<or> recv_fd (receiver w') = Some f"
  proof cases
    case 1
    then show ?thesis using frame [of t'] none by (cases "t' = t") (auto simp: holders_def)
  qed simp
next
  have "recv_fd (receiver w') = Some f \<Longrightarrow> holders w' f \<noteq> {}" by (cases "receiver w'") (auto simp: holders_def)
  then show "Option.bind (tasks w' t) task_fd = Some f \<or> recv_fd (receiver w') = Some f \<Longrightarrow> holders w' f \<noteq> {}"
    using held_here by blast
qed

lemma dropped_iff:
  assumes inv: "sessions_ok reqs w" and step: "owner_exec bo c fc mv w = Some w'"
    and new: "\<And>f m. (f, m) \<in> set (requests [mv]) \<Longrightarrow> reqs f = None"
  shows "f \<in> set (dropped_fds mv w w') \<longleftrightarrow> move_fd mv w = Some f \<and> holders w' f = {}"
proof -
  have "Some f \<in> set (moved_fds mv w') \<longleftrightarrow> holders w' f \<noteq> {}" if mv: "move_fd mv w = Some f"
  proof -
    have thread: "Some f = Option.bind (tasks w' t) task_fd \<longleftrightarrow> holders w' f \<noteq> {}"
      if "Option.bind (tasks w t) task_fd = Some f"
        and "(\<exists>tries. mv = MInterrupt t tries) \<or> (\<exists>tries. mv = MUnregister t tries) \<or> (\<exists>mask_change. mv = MLock t mask_change)" for t
    proof -
      have "receiver w' = receiver w \<and> (\<forall>t'. t' \<noteq> t \<longrightarrow> tasks w' t' = tasks w t')"
        using thread_frame [OF step, of t] that(2) by blast
      from thread_moved [OF inv that(1) this] show ?thesis by (simp add: eq_commute [of "Some f"])
    qed
    show ?thesis
    proof (cases mv)
      case (MCommand os)
      then obtain p cmd where r: "receiver w = RecvCommand p cmd f" using mv by (cases "receiver w") auto
      show ?thesis using command_moved [OF inv _ r, of c fc os w'] step MCommand
        by (cases os) (simp_all add: eq_commute [of "Some f"])
    next
      case (MReceive check t m g)
      then have "holders w f = {}" "g = f"
        using new mv inv [unfolded sessions_ok_def, rule_format, of f] by (auto simp: session_at_def)
      then show ?thesis using request_moved [of w f check t m w'] step MReceive by (simp add: eq_commute [of "Some f"])
    qed (use mv thread in simp_all)
  qed
  then show ?thesis by (auto simp: dropped_fds_def split: option.splits)
qed

text \<open>A move only touches the session of the thread that makes it.\<close>

lemma exec_other:
  assumes step: "owner_exec bo c fc mv w = Some w'" and f: "move_fd mv w \<noteq> Some f"
  shows "holders w' f = holders w f \<and> replies_on f w' = replies_on f w"
proof -
  have thread: ?thesis if frame: "receiver w' = receiver w \<and> (\<forall>t'. t' \<noteq> t \<longrightarrow> tasks w' t' = tasks w t') \<and>
      Option.bind (tasks w' t) task_fd \<in> {None, Option.bind (tasks w t) task_fd} \<and>
      (\<forall>f. Option.bind (tasks w t) task_fd \<noteq> Some f \<longrightarrow> replies_on f w' = replies_on f w)"
      and own: "Option.bind (tasks w t) task_fd \<noteq> Some f" for t
  proof -
    have "tasks w t' = Some k \<and> task_fd k = Some f \<longleftrightarrow> tasks w' t' = Some k \<and> task_fd k = Some f" for t' k
      using frame own by (cases "t' = t") auto
    then show ?thesis using frame own by (auto simp: holders_def)
  qed
  show ?thesis
  proof (cases mv)
    case (MInterrupt t tries)
    then show ?thesis using f thread_frame [OF step, of t] by (intro thread [of t]) auto
  next
    case (MUnregister t tries)
    then show ?thesis using f thread_frame [OF step, of t] by (intro thread [of t]) auto
  next
    case (MLock t mask_change)
    then show ?thesis using f thread_frame [OF step, of t] by (intro thread [of t]) auto
  next
    case (MReceive check t m g)
    then show ?thesis using step f
      by (cases m; auto simp: receive_request_step_def set_task_def send_reply_def holders_def replies_on_def
          split: prod.splits sum.splits if_splits)
  next
    case (MCommand os)
    then show ?thesis using step f
      by (auto simp: command_step_def handle_lock_command_def tracker_spawn_def InterruptibleGuard_new_def session_effects
          holders_def replies_on_def split: receiver_stage.splits sum.splits option.splits LockAction.splits prod.splits if_splits)
  next
    case (MError e)
    then show ?thesis using step
      by (auto simp: receive_error_def holders_def replies_on_def split: if_splits option.splits)
  next
    case (MMain ev)
    then show ?thesis using step
      by (cases ev; auto simp: holders_def replies_on_def split: if_splits prod.splits sum.splits receiver_stage.splits)
  qed
qed

text \<open>A socket without a holder is not touched any more.\<close>

lemma unheld_move: "holders w f = {} \<Longrightarrow> f \<notin> fst ` set (requests [mv]) \<Longrightarrow> move_fd mv w \<noteq> Some f"
  by (cases mv) (auto simp: holders_empty bind_eq_Some_conv)

lemma closed_stays:
  "holders w f = {} \<Longrightarrow> f \<notin> fst ` set (requests mvs) \<Longrightarrow> owner_run bo c fc mvs w = Some w' \<Longrightarrow>
   replies_on f w' = replies_on f w \<and> holders w' f = {}"
proof (induction mvs arbitrary: w)
  case (Cons mv mvs)
  obtain w1 where w1: "owner_exec bo c fc mv w = Some w1" "owner_run bo c fc mvs w1 = Some w'"
    using Cons.prems(3) by (auto simp: bind_eq_Some_conv simp del: owner_exec.simps)
  have f: "f \<notin> fst ` set (requests [mv])" "f \<notin> fst ` set (requests mvs)"
    using Cons.prems(2) requests_append [of "[mv]" mvs] by auto
  then have "holders w1 f = {} \<and> replies_on f w1 = replies_on f w"
    using exec_other [OF w1(1)] unheld_move Cons.prems(1) by metis
  then show ?case using Cons.IH [OF _ f(2) w1(2)] by simp
qed simp

section \<open>Properties\<close>

lemma run_append: "owner_run bo c fc (xs @ ys) w = Option.bind (owner_run bo c fc xs w) (owner_run bo c fc ys)"
  by (induction xs arbitrary: w) (auto simp: bind_eq_None_conv split: bind_splits simp del: owner_exec.simps)

lemma run_start_sessions:
  assumes "consts_ok c" "owner_run bo c fc mvs (owner_start k) = Some w" "distinct (map fst (requests mvs))"
  shows "sessions_ok (map_of (requests mvs)) w"
  using run_sessions [OF sessions_start assms] by simp

text \<open>
  Property C3. The replies of the owner process follow the types and the order of the protocol. In
  every run of the process, with all interleavings of its threads, take any request it has received:
  every reply that went to its one-shot socket has the payload type of the request's reply object.
  While the reply object exists it has exactly one holder, and that thread has replied only with what
  may come before its next reply; a blocking lock has at most one reply by then. When the object is
  gone the replies are complete: one for each request that does not wait, and for a blocking lock an
  error, or two replies of which the last reports the lock that was asked for or an error and never
  that the lock is pending. Replies are only sent to sockets of requests.
\<close>

theorem reply_sessions:
  assumes "consts_ok c" "owner_run bo c fc mvs (owner_start k) = Some w" "distinct (map fst (requests mvs))"
    and "(f, m) \<in> set (requests mvs)"
  shows "list_all (reply_type (create_reply m f)) (replies_on f w) \<and>
    (if holders w f = {} then complete_session m (replies_on f w)
     else \<exists>h. holders w f = {h} \<and> open_session m h (replies_on f w)) \<and>
    fst ` set (sent w) \<subseteq> fst ` set (requests mvs)"
proof (intro conjI)
  note inv = run_start_sessions [OF assms(1-3), unfolded sessions_ok_def, rule_format]
  have "map_of (requests mvs) f = Some m" using assms(3,4) by simp
  then have ok: "session_ok m (holders w f) (replies_on f w)" using inv [of f] by (simp add: session_at_def)
  then show "list_all (reply_type (create_reply m f)) (replies_on f w)"
    using complete_types open_types by (fastforce simp: session_ok_def list_all_iff)
  show "if holders w f = {} then complete_session m (replies_on f w)
      else \<exists>h. holders w f = {h} \<and> open_session m h (replies_on f w)" using ok by (auto simp: session_ok_def)
  show "fst ` set (sent w) \<subseteq> fst ` set (requests mvs)"
  proof (clarify, rule ccontr)
    fix g r assume g: "(g, r) \<in> set (sent w)" "fst (g, r) \<notin> fst ` set (requests mvs)"
    then have "map_of (requests mvs) g = None" by (simp add: map_of_eq_None_iff)
    then have "replies_on g w = []" using inv [of g] by (simp add: session_at_def)
    then show False using g(1) by (auto simp: replies_on_def filter_empty_conv)
  qed
qed

theorem reply_sessions_witness:
  "\<exists>w :: (nat, unit) owner_sys.
     owner_run step_backoff linux_consts busy_fcntl interrupt_moves (owner_start ()) = Some w \<and>
     replies_on 101 w = [ReplyLock (Inr (Pending 0)), ReplyLock (Inl EINTR)] \<and> holders w 101 = {} \<and>
     complete_session (owner_request SetLockBlocking Write) (replies_on 101 w)"
proof -
  have "map_option (\<lambda>w. (replies_on 101 w, map (\<lambda>t. Option.bind (tasks w t) task_fd) [10, 20, 40]))
      (owner_run step_backoff linux_consts busy_fcntl interrupt_moves (owner_start ())) =
    Some ([ReplyLock (Inr (Pending 0)), ReplyLock (Inl EINTR)], [None, None, Some 104])"
    unfolding interrupt_moves_def locking_moves_def by code_simp
  then obtain w :: "(nat, unit) owner_sys" where
    w: "owner_run step_backoff linux_consts busy_fcntl interrupt_moves (owner_start ()) = Some w"
      "replies_on 101 w = [ReplyLock (Inr (Pending 0)), ReplyLock (Inl EINTR)]" by auto
  have d: "distinct (map fst (requests interrupt_moves))" "(101, owner_request SetLockBlocking Write) \<in> set (requests interrupt_moves)"
    by (simp_all add: interrupt_moves_def locking_moves_def)
  note r = reply_sessions [OF linux.abi w(1) d]
  have "holders w 101 = {}" using r w(2) two_replies_closed by (auto split: if_splits)
  then show ?thesis using w r by auto
qed

text \<open>
  Property C11. A move closes the one-shot socket of a request exactly when it takes the reply object
  from its last holder, or receives the request and does not keep the object. The session is then
  complete, and no later run sends on that socket, so a client that has read the replies up to the
  end of the stream has seen all of them.
\<close>

theorem reply_socket_closed:
  assumes "consts_ok c" "owner_run bo c fc mvs (owner_start k) = Some w" "owner_exec bo c fc mv w = Some w'"
    and "distinct (map fst (requests (mvs @ mv # later)))" "(f, m) \<in> set (requests (mvs @ [mv]))"
  shows "(f \<in> set (dropped_fds mv w w') \<longleftrightarrow> holders w' f = {} \<and> (holders w f \<noteq> {} \<or> (f, m) \<in> set (requests [mv]))) \<and>
    (f \<in> set (dropped_fds mv w w') \<longrightarrow> complete_session m (replies_on f w') \<and>
       (\<forall>w2. owner_run bo c fc later w' = Some w2 \<longrightarrow> replies_on f w2 = replies_on f w' \<and> holders w2 f = {}))"
proof -
  have req: "requests (mvs @ mv # later) = requests mvs @ requests [mv] @ requests later"
    using requests_append [of mvs "mv # later"] requests_append [of "[mv]" later] by simp
  have fresh: "map_of (requests mvs) g = None" if "(g, m') \<in> set (requests [mv])" for g m'
    using assms(4) that unfolding req by (force simp: map_of_eq_None_iff)
  have inv: "sessions_ok (map_of (requests mvs)) w" using assms(4) unfolding req by (intro run_start_sessions [OF assms(1,2)]) simp
  have dist: "distinct (map fst (requests (mvs @ [mv])))" using assms(4) req by (auto simp: requests_append)
  have "owner_run bo c fc (mvs @ [mv]) (owner_start k) = Some w'" using assms(2,3) by (simp add: run_append del: owner_exec.simps)
  then have inv': "sessions_ok (map_of (requests (mvs @ [mv]))) w'" by (rule run_start_sessions [OF assms(1) _ dist])
  have m: "map_of (requests (mvs @ [mv])) f = Some m" using assms(5) dist by simp
  have one: "session_ok m (holders w' f) (replies_on f w')"
    using inv' [unfolded sessions_ok_def, rule_format, of f] m by (simp add: session_at_def)
  have own: "(f, m) \<in> set (requests [mv])" if "f \<in> fst ` set (requests [mv])"
    using fresh [of f] that assms(5) by (force simp: requests_append map_of_eq_None_iff)
  have touched: "move_fd mv w = Some f \<longleftrightarrow> holders w f \<noteq> {} \<or> (f, m) \<in> set (requests [mv])" if "holders w' f = {}"
    using that exec_other [OF assms(3), of f] unheld_move [of w f mv] own by (cases mv) auto
  have iff: "f \<in> set (dropped_fds mv w w') \<longleftrightarrow> move_fd mv w = Some f \<and> holders w' f = {}"
    by (rule dropped_iff [OF inv assms(3) fresh])
  have later: "f \<notin> fst ` set (requests later)"
  proof
    assume "f \<in> fst ` set (requests later)"
    moreover have "f \<in> fst ` set (requests (mvs @ [mv]))" using assms(5) by force
    ultimately show False using assms(4) unfolding req by (auto simp: requests_append)
  qed
  have after: "replies_on f w2 = replies_on f w' \<and> holders w2 f = {}"
    if "holders w' f = {}" "owner_run bo c fc later w' = Some w2" for w2 by (rule closed_stays [OF that(1) later that(2)])
  show ?thesis using iff touched one after by (auto simp: session_ok_def)
qed

theorem reply_socket_closed_witness:
  "\<exists>w w' :: (nat, (fd \<times> flock) set) owner_sys. run (locking_moves @ [MLock 20 (Inr ())]) = Some w \<and>
     owner_exec step_backoff linux_consts alone_fcntl (MLock 20 (Inr ())) w = Some w' \<and>
     dropped_fds (MLock 20 (Inr ())) w w' = [101] \<and> complete_session (owner_request SetLockBlocking Write) (replies_on 101 w')"
proof -
  let ?mvs = "locking_moves @ [MLock 20 (Inr ())]" and ?mv = "MLock 20 (Inr ())"
  have "Option.bind (run ?mvs) (\<lambda>w. map_option (\<lambda>w'. dropped_fds ?mv w w') (owner_exec step_backoff linux_consts alone_fcntl ?mv w))
      = Some [101]"
    unfolding locking_moves_def by code_simp
  then obtain w w' :: "(nat, (fd \<times> flock) set) owner_sys" where w: "run ?mvs = Some w"
      "owner_exec step_backoff linux_consts alone_fcntl ?mv w = Some w'" "dropped_fds ?mv w w' = [101]"
    by (auto simp: bind_eq_Some_conv simp del: owner_exec.simps)
  have d: "distinct (map fst (requests (?mvs @ ?mv # [])))" "(101, owner_request SetLockBlocking Write) \<in> set (requests (?mvs @ [?mv]))"
    by (simp_all add: locking_moves_def)
  show ?thesis using reply_socket_closed [OF linux.abi w(1,2) d] w by auto
qed

end
