(* ===== verification/Service.thy ===== *)
theory Service
  imports Registry Client Owner_Loop Sessions
begin

text \<open>
  The owner process on its sockets: the steps of \<open>Daemon_System\<close> composed with the transport. A
  request is received from the communication socket, the replies that a step makes are sent on the
  one-shot sockets of their requests, and a one-shot socket is closed when the thread that holds
  the reply object drops it. The codecs and the socket calls are those of \<open>client_env\<close>, since both
  sides use the same code. The client's operations are those of \<open>Client\<close>, on the same sockets.
\<close>

section \<open>Sending\<close>

fun send_server_reply :: "'s client_env \<Rightarrow> fd \<times> server_reply \<Rightarrow> 's \<Rightarrow> 's" where
  "send_server_reply env (f, ReplyUnit r) s = reply (net env) (unit_cd env) (RawReply f) r s"
| "send_server_reply env (f, ReplyId r) s = reply (net env) (id_cd env) (RawReply f) r s"
| "send_server_reply env (f, ReplyLock r) s = reply (net env) (lock_cd env) (RawReply f) r s"

text \<open>What a move does to the sockets: its replies are sent, then a dropped reply object is closed.\<close>

definition net_effect ::
    "'s client_env \<Rightarrow> move \<Rightarrow> ('b, 'k) owner_sys \<Rightarrow> ('b, 'k) owner_sys \<Rightarrow> 's \<Rightarrow> 's" where
  "net_effect env mv w w' s =
     drop_fds (net env) (dropped_fds mv w w')
       (fold (send_server_reply env) (drop (length (sent w)) (sent w')) s)"

section \<open>Steps\<close>

fun is_receive :: "move \<Rightarrow> bool" where
  "is_receive (MReceive _ _ _ _) = True"
| "is_receive (MError _) = True"
| "is_receive _ = False"

inductive service_step ::
    "'s client_env \<Rightarrow> 'b backoff_ops \<Rightarrow> libc_consts \<Rightarrow> 'k fcntl_calls \<Rightarrow> fd \<Rightarrow>
     ('b, 'k) owner_sys \<times> 's \<Rightarrow> ('b, 'k) owner_sys \<times> 's \<Rightarrow> bool"
  for env :: "'s client_env" and bo :: "'b backoff_ops" and c :: libc_consts
    and fc :: "'k fcntl_calls" and comm :: fd where
  service_receive: "receive_request (net env) (req_cd env) Message_deserialize comm s = (Inr (m, f), s1) \<Longrightarrow>
    owner_exec bo c fc (MReceive check t m f) w = Some w' \<Longrightarrow>
    service_step env bo c fc comm (w, s) (w', net_effect env (MReceive check t m f) w w' s1)"
| service_error: "receive_request (net env) (req_cd env) Message_deserialize comm s = (Inl e, s1) \<Longrightarrow>
    owner_exec bo c fc (MError e) w = Some w' \<Longrightarrow> service_step env bo c fc comm (w, s) (w', s1)"
| service_move: "\<not> is_receive mv \<Longrightarrow> owner_exec bo c fc mv w = Some w' \<Longrightarrow>
    service_step env bo c fc comm (w, s) (w', net_effect env mv w w' s)"

inductive_cases service_stepE: "service_step env bo c fc comm (w, s) (w', s')"

text \<open>Every step of the service is a step of the owner process, so what holds of its runs holds here.\<close>

lemma service_owner_step: "service_step env bo c fc comm (w, s) (w', s') \<Longrightarrow> owner_step bo c fc w w'"
  by (erule service_stepE) (auto intro: os_receive os_receive_error owner_exec_step split: if_splits)

lemma service_reachable:
  assumes "reachable_from (service_step env bo c fc comm) (w, s) x"
  shows "reachable_from (owner_step bo c fc) w (fst x)"
  using assms
proof (induction rule: reachable_from.induct)
  case (rf_step u v)
  then have "owner_step bo c fc (fst u) (fst v)" by (cases u; cases v) (auto intro: service_owner_step)
  then show ?case using rf_step by (auto intro: reachable_from.rf_step)
qed (auto intro: rf_refl)

section \<open>The receiving loop as a run of the service\<close>

text \<open>
  The handler of the receiving loop: what the receiving thread does with a request or a bad
  message, and then what the other threads do before it receives again. The choices are made by the
  outside, one record for each round: the outcome of the SIGUSR1 check, the number or the error of a
  new thread and the moves of the other threads. \<open>None\<close> means that a move is not possible.
\<close>

record round =
  sig_check :: "unit io_result"
  new_thread_id :: pthread
  spawn_result :: "errno + pthread"
  others :: "move list"

definition exec_move ::
    "'s client_env \<Rightarrow> 'b backoff_ops \<Rightarrow> libc_consts \<Rightarrow> 'k fcntl_calls \<Rightarrow> move \<Rightarrow>
     ('b, 'k) owner_sys \<times> 's \<Rightarrow> (('b, 'k) owner_sys \<times> 's) option" where
  "exec_move env bo c fc mv ws =
     map_option (\<lambda>w'. (w', net_effect env mv (fst ws) w' (snd ws))) (owner_exec bo c fc mv (fst ws))"

fun exec_moves ::
    "'s client_env \<Rightarrow> 'b backoff_ops \<Rightarrow> libc_consts \<Rightarrow> 'k fcntl_calls \<Rightarrow> move list \<Rightarrow>
     ('b, 'k) owner_sys \<times> 's \<Rightarrow> (('b, 'k) owner_sys \<times> 's) option" where
  "exec_moves env bo c fc [] ws = Some ws"
| "exec_moves env bo c fc (mv # mvs) ws =
     (if is_receive mv then None else Option.bind (exec_move env bo c fc mv ws) (exec_moves env bo c fc mvs))"

definition owner_handler ::
    "'s client_env \<Rightarrow> 'b backoff_ops \<Rightarrow> libc_consts \<Rightarrow> 'k fcntl_calls \<Rightarrow>
     ('s, ('b, 'k) owner_sys \<times> round list) handler" where
  "owner_handler env bo c fc item s wr =
     (case snd wr of
        [] \<Rightarrow> None
      | rd # rds \<Rightarrow>
          map_option (\<lambda>(w', s'). (s', (w', rds)))
            (case item of
               Got m f \<Rightarrow>
                 Option.bind (exec_move env bo c fc (MReceive (sig_check rd) (new_thread_id rd) m f) (fst wr, s))
                   (\<lambda>ws. exec_moves env bo c fc
                      ((if receiver (fst ws) = RecvIdle then [] else [MCommand (spawn_result rd), MCommand (spawn_result rd)])
                        @ others rd) ws)
             | Rejected e \<Rightarrow>
                 Option.bind (owner_exec bo c fc (MError e) (fst wr))
                   (\<lambda>w'. exec_moves env bo c fc (others rd) (w', s))))"

lemma exec_moves_reachable:
  "exec_moves env bo c fc mvs ws = Some ws' \<Longrightarrow> reachable_from (service_step env bo c fc comm) ws ws'"
proof (induction mvs arbitrary: ws)
  case (Cons mv mvs)
  obtain w s where ws: "ws = (w, s)" by (cases ws)
  from Cons.prems obtain w1 where 1: "\<not> is_receive mv" "owner_exec bo c fc mv w = Some w1"
      "exec_moves env bo c fc mvs (w1, net_effect env mv w w1 s) = Some ws'"
    by (auto simp: ws exec_move_def bind_eq_Some_conv split: if_splits)
  then have "service_step env bo c fc comm ws (w1, net_effect env mv w w1 s)" unfolding ws by (intro service_move)
  then show ?case using Cons.IH [OF 1(3)] by (blast intro: reachable_from_trans reachable_from_single)
qed (simp add: rf_refl)

lemma owner_handler_gotE:
  assumes "owner_handler env bo c fc (Got m f) s (w, rds) = Some (s2, (w2, rds2))"
  obtains rd :: round and w1 where "owner_exec bo c fc (MReceive (sig_check rd) (new_thread_id rd) m f) w = Some w1"
    "exec_moves env bo c fc
       ((if receiver w1 = RecvIdle then [] else [MCommand (spawn_result rd), MCommand (spawn_result rd)]) @ others rd)
       (w1, net_effect env (MReceive (sig_check rd) (new_thread_id rd) m f) w w1 s) = Some (w2, s2)"
proof (cases rds)
  case (Cons rd _)
  then show thesis
    using assms that [of rd]
    by (auto simp: owner_handler_def exec_move_def bind_eq_Some_conv simp del: owner_exec.simps)
qed (use assms in \<open>simp add: owner_handler_def\<close>)

lemma owner_handler_rejectedE:
  assumes "owner_handler env bo c fc (Rejected e) s (w, rds) = Some (s2, (w2, rds2))"
  obtains rd :: round and w1 where "owner_exec bo c fc (MError e) w = Some w1" "exec_moves env bo c fc (others rd) (w1, s) = Some (w2, s2)"
proof (cases rds)
  case (Cons rd _)
  then show thesis
    using assms that [of _ rd] by (auto simp: owner_handler_def bind_eq_Some_conv simp del: owner_exec.simps)
qed (use assms in \<open>simp add: owner_handler_def\<close>)

lemma owner_handler_got:
  assumes recv: "receive_request (net env) (req_cd env) Message_deserialize comm s = (Inr (m, f), s1)"
    and h: "owner_handler env bo c fc (Got m f) s1 (w, rds) = Some (s2, (w2, rds2))"
  shows "reachable_from (service_step env bo c fc comm) (w, s) (w2, s2)"
  using h
proof (cases rule: owner_handler_gotE)
  case (1 rd w1)
  show ?thesis
    using exec_moves_reachable [OF 1(2), of comm] service_receive [OF recv 1(1)]
    by (blast intro: reachable_from_trans reachable_from_single)
qed

lemma owner_handler_rejected:
  assumes recv: "receive_request (net env) (req_cd env) Message_deserialize comm s = (Inl e, s1)"
    and h: "owner_handler env bo c fc (Rejected e) s1 (w, rds) = Some (s2, (w2, rds2))"
  shows "reachable_from (service_step env bo c fc comm) (w, s) (w2, s2)"
  using h
proof (cases rule: owner_handler_rejectedE)
  case (1 rd w1)
  show ?thesis
    using exec_moves_reachable [OF 1(2), of comm] service_error [OF recv 1(1)]
    by (blast intro: reachable_from_trans reachable_from_single)
qed

lemma serve_ConsE:
  assumes "serve k cd comm h (item # items) s w = Some (s', w')"
  obtains s1 s2 w2 where "receive_request k cd Message_deserialize comm s =
      ((case item of Got m f \<Rightarrow> Inr (m, f) | Rejected e \<Rightarrow> Inl e), s1)"
    "h item s1 w = Some (s2, w2)" "serve k cd comm h items s2 w2 = Some (s', w')"
    "\<And>e. item = Rejected e \<Longrightarrow> recv_failed e = None"
proof -
  obtain r s1 where recv: "receive_request k cd Message_deserialize comm s = (r, s1)" by (metis surj_pair)
  have "\<exists>s2 w2. r = (case item of Got m f \<Rightarrow> Inr (m, f) | Rejected e \<Rightarrow> Inl e) \<and> h item s1 w = Some (s2, w2) \<and>
      serve k cd comm h items s2 w2 = Some (s', w') \<and> (\<forall>e. item = Rejected e \<longrightarrow> recv_failed e = None)"
    using assms recv by (cases item) (auto simp: bind_eq_Some_conv split: if_splits)
  then show thesis using that recv by blast
qed

lemma serve_reachable:
  "serve (net env) (req_cd env) comm (owner_handler env bo c fc) items s (w, rds) = Some (s', (w', rds')) \<Longrightarrow>
   reachable_from (service_step env bo c fc comm) (w, s) (w', s')"
proof (induction items arbitrary: s w rds)
  case (Cons item items)
  from Cons.prems show ?case
  proof (cases rule: serve_ConsE)
    case (1 s1 s2 wr)
    obtain w2 rds2 where wr: "wr = (w2, rds2)" by (cases wr)
    have "reachable_from (service_step env bo c fc comm) (w, s) (w2, s2)"
      using 1(1,2) wr owner_handler_got owner_handler_rejected by (cases item) auto
    then show ?thesis using Cons.IH [OF 1(3) [unfolded wr]] by (blast intro: reachable_from_trans)
  qed
qed (simp add: rf_refl)

text \<open>Between the rounds the receiving thread is idle, so a return of the loop is a step of the service too.\<close>

lemma idle_exec:
  assumes "owner_exec bo c fc mv w = Some w'" "\<not> is_receive mv" "receiver w = RecvIdle"
  shows "receiver w' = RecvIdle"
proof (cases mv)
  case (MMain ev)
  then show ?thesis using assms by (cases ev) (auto split: if_splits receiver_stage.splits prod.splits sum.splits)
next
  case (MCommand os)
  then show ?thesis using assms by (simp add: command_step_def)
qed (use assms(2,3) thread_frame [OF assms(1)] in auto)

lemma idle_moves:
  "exec_moves env bo c fc mvs (w, s) = Some (w', s') \<Longrightarrow> receiver w = RecvIdle \<Longrightarrow> receiver w' = RecvIdle"
proof (induction mvs arbitrary: w s)
  case (Cons mv mvs)
  then obtain w1 where "\<not> is_receive mv" "owner_exec bo c fc mv w = Some w1"
      "exec_moves env bo c fc mvs (w1, net_effect env mv w w1 s) = Some (w', s')"
    by (auto simp: exec_move_def bind_eq_Some_conv simp del: owner_exec.simps split: if_splits)
  then show ?case using Cons.IH idle_exec Cons.prems(2) by blast
qed simp

lemma commands_idle:
  assumes "exec_moves env bo c fc (MCommand os # MCommand os # mvs) (w, s) = Some (w', s')"
    and "receiver w = RecvCommand p cmd f"
  shows "receiver w' = RecvIdle"
proof -
  obtain w1 w2 s2 where 1: "command_step c fc os w = Some w1" "command_step c fc os w1 = Some w2"
      "exec_moves env bo c fc mvs (w2, s2) = Some (w', s')"
    using assms(1) by (auto simp: exec_move_def bind_eq_Some_conv)
  have "handle_lock_command c fc os p cmd f w = Some w1"
    using 1(1) assms(2) by (auto simp: command_step_def split: sum.splits if_splits)
  then have "receiver w1 = RecvRelease p"
    by (auto simp: handle_lock_command_def split: option.splits LockAction.splits sum.splits prod.splits)
  then have "receiver w2 = RecvIdle" using 1(2) by (auto simp: command_step_def)
  then show ?thesis by (rule idle_moves [OF 1(3)])
qed

lemma receive_receiver:
  assumes "owner_exec bo c fc (MReceive check t m f) w = Some w1"
  shows "receiver w1 = RecvIdle \<or> (\<exists>p cmd. receiver w1 = RecvCommand p cmd f)"
proof (cases m)
  case (Message_Register r)
  then show ?thesis using assms by (auto simp: receive_request_step_def split: if_splits)
qed (use assms in \<open>auto simp: receive_request_step_def lock_lookup_def handle_interrupt_remove_def
      split: if_splits option.splits\<close>)

lemma idle_handler:
  assumes h: "owner_handler env bo c fc item s (w, rds) = Some (s', (w', rds'))" and idle: "receiver w = RecvIdle"
    and rec: "\<And>e. item = Rejected e \<Longrightarrow> recv_failed e = None"
  shows "receiver w' = RecvIdle"
proof (cases item)
  case (Got m f)
  from h [unfolded Got] show ?thesis
  proof (cases rule: owner_handler_gotE)
    case handled: (1 rd w1)
    from receive_receiver [OF handled(1)] consider "receiver w1 = RecvIdle" | p cmd where "receiver w1 = RecvCommand p cmd f"
      by blast
    then show ?thesis
    proof cases
      case 1
      then show ?thesis by (rule idle_moves [OF handled(2)])
    next
      case 2
      then show ?thesis using handled(2) by (intro commands_idle [OF _ 2]) (simp del: exec_moves.simps)
    qed
  qed
next
  case (Rejected e)
  from h [unfolded Rejected] show ?thesis
  proof (cases rule: owner_handler_rejectedE)
    case (1 rd w1)
    have "receiver w1 = RecvIdle" using 1(1) idle rec [OF Rejected] by (auto simp: receive_error_def)
    then show ?thesis by (rule idle_moves [OF 1(2)])
  qed
qed

lemma idle_serve:
  "serve k cd comm (owner_handler env bo c fc) items s (w, rds) = Some (s', (w', rds')) \<Longrightarrow>
   receiver w = RecvIdle \<Longrightarrow> receiver w' = RecvIdle"
proof (induction items arbitrary: s w rds)
  case (Cons item items)
  from Cons.prems(1) show ?case
  proof (cases rule: serve_ConsE)
    case (1 s1 s2 wr)
    obtain w2 rds2 where wr: "wr = (w2, rds2)" by (cases wr)
    have "receiver w2 = RecvIdle" using 1(2,4) Cons.prems(2) unfolding wr by (blast intro: idle_handler)
    then show ?thesis using 1(3) unfolding wr by (intro Cons.IH)
  qed
qed simp

text \<open>
  The receiving loop with this handler is a run of the service: when it returns \<open>r\<close>, the service has
  reached the same state with the receiving thread ended in \<open>r\<close>.
\<close>

lemma receiving_loop_run:
  assumes ret: "receiving_loop (net env) (req_cd env) comm (owner_handler env bo c fc) s (w, rds) n = Some (r, s', (w', rds'), n')"
    and idle: "receiver w = RecvIdle"
  shows "reachable_from (service_step env bo c fc comm) (w, s) (w'\<lparr>receiver := RecvEnded r\<rparr>, s')"
proof -
  obtain items s1 where items: "serve (net env) (req_cd env) comm (owner_handler env bo c fc) items s (w, rds) = Some (s1, (w', rds'))"
      "fatal (net env) (req_cd env) comm s1 r s'"
    using receiving_loop_returned [OF ret] by auto
  then obtain e where e: "receive_request (net env) (req_cd env) Message_deserialize comm s1 = (Inl e, s')" "recv_failed e = Some r"
    by (auto simp: fatal_def)
  have "owner_exec bo c fc (MError e) w' = Some (w'\<lparr>receiver := RecvEnded r\<rparr>)"
    using idle_serve [OF items(1) idle] e(2) by (simp add: receive_error_def)
  then show ?thesis
    using rf_step [OF serve_reachable [OF items(1)]] service_error [OF e(1)] by blast
qed

section \<open>A reply on its way\<close>

lemma reply_arrives:
  assumes chan: "rpc_channel k pending peer socks eof cd valid rcd (\<lambda>_. True) ser deser"
    and child: "peer s child = one" "pending s one = []" "one \<noteq> child"
    and ok: "\<And>data. is_ok (fst (send_raw_message k child data [] s))"
  shows "\<exists>s'. first_reply k rcd one (drop_fds k [child] (reply k rcd (RawReply child) x s)) =
    (Inr (case x of Inl e \<Rightarrow> Inl (Os e) | Inr v \<Rightarrow> Inr (v, [])), s')"
proof -
  have sockets: "unix_sockets k pending peer socks eof" and codec: "codec_api rcd (\<lambda>_. True)"
    using chan by (simp_all add: rpc_channel_def)
  obtain data where data: "enc rcd x = Some data" using codec_api.enc_dec [OF codec TrueI, of x] by blast
  obtain s1 where s1: "send_raw_message k child data [] s = (Inr (), s1)"
    using ok [of data] by (metis is_okE prod.collapse old.unit.exhaust)
  let ?s = "drop_fds k [child] s1"
  have sent: "reply k rcd (RawReply child) x s = s1" "pending s1 one = [as_pending (data, [])]"
      "small_frame (data, [])" "dec rcd data = Some x"
    using rpc_channel.reply_delivered [OF chan child(1,2) _ _ TrueI data s1] by (simp_all add: reply_def)
  have pend: "pending ?s one = [as_pending (data, [])]"
    using unix_sockets.drop_fds_keeps(1) [OF sockets, of one "[child]" s1] child(3) sent(2) by simp
  have "\<exists>s'. ReplyIterator_next k rcd one ?s = (Some (Inr (case x of Inl e \<Rightarrow> Inl (Os e) | Inr v \<Rightarrow> Inr (v, []))), s')"
  proof (cases x)
    case (Inl e)
    then show ?thesis using rpc_channel.iterator_next_error [OF chan pend sent(3)] sent(4) by auto
  next
    case (Inr v)
    then show ?thesis using rpc_channel.iterator_next [OF chan pend sent(3)] sent(4) by auto
  qed
  then show ?thesis using sent(1) by (auto simp: first_reply_def)
qed

text \<open>A request of the client arrives at an owner process that waits for requests.\<close>

lemma client_serialize:
  "Register_serialize r = Message_serialize (Message_Register r)"
  "LockCommand_serialize l = Message_serialize (Message_LockCommand l)"
  by simp_all

lemma send_iter_cong:
  "ser r = ser' r' \<Longrightarrow> send_request_iter_with_fds k cd ser a r s = send_request_iter_with_fds k cd ser' a r' s"
  by (simp add: send_request_iter_with_fds_def)

text \<open>The queue model as the connection between a client and an owner process.\<close>

lemma queue_env_simps: "net queue_env = queue_sockets" "req_cd queue_env = raw_codec" "lock_cd queue_env = lock_codec"
  "id_cd queue_env = u64_codec" "unit_cd queue_env = unit_codec"
  by (simp_all add: queue_env_def)

lemma queue_channels:
  "rpc_channel (net queue_env) queues (\<lambda>_. queue_peer) (\<lambda>s. {..< 2 * pairs s}) (\<lambda>_ _. True)
     (req_cd queue_env) (\<lambda>_. True) (id_cd queue_env) (\<lambda>_. True) Message_serialize Message_deserialize"
  "rpc_channel (net queue_env) queues (\<lambda>_. queue_peer) (\<lambda>s. {..< 2 * pairs s}) (\<lambda>_ _. True)
     (req_cd queue_env) (\<lambda>_. True) (lock_cd queue_env) (\<lambda>_. True) Message_serialize Message_deserialize"
  "rpc_channel (net queue_env) queues (\<lambda>_. queue_peer) (\<lambda>s. {..< 2 * pairs s}) (\<lambda>_ _. True)
     (req_cd queue_env) (\<lambda>_. True) (unit_cd queue_env) (\<lambda>_. True) Message_serialize Message_deserialize"
  unfolding queue_env_simps by (intro rpc_channel.intro queue.unix_sockets_axioms raw.codec_api_axioms
      u64_reply.codec_api_axioms lock_reply.codec_api_axioms unit_reply.codec_api_axioms message.serializable_axioms)+

lemma queue_send_ok: "is_ok (fst (send_raw_message (net queue_env) child data [] s))"
  using queue_send [of child data "[]" s] unfolding queue_env_simps by auto

lemma queue_sent:
  obtains s1 where "send_request_iter_with_fds (net queue_env) (req_cd queue_env) ser 0 r queue_init = (Inr 2, s1)" "pairs s1 = 2"
  using queue_request [of ser 0 r queue_init] unfolding queue_env_simps by (auto simp: queue_init_def)

lemma queue_idle: "0 \<in> {..< 2 * pairs queue_init}" "queues queue_init (queue_peer 0) = []"
  by (simp_all add: queue_init_def)

section \<open>Registration\<close>

text \<open>
  Property C2. A registration from end to end. When a client has sent a registration over an idle
  connection to an owner process that waits for requests and has a vacant identifier, the process
  can serve it in one step, and the reply the client then reads is the identifier under which the
  registry has entered the very file that was sent. If the process has decided to exit, the file is
  closed, the registry is otherwise unchanged and the client reads the error number EIO.
\<close>

theorem register_end_to_end:
  fixes w :: "('b, 'k) owner_sys"
  assumes chan: "rpc_channel (net env) pending peer socks eof (req_cd env) valid (id_cd env) (\<lambda>_. True)
      Message_serialize Message_deserialize"
    and sent: "send_request_iter_with_fds (net env) (req_cd env) Register_serialize a (Register fd) s = (Inr one, s1)"
    and idle: "valid RawMessage_Register" "a \<in> socks s" "pending s (peer s a) = []" "fd \<notin> socks s1"
    and send_ok: "\<And>child data s2. is_ok (fst (send_raw_message (net env) child data [] s2))"
    and reach: "reachable_from (owner_step bo c fc) (owner_start k) w"
    and waiting: "receiver w = RecvIdle" "tasks w t = None" "descriptors (shared w) j = None"
  shows "\<exists>w' s2 s3. service_step env bo c fc (peer s a) (w, s1) (w', s2) \<and>
    (if exit_flag (shared w)
     then first_reply (net env) (id_cd env) one s2 = (Inr (Inl (Os EIO)), s3) \<and>
       registry_of w' = (registry_of w)\<lparr>closed := closed (registry_of w) @ [fd]\<rparr>
     else \<exists>i. first_reply (net env) (id_cd env) one s2 = (Inr (Inr (i, [])), s3) \<and> files (registry_of w) i = None \<and>
       registry_of w' = (registry_of w)\<lparr>files := (files (registry_of w))(i \<mapsto> fd), issued := issued (registry_of w) @ [i]\<rparr>)"
proof -
  let ?m = "Message_Register (Register fd)"
  have "send_request_iter_with_fds (net env) (req_cd env) Message_serialize a ?m s = (Inr one, s1)"
    using sent by (simp add: send_iter_cong [of Message_serialize ?m Register_serialize "Register fd"])
  from rpc_channel.request_delivered [OF chan this _ idle(1-3), of "[fd]"] idle(4)
  obtain child u where u: "receive_request (net env) (req_cd env) Message_deserialize (peer s a) s1 = (Inr (?m, child), u)"
    "peer u child = one" "pending u one = []" "one \<noteq> child" by auto
  have wf: "objects_wf (shared w)" "table_wf (shared w)"
    using owner_reach_inv [OF reach] by (simp_all add: owner_inv_def owner_refs_def sys_inv_def)
  obtain res D' where h: "handle_fd_register (Inr ()) (shared w) (Register fd) = Some (res, D')"
    using register_refused [of "shared w" "Inr ()"] register_accepted [of "shared w" _ _ "Register fd"]
      vacant_id_returns [of "descriptors (shared w)" "next_id (shared w)"] waiting(3)
    by (cases "exit_flag (shared w)") force+
  define w' where "w' = send_reply child (ReplyId (io_cvt res)) (w\<lparr>ttl_queue := True, shared := D'\<rparr>)"
  have exec: "owner_exec bo c fc (MReceive (Inr ()) t ?m child) w = Some w'"
    using waiting h by (simp add: receive_request_step_def w'_def)
  let ?s2 = "net_effect env (MReceive (Inr ()) t ?m child) w w' u"
  have step: "service_step env bo c fc (peer s a) (w, s1) (w', ?s2)" by (rule service_receive [OF u(1) exec])
  have "?s2 = drop_fds (net env) [child] (reply (net env) (id_cd env) (RawReply child) (io_cvt res) u)"
    using waiting by (simp add: net_effect_def dropped_fds_def w'_def)
  then obtain s3 where read: "first_reply (net env) (id_cd env) one ?s2 =
      (Inr (case io_cvt res of Inl e \<Rightarrow> Inl (Os e) | Inr v \<Rightarrow> Inr (v, [])), s3)"
    using reply_arrives [OF chan u(2-4) send_ok, of "io_cvt res"] by auto
  show ?thesis
  proof (cases "exit_flag (shared w)")
    case True
    then have "io_cvt res = Inl EIO" "D' = close_received fd (shared w)"
      using h by (auto simp: register_refused io_cvt_def)
    moreover from this have "registry_of w' = (registry_of w)\<lparr>closed := closed (registry_of w) @ [fd]\<rparr>"
      by (simp add: w'_def registry_of_def)
    ultimately show ?thesis using step read True by auto
  next
    case False
    then obtain i where i: "res = Inr i" "descriptors (shared w) i = None" "D' = registered_state (shared w) fd i"
      using h waiting(3) register_accepted [OF False, of _ _ "Register fd"] vacant_id_sound
        vacant_id_returns [of "descriptors (shared w)" "next_id (shared w)"] by force
    have "registry_of w' = (registry_of w)\<lparr>files := (files (registry_of w))(i \<mapsto> fd), issued := issued (registry_of w) @ [i]\<rparr>"
      using i by (intro registry_register [OF wf i(2), where g = child]) (simp_all add: w'_def io_cvt_def)
    moreover have "files (registry_of w) i = None" using i(2) by (simp add: registry_of_def)
    moreover have "first_reply (net env) (id_cd env) one ?s2 = (Inr (Inr (i, [])), s3)"
      using read i(1) by (simp add: io_cvt_def)
    ultimately show ?thesis using step False by (intro exI conjI) (auto intro!: exI [of _ i])
  qed
qed

theorem register_end_to_end_witness:
  "\<exists>s1 w' s2 s3 i. send_request_iter_with_fds (net queue_env) (req_cd queue_env) Register_serialize 0 (Register 50) queue_init = (Inr 2, s1) \<and>
     service_step queue_env step_backoff linux_consts alone_fcntl 1 (owner_start {}, s1) (w', s2) \<and>
     first_reply (net queue_env) (id_cd queue_env) 2 s2 = (Inr (Inr (i, [])), s3) \<and>
     files (registry_of (w' :: (nat, (fd \<times> flock) set) owner_sys)) i = Some 50"
proof -
  have p: "queue_peer 0 = 1" by (simp add: queue_peer_def)
  obtain s1 where s1: "send_request_iter_with_fds (net queue_env) (req_cd queue_env) Register_serialize 0 (Register 50)
      queue_init = (Inr 2, s1)" and "pairs s1 = 2" by (rule queue_sent)
  then have side: "50 \<notin> {..< 2 * pairs s1}" by simp
  let ?w = "owner_start {} :: (nat, (fd \<times> flock) set) owner_sys"
  have w: "receiver ?w = RecvIdle" "tasks ?w 7 = None" "descriptors (shared ?w) 0 = None" "\<not> exit_flag (shared ?w)"
    by (simp_all add: owner_start_def DaemonOwner_new_def)
  from register_end_to_end [OF queue_channels(1) s1 TrueI queue_idle side queue_send_ok
      rf_refl [of "owner_step step_backoff linux_consts alone_fcntl" ?w] w(1-3)] w(4)
  obtain w' s2 s3 i where r: "service_step queue_env step_backoff linux_consts alone_fcntl (queue_peer 0) (?w, s1) (w', s2)"
      "first_reply (net queue_env) (id_cd queue_env) 2 s2 = (Inr (Inr (i, [])), s3)"
      "registry_of w' = (registry_of ?w)\<lparr>files := (files (registry_of ?w))(i \<mapsto> 50), issued := issued (registry_of ?w) @ [i]\<rparr>"
    by auto
  have "files (registry_of w') i = Some 50" by (simp add: r(3))
  then show ?thesis using s1 r(1,2) unfolding p by blast
qed

section \<open>Lock commands that do not wait\<close>

lemma drop_clone: "heap D p = Some d \<Longrightarrow> 0 < arcs D p \<Longrightarrow> arc_drop p (arc_clone p D) = D"
  by (simp add: arc_drop_def arc_clone_def)

text \<open>What the client should be told, given the kernel's answer to its one call.\<close>

definition kernel_answer ::
    "libc_consts \<Rightarrow> 'k fcntl_calls \<Rightarrow> LockAction \<Rightarrow> fd \<Rightarrow> LockParams \<Rightarrow> 'k \<Rightarrow> (errno + ReplyLockCommandData) \<times> 'k" where
  "kernel_answer c fc action fd params k =
     (if action = GetLockStatus
      then (case fcntl_getlk fc fd (flock_from c params) k of
              (Inl e, k') \<Rightarrow> (Inl e, k')
            | (Inr raw, k') \<Rightarrow>
                (case LockParams_try_from c raw of Inr p \<Rightarrow> Inr (Done p) | Inl _ \<Rightarrow> Inl EINVAL, k'))
      else (case fcntl_setlk fc fd (flock_from c params) k of
              (Inl e, k') \<Rightarrow> (Inl e, k') | (Inr _, k') \<Rightarrow> (Inr (Done params), k')))"

lemma io_cvt_os: "io_cvt (Inl (Os e)) = Inl e"
  by (simp add: io_cvt_def)

lemma get_lock_status_answer: "get_lock_status c fc fd params k = kernel_answer c fc GetLockStatus fd params k"
proof -
  have conv: "io_cvt (map_ok Done (LockParams_try_from c raw)) =
      (case LockParams_try_from c raw of Inr p \<Rightarrow> Inr (Done p) | Inl _ \<Rightarrow> Inl EINVAL)" for raw
  proof (cases "LockParams_try_from c raw")
    case (Inl e)
    then have "e = Custom InvalidInput" using flock_params_reject [of c raw e] by blast
    then show ?thesis using Inl by (simp add: io_cvt_def)
  qed (simp add: io_cvt_def)
  show ?thesis by (simp add: get_lock_status_def kernel_answer_def io_cvt_os conv split: prod.split sum.split)
qed

lemma set_lock_nonblocking_answer:
  "consts_ok c \<Longrightarrow> set_lock_nonblocking c fc fd params k = kernel_answer c fc SetLockNonBlocking fd params k"
  using flock_params_accept [of c "flock_from c params" params]
  by (simp add: set_lock_nonblocking_def kernel_answer_def io_cvt_def Let_def split: prod.split sum.split)

text \<open>
  Property C21. A lock command that does not wait, from end to end. When a client has sent a query or a
  non-blocking lock request for a registered file over an idle connection, the owner process can
  serve it in three steps, after which the kernel has been asked once, about the registered
  descriptor; the reply the client then reads is the kernel's answer, and the registry is unchanged.
\<close>

theorem simple_command_end_to_end:
  fixes w :: "('b, 'k) owner_sys"
  assumes chan: "rpc_channel (net env) pending peer socks eof (req_cd env) valid (lock_cd env) (\<lambda>_. True)
      Message_serialize Message_deserialize"
    and sent: "send_request_iter_with_fds (net env) (req_cd env) LockCommand_serialize a cmd s = (Inr one, s1)"
    and idle: "valid (fst (LockCommand_serialize cmd))" "a \<in> socks s" "pending s (peer s a) = []"
    and send_ok: "\<And>child data s2. is_ok (fst (send_raw_message (net env) child data [] s2))"
    and reach: "reachable_from (owner_step bo c fc) (owner_start k) w"
    and abi: "consts_ok c"
    and waiting: "receiver w = RecvIdle" "tasks w t = None" "command_action cmd \<noteq> SetLockBlocking"
    and entry: "files (registry_of w) (command_id cmd) = Some fd"
  shows "\<exists>w' s2 s3 answer. reachable_from (service_step env bo c fc (peer s a)) (w, s1) (w', s2) \<and>
    (answer, kern w') = kernel_answer c fc (command_action cmd) fd (command_params cmd) (kern w) \<and>
    first_reply (net env) (lock_cd env) one s2 =
      (Inr (case answer of Inl e \<Rightarrow> Inl (Os e) | Inr v \<Rightarrow> Inr (v, [])), s3) \<and>
    registry_of w' = registry_of w \<and> receiver w' = RecvIdle"
proof -
  let ?m = "Message_LockCommand cmd"
  have ser: "Message_serialize ?m = (fst (LockCommand_serialize cmd), [])" by (cases cmd) simp
  have "send_request_iter_with_fds (net env) (req_cd env) Message_serialize a ?m s = (Inr one, s1)"
    using sent by (simp add: send_iter_cong [of Message_serialize ?m LockCommand_serialize cmd])
  from rpc_channel.request_delivered [OF chan this ser idle]
  obtain child u where u: "receive_request (net env) (req_cd env) Message_deserialize (peer s a) s1 = (Inr (?m, child), u)"
    "peer u child = one" "pending u one = []" "one \<noteq> child" by auto
  obtain p d where p: "descriptors (shared w) (command_id cmd) = Some p" "heap (shared w) p = Some d" "descriptor d = fd"
    using entry by (auto simp: registry_of_def file_of_def map_comp_def split: option.splits)
  obtain answer k' where ans: "kernel_answer c fc (command_action cmd) fd (command_params cmd) (kern w) = (answer, k')" by fastforce
  define w1 where "w1 = w\<lparr>ttl_queue := True, shared := arc_clone p (shared w), receiver := RecvCommand p cmd child\<rparr>"
  define w2 where "w2 = send_reply child (ReplyLock answer) (w1\<lparr>kern := k', receiver := RecvRelease p\<rparr>)"
  define w3 where "w3 = w2\<lparr>shared := arc_drop p (shared w2), receiver := RecvIdle\<rparr>"
  have exec1: "owner_exec bo c fc (MReceive (Inr ()) t ?m child) w = Some w1"
    using waiting p by (simp add: receive_request_step_def lock_lookup_def w1_def)
  have live: "heap (shared w1) p = Some d" "receiver w1 = RecvCommand p cmd child" "kern w1 = kern w"
    using p by (simp_all add: w1_def arc_clone_def)
  have "handle_lock_command c fc (Inl EIO) p cmd child w1 = Some w2"
    using ans waiting(3) live p(3) get_lock_status_answer [of c fc] set_lock_nonblocking_answer [OF abi, of fc]
    by (cases "command_action cmd") (simp_all add: handle_lock_command_def w2_def)
  then have exec2: "owner_exec bo c fc (MCommand (Inl EIO)) w1 = Some w2" using live(2) by (simp add: command_step_def)
  have exec3: "owner_exec bo c fc (MCommand (Inl EIO)) w2 = Some w3" by (simp add: command_step_def w2_def w3_def)
  have eff1: "net_effect env (MReceive (Inr ()) t ?m child) w w1 u = u"
    by (simp add: net_effect_def dropped_fds_def w1_def drop_fds_def)
  let ?s2 = "drop_fds (net env) [child] (reply (net env) (lock_cd env) (RawReply child) answer u)"
  have eff2: "net_effect env (MCommand (Inl EIO)) w1 w2 u = ?s2"
    by (simp add: net_effect_def dropped_fds_def w2_def w1_def)
  have eff3: "net_effect env (MCommand (Inl EIO)) w2 w3 v = v" for v
    by (simp add: net_effect_def dropped_fds_def w2_def w3_def drop_fds_def)
  let ?S = "service_step env bo c fc (peer s a)"
  have "?S (w, s1) (w1, u)" using service_receive [OF u(1) exec1] eff1 by simp
  moreover have "?S (w1, u) (w2, ?s2)" using service_move [OF _ exec2, of env "peer s a" u] eff2 by simp
  moreover have "?S (w2, ?s2) (w3, ?s2)" using service_move [OF _ exec3, of env "peer s a" ?s2] eff3 by simp
  ultimately have run: "reachable_from ?S (w, s1) (w3, ?s2)" by (blast intro: reachable_from.intros)
  have "0 < arcs (shared w) p"
    using p(2) owner_reach_inv [OF reach] by (auto simp: owner_inv_def owner_refs_def sys_inv_def objects_wf_def)
  then have "shared w3 = shared w" using p(2) by (simp add: w3_def w2_def w1_def drop_clone)
  then have same: "registry_of w3 = registry_of w" by (simp add: registry_of_def w3_def w2_def w1_def)
  obtain s3 where "first_reply (net env) (lock_cd env) one ?s2 =
      (Inr (case answer of Inl e \<Rightarrow> Inl (Os e) | Inr v \<Rightarrow> Inr (v, [])), s3)"
    using reply_arrives [OF chan u(2-4) send_ok, of answer] by blast
  moreover have "(answer, kern w3) = kernel_answer c fc (command_action cmd) fd (command_params cmd) (kern w)"
    "receiver w3 = RecvIdle" using ans by (simp_all add: w3_def w2_def)
  ultimately show ?thesis using run same by blast
qed

theorem simple_command_end_to_end_witness:
  "\<exists>s1 w w' s2 s3. send_request_iter_with_fds (net queue_env) (req_cd queue_env) LockCommand_serialize 0
       (LockCommand 0 SetLockNonBlocking (whole_file Write)) queue_init = (Inr 2, s1) \<and>
     reachable_from (owner_step step_backoff linux_consts alone_fcntl) (owner_start {}) w \<and>
     reachable_from (service_step queue_env step_backoff linux_consts alone_fcntl (queue_peer 0)) (w, s1) (w', s2) \<and>
     first_reply (net queue_env) (lock_cd queue_env) 2 s2 = (Inr (Inr (Done (whole_file Write), [])), s3) \<and>
     kern (w' :: (nat, (fd \<times> flock) set) owner_sys) = {(3, flock_from linux_consts (whole_file Write))}"
proof -
  let ?cmd = "LockCommand 0 SetLockNonBlocking (whole_file Write)"
  obtain s1 where s1: "send_request_iter_with_fds (net queue_env) (req_cd queue_env) LockCommand_serialize 0 ?cmd
      queue_init = (Inr 2, s1)" by (rule queue_sent)
  have "map_option (\<lambda>w. (descriptors (shared w) 0, map_option descriptor (heap (shared w) 0), receiver w, tasks w 7, kern w))
      (run [MReceive (Inr ()) 10 (Message_Register (Register 3)) 100]) = Some (Some 0, Some 3, RecvIdle, None, {})"
    by code_simp
  from run_obtain [OF this] obtain w :: "(nat, (fd \<times> flock) set) owner_sys"
    where w: "reachable_from (owner_step step_backoff linux_consts alone_fcntl) (owner_start {}) w"
      "descriptors (shared w) 0 = Some 0" "map_option descriptor (heap (shared w) 0) = Some 3" "receiver w = RecvIdle"
      "tasks w 7 = None" "kern w = {}" by auto
  have entry: "files (registry_of w) (command_id ?cmd) = Some 3"
    using w(2,3) by (auto simp: registry_of_def map_comp_def file_of_def)
  have answer: "kernel_answer linux_consts alone_fcntl (command_action ?cmd) 3 (command_params ?cmd) (kern w) =
      (Inr (Done (whole_file Write)), {(3, flock_from linux_consts (whole_file Write))})"
  proof -
    have "l_type (flock_from linux_consts (whole_file Write)) \<noteq> 2"
      by (simp add: flock_from_def linux_consts_def)
    then show ?thesis by (simp add: kernel_answer_def alone_fcntl_def w(6))
  qed
  have "command_action ?cmd \<noteq> SetLockBlocking" by simp
  from simple_command_end_to_end [OF queue_channels(2) s1 TrueI queue_idle queue_send_ok w(1) linux.abi w(4,5) this entry] answer
  obtain w' :: "(nat, (fd \<times> flock) set) owner_sys" and s2 s3 where
    "reachable_from (service_step queue_env step_backoff linux_consts alone_fcntl (queue_peer 0)) (w, s1) (w', s2)"
    "kern w' = {(3, flock_from linux_consts (whole_file Write))}"
    "first_reply (net queue_env) (lock_cd queue_env) 2 s2 = (Inr (Inr (Done (whole_file Write), [])), s3)" by force
  then show ?thesis using s1 w(1) by blast
qed

end
