(* ===== verification/Daemon_Progress.thy ===== *)
theory Daemon_Progress
  imports Daemon_Safety
begin

text \<open>
  Progress of the owner process: no thread is stuck, and an unregistration that waits for the last
  reference is waiting for finitely many steps of threads that can make them. The first section
  adds to the invariant that a file is unregistered by one thread only; otherwise two threads
  could wait for each other's reference.
\<close>

section \<open>One unregistration per file\<close>

definition single_unregister :: "DaemonOwnerInner \<Rightarrow> (pthread \<rightharpoonup> 'b task) \<Rightarrow> bool" where
  "single_unregister D T \<longleftrightarrow>
     (\<forall>p t u. Option.bind (T t) unregistering = Some p \<longrightarrow> Option.bind (T u) unregistering = Some p \<longrightarrow> t = u) \<and>
     (\<forall>p t. Option.bind (T t) unregistering = Some p \<longrightarrow> p \<notin> ran (descriptors D))"

lemma single_move:
  assumes "single_unregister D T" "descriptors D' = descriptors D"
    and "Option.bind v unregistering = None \<or> Option.bind v unregistering = Option.bind (T t) unregistering"
  shows "single_unregister D' (T(t := v))"
  using assms unfolding single_unregister_def by (simp split: if_splits) (metis option.distinct(1))

lemma single_frame: "single_unregister D T \<Longrightarrow> descriptors D' = descriptors D \<Longrightarrow> single_unregister D' T"
  by (simp add: single_unregister_def)

lemma single_register:
  assumes "single_unregister D T" "sys_inv D T R"
  shows "single_unregister (registered_state D f i) T"
proof -
  have "Option.bind (T t) unregistering \<noteq> Some (next_obj D)" for t
  proof
    assume "Option.bind (T t) unregistering = Some (next_obj D)"
    then have "Option.bind (T t) holds = Some (next_obj D)"
      by (cases "T t") (auto intro: unregistering_holds)
    then show False using referenced_alive [OF assms(2)] assms(2) by (fastforce simp: sys_inv_def objects_wf_def)
  qed
  moreover have "ran ((descriptors D)(i \<mapsto> next_obj D)) \<subseteq> insert (next_obj D) (ran (descriptors D))"
    by (auto simp: ran_def)
  ultimately show ?thesis
    using assms(1) unfolding single_unregister_def registered_state_def by (simp add: subset_iff) blast
qed

lemma single_take:
  assumes "single_unregister D T" "table_wf D" "descriptors D i = Some p"
    and T: "Option.bind (T t) unregistering = None"
  shows "single_unregister (D\<lparr>descriptors := (descriptors D)(i := None)\<rparr>) (T(t \<mapsto> UnregisterTaken f p))"
proof -
  have ran: "ran ((descriptors D)(i := None)) = ran (descriptors D) - {p}"
    using assms(2,3) by (intro ran_map_remove) (simp_all add: table_wf_def)
  have "p \<in> ran (descriptors D)" using assms(3) by (auto simp: ran_def)
  then have "Option.bind (T u) unregistering \<noteq> Some p" for u
    using assms(1) by (auto simp: single_unregister_def)
  then show ?thesis using assms(1) ran unfolding single_unregister_def by auto
qed

definition owner_single :: "('b, 'k) owner_sys \<Rightarrow> bool" where
  "owner_single s \<longleftrightarrow> single_unregister (shared s) (tasks s)"

lemma descriptors_simps [simp]:
  "descriptors (arc_drop p D) = descriptors D" "descriptors (arc_clone p D) = descriptors D"
  "descriptors (update_tracker p f D) = descriptors D" "descriptors (close_received g D) = descriptors D"
  by (auto simp: arc_drop_def arc_clone_def update_tracker_def close_received_def release_exit_lock_def split: option.split)

lemma single_receive:
  assumes "owner_refs s" "owner_single s" "receive_request_step check t m f s = Some s'"
  shows "owner_single s'"
proof (cases m)
  case (Message_Register r)
  then obtain res D' where h: "handle_fd_register check (shared s) r = Some (res, D')" "shared s' = D'" "tasks s' = tasks s"
    using assms(3) by (auto simp: receive_request_step_def split: if_splits)
  from h(1) show ?thesis
  proof (cases rule: register_result)
    case (accepted i)
    then show ?thesis using assms(1,2) h by (auto simp: owner_single_def owner_refs_def intro: single_register)
  qed (use assms(2) h in \<open>auto simp: owner_single_def intro: single_frame\<close>)
qed (use assms(2,3) in \<open>auto simp: owner_single_def receive_request_step_def lock_lookup_def handle_interrupt_remove_def
      intro: single_frame intro!: single_move split: if_splits option.splits\<close>)

lemma single_command:
  assumes "owner_single s" "command_step c fc os s = Some s'"
  shows "owner_single s'"
proof (cases "receiver s")
  case (RecvCommand p cmd f)
  then have "handle_lock_command c fc os p cmd f s = Some s'"
    using assms(2) by (auto simp: command_step_def split: sum.splits if_splits)
  then show ?thesis using assms(1)
    by (auto simp: handle_lock_command_def owner_single_def intro: single_frame intro!: single_move
        split: option.splits LockAction.splits sum.splits prod.splits)
qed (use assms in \<open>auto simp: command_step_def owner_single_def intro: single_frame\<close>)

lemma single_interrupt:
  "owner_single s \<Longrightarrow> tasks s t = Some k \<Longrightarrow> handle_interrupt_step bo tries t k s = Some (sigs, s') \<Longrightarrow> owner_single s'"
  by (cases k) (auto simp: interrupt_iter_def case_prod_beta owner_single_def intro!: single_move
      split: sum.splits option.splits if_splits)

lemma single_lock:
  "owner_single s \<Longrightarrow> tasks s t = Some k \<Longrightarrow> lock_thread_step c fc mask_change t k s = Some s' \<Longrightarrow> owner_single s'"
  by (cases "(c, fc, mask_change, t, k, s)" rule: lock_thread_step.cases)
    (auto simp: set_lock_try_def handle_interrupt_add_def owner_single_def intro!: single_move
      split: sum.splits option.splits if_splits prod.splits)

lemma single_unregister_step:
  assumes "owner_refs s" "owner_single s" "tasks s t = Some k" "handle_fd_unregister_step bo tries t k s = Some (sigs, s')"
  shows "owner_single s'"
proof (cases k)
  case (UnregisterTask f u)
  show ?thesis
  proof (cases "descriptors (shared s) (unregister_id u)")
    case None
    then show ?thesis using assms UnregisterTask
      by (auto simp: unregister_take_def owner_single_def intro!: single_move)
  next
    case (Some p)
    then show ?thesis using assms UnregisterTask
      by (auto simp: unregister_take_def owner_single_def owner_refs_def sys_inv_def intro!: single_take)
  qed
qed (use assms in \<open>auto simp: unregister_iter_def case_prod_beta owner_single_def intro!: single_move
      split: option.splits if_splits\<close>)

lemma single_main: "owner_single s \<Longrightarrow> main_step ev s = Some s' \<Longrightarrow> owner_single s'"
  by (cases ev) (auto simp: owner_single_def try_exit_def intro: single_frame split: if_splits receiver_stage.splits)

lemma owner_single_step: "owner_step bo c fc s s' \<Longrightarrow> owner_refs s \<Longrightarrow> owner_single s \<Longrightarrow> owner_single s'"
proof (induction rule: owner_step.induct)
  case (os_receive_error s e)
  then show ?case by (auto simp: receive_error_def owner_single_def split: option.split)
qed (blast intro: single_receive single_command single_interrupt single_unregister_step single_lock single_main)+

interpretation owner_alone: transition_system owner_init "owner_step bo c fc" "\<lambda>s. owner_inv s \<and> owner_single s"
  for bo :: "'b backoff_ops" and c :: libc_consts and fc :: "'k fcntl_calls"
proof
  fix s :: "('b, 'k) owner_sys" assume "owner_init s"
  moreover from this have "owner_single s"
    by (auto simp: owner_init_def owner_single_def single_unregister_def owner_start_def)
  ultimately show "owner_inv s \<and> owner_single s" using owner.inv_start by blast
next
  fix s s' :: "('b, 'k) owner_sys" assume "owner_inv s \<and> owner_single s" "owner_step bo c fc s s'"
  then show "owner_inv s' \<and> owner_single s'"
    using owner.inv_keep [of s bo c fc s'] owner_single_step [of bo c fc s s'] by (simp add: owner_inv_def)
qed

lemma owner_alone_inv:
  "reachable_from (owner_step bo c fc) (owner_start k) s \<Longrightarrow> owner_inv s \<and> owner_single s"
  by (rule owner_alone.inv_reachable [of "owner_start k"]) (auto simp: owner_init_def)

section \<open>Registered files accept lock threads\<close>

text \<open>Only an unregistration closes a tracker, and it takes the file out of the table first.\<close>

definition accepting :: "DaemonOwnerInner \<Rightarrow> bool" where
  "accepting D \<longleftrightarrow> (\<forall>p d. p \<in> ran (descriptors D) \<longrightarrow> heap D p = Some d \<longrightarrow> can_spawn (fd_tracker d))"

lemma accepting_frame: "accepting D \<Longrightarrow> descriptors D' = descriptors D \<Longrightarrow> heap D' = heap D \<Longrightarrow> accepting D'"
  by (simp add: accepting_def)

lemma accepting_update:
  assumes "accepting D" "p \<notin> ran (descriptors D) \<or> (\<forall>d. heap D p = Some d \<longrightarrow> can_spawn (fd_tracker d) \<longrightarrow> can_spawn (f (fd_tracker d)))"
  shows "accepting (update_tracker p f D)"
  using assms unfolding accepting_def by (fastforce simp: update_tracker_def split: option.splits if_splits)

lemma accepting_clone [simp]: "accepting (arc_clone p D) = accepting D"
  by (simp add: accepting_def arc_clone_def)

lemma accepting_drop: "accepting D \<Longrightarrow> accepting (arc_drop p D)"
  by (auto simp: accepting_def arc_drop_def release_exit_lock_def split: option.splits if_splits)

lemma accepting_register:
  assumes "accepting D" "table_wf D" "objects_wf D"
  shows "accepting (registered_state D f i)"
proof -
  have "ran ((descriptors D)(i \<mapsto> next_obj D)) \<subseteq> insert (next_obj D) (ran (descriptors D))" by (auto simp: ran_def)
  then show ?thesis using assms by (auto simp: accepting_def registered_state_def split: if_splits)
qed

lemma accepting_take: "accepting D \<Longrightarrow> accepting (D\<lparr>descriptors := (descriptors D)(i := None)\<rparr>)"
  unfolding accepting_def by (simp add: ran_def) (metis option.distinct(1))

lemma accepting_step:
  assumes "owner_step bo c fc s s'" "owner_refs s" "owner_single s" "accepting (shared s)"
  shows "accepting (shared s')"
  using assms
proof (induction rule: owner_step.induct)
  case (os_receive check t m f s s')
  show ?case
  proof (cases m)
    case (Message_Register r)
    then obtain res D' where h: "handle_fd_register check (shared s) r = Some (res, D')" "shared s' = D'"
      using os_receive(1) by (auto simp: receive_request_step_def split: if_splits)
    from h(1) show ?thesis
    proof (cases rule: register_result)
      case (accepted i)
      then show ?thesis using os_receive h by (auto simp: owner_refs_def sys_inv_def intro: accepting_register)
    qed (use os_receive h in \<open>auto simp: close_received_def intro: accepting_frame\<close>)
  qed (use os_receive in \<open>auto simp: receive_request_step_def lock_lookup_def handle_interrupt_remove_def
        intro: accepting_frame split: if_splits option.splits\<close>)
next
  case (os_command os s s')
  show ?case
  proof (cases "receiver s")
    case (RecvCommand p cmd f)
    then have "handle_lock_command c fc os p cmd f s = Some s'"
      using os_command(1) by (auto simp: command_step_def split: sum.splits if_splits)
    then show ?thesis using os_command(4)
      by (auto simp: handle_lock_command_def tracker_spawn_def InterruptibleGuard_new_def track_def intro!: accepting_update
          split: option.splits LockAction.splits sum.splits prod.splits if_splits)
  qed (use os_command in \<open>auto simp: command_step_def intro: accepting_drop\<close>)
next
  case (os_unregister s t k tries sigs s')
  show ?case
  proof (cases "unregistering k")
    case None
    then show ?thesis using os_unregister
      by (cases k) (auto simp: unregister_take_def intro: accepting_take split: option.splits if_splits)
  next
    case (Some p)
    then have "Option.bind (tasks s t) unregistering = Some p" using os_unregister(1) by simp
    then have out: "p \<notin> ran (descriptors (shared s))"
      using os_unregister(4) unfolding owner_single_def single_unregister_def by blast
    then show ?thesis using os_unregister Some
      by (cases k) (auto simp: unregister_iter_def case_prod_beta intro: accepting_update accepting_drop split: option.splits if_splits)
  qed
next
  case (os_lock s t k mask_change s')
  then show ?case
    by (cases "(c, fc, mask_change, t, k, s)" rule: lock_thread_step.cases)
      (auto simp: set_lock_try_def handle_interrupt_add_def InterruptibleGuard_drop_untrack_def untrack_def
        intro: accepting_frame accepting_drop intro!: accepting_update split: sum.splits option.splits if_splits prod.splits)
next
  case (os_interrupt s t k tries sigs s')
  then show ?case
    by (cases k) (auto simp: interrupt_iter_def case_prod_beta split: sum.splits option.splits if_splits)
next
  case (os_main ev s s')
  then show ?case
    by (cases ev) (auto simp: try_exit_def intro: accepting_frame split: if_splits receiver_stage.splits)
qed (auto simp: receive_error_def split: option.split)

interpretation owner_open: transition_system owner_init "owner_step bo c fc"
    "\<lambda>s. (owner_inv s \<and> owner_single s) \<and> accepting (shared s)"
  for bo :: "'b backoff_ops" and c :: libc_consts and fc :: "'k fcntl_calls"
proof
  fix s :: "('b, 'k) owner_sys" assume "owner_init s"
  moreover from this have "accepting (shared s)"
    by (auto simp: owner_init_def accepting_def owner_start_def DaemonOwner_new_def)
  ultimately show "(owner_inv s \<and> owner_single s) \<and> accepting (shared s)" using owner_alone.inv_start by blast
next
  fix s s' :: "('b, 'k) owner_sys" assume "(owner_inv s \<and> owner_single s) \<and> accepting (shared s)" "owner_step bo c fc s s'"
  then show "(owner_inv s' \<and> owner_single s') \<and> accepting (shared s')"
    using owner_alone.inv_keep [of s bo c fc s'] accepting_step [of bo c fc s s'] by (simp add: owner_inv_def)
qed

lemma owner_accepting:
  "reachable_from (owner_step bo c fc) (owner_start k) s \<Longrightarrow> accepting (shared s)"
  using owner_open.inv_reachable [of "owner_start k" bo c fc s] by (auto simp: owner_init_def)

section \<open>Waiting for the last reference\<close>

text \<open>
  The references that an unregistration waits for once the tracker has no threads left: those of
  threads that the tracker has refused, and that of the receiving thread, which may still have to
  start such a thread.
\<close>

fun aborting :: "'b task \<Rightarrow> obj option" where
  "aborting (LockAbort p _) = Some p"
| "aborting _ = None"

fun recv_pending :: "receiver_stage \<Rightarrow> obj \<Rightarrow> nat" where
  "recv_pending (RecvCommand q _ _) p = (if q = p then 3 else 0)"
| "recv_pending (RecvRelease q) p = (if q = p then 1 else 0)"
| "recv_pending _ p = 0"

definition pending_refs :: "('b, 'k) owner_sys \<Rightarrow> obj \<Rightarrow> nat" where
  "pending_refs s p = card (with_task aborting (tasks s) p) + recv_pending (receiver s) p"

lemma holders_when_stopped:
  assumes inv: "sys_inv D T R" and one: "single_unregister D T" and t: "T t = Some (UnregisterWait f p)"
  shows "with_task holds T p = insert t (with_task aborting T p)" "t \<notin> with_task aborting T p"
    "p \<notin> ran (descriptors D)" "\<exists>d. heap D p = Some d \<and> \<not> can_spawn (fd_tracker d)"
proof -
  obtain d where d: "heap D p = Some d" using referenced_alive [OF inv, of p t] t by auto
  have "with_task stopped T p \<noteq> {}" "with_task stopping T p \<noteq> {}"
    using t with_task_iff [of t stopped T p] with_task_iff [of t stopping T p] by auto
  then have "threads (fd_tracker d) = {}" "\<not> can_spawn (fd_tracker d)"
    using inv d by (simp_all add: sys_inv_def unregister_ok_def)
  moreover from this have untracked: "with_task tracked T p = {}" using inv d by (simp add: sys_inv_def trackers_ok_def)
  ultimately show "\<exists>d. heap D p = Some d \<and> \<not> can_spawn (fd_tracker d)" using d by blast
  have self: "Option.bind (T t) unregistering = Some p" using t by simp
  then have here: "u = t" if "Option.bind (T u) unregistering = Some p" for u
    using one that unfolding single_unregister_def by blast
  have "holds k = Some p \<longleftrightarrow> unregistering k = Some p \<or> aborting k = Some p" if "T u = Some k" for u k
    using that untracked with_task_iff [of u tracked T p] by (cases k) (auto split: if_splits)
  then have "u \<in> with_task holds T p \<longleftrightarrow> u = t \<or> u \<in> with_task aborting T p" for u
    using here [of u] t by (cases "T u") (auto simp: with_task_iff)
  then show "with_task holds T p = insert t (with_task aborting T p)" by blast
  show "t \<notin> with_task aborting T p" using t by (simp add: with_task_iff)
  show "p \<notin> ran (descriptors D)" using one self unfolding single_unregister_def by blast
qed

text \<open>When nothing is pending, the reference of the waiting thread is the last one.\<close>

lemma nothing_pending:
  assumes inv: "owner_inv s" "owner_single s" and t: "tasks s t = Some (UnregisterWait f p)" and "pending_refs s p = 0"
  shows "unregister_may_finish (shared s) p"
proof -
  have sys: "sys_inv (shared s) (tasks s) (receiver s)" using inv(1) by (simp add: owner_inv_def owner_refs_def)
  note h = holders_when_stopped [OF sys inv(2) [unfolded owner_single_def] t]
  have fin: "finite (with_task aborting (tasks s) p)" using sys by (simp add: sys_inv_def with_task_finite)
  then have "with_task aborting (tasks s) p = {}" "recv_holds (receiver s) \<noteq> Some p"
    using assms(4) by (simp_all add: pending_refs_def) (cases "receiver s"; simp split: if_splits)
  then show ?thesis
    using sys_inv_count [OF sys, of p] h by (simp add: unregister_may_finish_def)
qed

text \<open>What is pending never grows.\<close>

lemma aborts_upd:
  assumes "finite (dom T)"
  shows "card (with_task aborting (T(t := v)) p) \<le> card (with_task aborting T p) + of_bool (Option.bind v aborting = Some p)"
  using with_task_card [OF assms, of aborting t v p] by simp

lemma pending_frame:
  assumes "finite (dom (tasks s))" "tasks s' = (tasks s)(t := v)" "Option.bind v aborting \<noteq> Some p"
    "recv_pending (receiver s') p \<le> recv_pending (receiver s) p"
  shows "pending_refs s' p \<le> pending_refs s p"
  using aborts_upd [OF assms(1), of t v p] assms(2-) by (simp add: pending_refs_def)

lemma pending_same:
  "tasks s' = tasks s \<Longrightarrow> recv_pending (receiver s') p \<le> recv_pending (receiver s) p \<Longrightarrow> pending_refs s' p \<le> pending_refs s p"
  by (simp add: pending_refs_def)

lemma pending_receive:
  assumes fin: "finite (dom (tasks s))" and p: "p \<notin> ran (descriptors (shared s))"
    and st: "receive_request_step check t m f s = Some s'"
  shows "pending_refs s' p \<le> pending_refs s p"
proof (cases m)
  case (Message_LockCommand cmd)
  have "descriptors (shared s) (command_id cmd) \<noteq> Some p" using p by (auto simp: ran_def)
  then show ?thesis using st Message_LockCommand
    by (auto simp: receive_request_step_def lock_lookup_def intro!: pending_same split: if_splits option.splits)
next
  case (Message_Interrupt i)
  then show ?thesis using st
    by (intro pending_frame [OF fin, of _ t "Some (InterruptTask f i)"]) (auto simp: receive_request_step_def split: if_splits)
next
  case (Message_Unregister u)
  then show ?thesis using st
    by (intro pending_frame [OF fin, of _ t "Some (UnregisterTask f u)"]) (auto simp: receive_request_step_def split: if_splits)
qed (use st in \<open>auto simp: receive_request_step_def case_prod_beta intro!: pending_same split: if_splits\<close>)

text \<open>The receiver's command step gives up its reference and leaves at most one for a refused thread.\<close>

lemma pending_command:
  assumes fin: "finite (dom (tasks s))" and st: "command_step c fc os s = Some s'"
  shows "pending_refs s' p \<le> pending_refs s p \<and> (recv_pending (receiver s) p > 0 \<longrightarrow> pending_refs s' p < pending_refs s p)"
proof (cases "receiver s")
  case (RecvCommand q cmd f)
  then have h: "handle_lock_command c fc os q cmd f s = Some s'"
    using st by (auto simp: command_step_def split: sum.splits if_splits)
  have recv: "receiver s' = RecvRelease q"
    using h by (auto simp: handle_lock_command_def split: option.splits LockAction.splits sum.splits prod.splits)
  have "card (with_task aborting (tasks s') p) \<le> card (with_task aborting (tasks s) p) + of_bool (q = p)"
  proof (cases "tasks s' = tasks s")
    case False
    then obtain t v where "tasks s' = (tasks s)(t \<mapsto> v)" "aborting v = None \<or> aborting v = Some q"
      using h by (auto simp: handle_lock_command_def split: option.splits LockAction.splits sum.splits prod.splits)
    then show ?thesis using aborts_upd [OF fin, of t "Some v" p] by auto
  qed simp
  then show ?thesis using RecvCommand recv by (auto simp: pending_refs_def)
qed (use st in \<open>auto simp: command_step_def pending_refs_def\<close>)

lemma pending_interrupt:
  assumes fin: "finite (dom (tasks s))" and st: "handle_interrupt_step bo tries t k s = Some (sigs, s')"
  shows "pending_refs s' p \<le> pending_refs s p"
proof -
  obtain v where "tasks s' = (tasks s)(t := v)" "Option.bind v aborting = None" "receiver s' = receiver s"
    using st by (cases k) (auto simp: interrupt_iter_def case_prod_beta split: sum.splits option.splits if_splits)
  then show ?thesis by (intro pending_frame [OF fin]) auto
qed

lemma pending_unregister:
  assumes fin: "finite (dom (tasks s))" and st: "handle_fd_unregister_step bo tries t k s = Some (sigs, s')"
  shows "pending_refs s' p \<le> pending_refs s p"
proof -
  obtain v where "tasks s' = (tasks s)(t := v)" "Option.bind v aborting = None" "receiver s' = receiver s"
    using st by (cases k) (auto simp: unregister_iter_def case_prod_beta split: sum.splits option.splits if_splits prod.splits)
  then show ?thesis by (intro pending_frame [OF fin]) auto
qed

lemma pending_lock:
  assumes fin: "finite (dom (tasks s))" and st: "lock_thread_step c fc mask_change t k s = Some s'"
  shows "pending_refs s' p \<le> pending_refs s p"
proof -
  obtain v where "tasks s' = (tasks s)(t := v)" "Option.bind v aborting = None" "receiver s' = receiver s"
    using st by (cases "(c, fc, mask_change, t, k, s)" rule: lock_thread_step.cases)
      (auto split: sum.splits option.splits if_splits prod.splits)
  then show ?thesis by (intro pending_frame [OF fin]) auto
qed

lemma pending_step:
  assumes "owner_step bo c fc s s'" "owner_inv s" "owner_single s" "tasks s t = Some (UnregisterWait f p)"
  shows "pending_refs s' p \<le> pending_refs s p"
proof -
  have sys: "sys_inv (shared s) (tasks s) (receiver s)" using assms(2) by (simp add: owner_inv_def owner_refs_def)
  then have fin: "finite (dom (tasks s))" by (simp add: sys_inv_def)
  note h = holders_when_stopped [OF sys assms(3) [unfolded owner_single_def] assms(4)]
  from assms(1) show ?thesis
  proof (cases rule: owner_step.cases)
    case (os_receive check u m g)
    then show ?thesis using pending_receive [OF fin h(3)] by blast
  next
    case (os_receive_error e)
    then show ?thesis by (auto simp: receive_error_def pending_refs_def split: option.split)
  next
    case (os_command os)
    then show ?thesis using pending_command [OF fin] by blast
  next
    case (os_main ev)
    then show ?thesis
      by (intro pending_same; cases ev) (auto simp: try_exit_def split: if_splits receiver_stage.splits)
  qed (blast intro: pending_interrupt [OF fin] pending_unregister [OF fin] pending_lock [OF fin])+
qed

text \<open>While something is pending, a thread other than the waiting one can reduce it.\<close>

lemma pending_decreases:
  assumes inv: "owner_inv s" "owner_single s" and t: "tasks s t = Some (UnregisterWait f p)" and pos: "0 < pending_refs s p"
  shows "\<exists>s'. owner_step bo c fc s s' \<and> tasks s' t = tasks s t \<and> pending_refs s' p < pending_refs s p"
proof (cases "0 < recv_pending (receiver s) p")
  case True
  have sys: "sys_inv (shared s) (tasks s) (receiver s)" using inv(1) by (simp add: owner_inv_def owner_refs_def)
  obtain d where d: "heap (shared s) p = Some d" using holders_when_stopped(4) [OF sys inv(2) [unfolded owner_single_def] t] by blast
  have "\<exists>s'. command_step c fc (Inl EIO) s = Some s' \<and> tasks s' = tasks s"
    using True d by (cases "receiver s")
      (auto simp: command_step_def handle_lock_command_def tracker_spawn_def split: LockAction.split prod.split if_splits)
  then obtain s' where s': "command_step c fc (Inl EIO) s = Some s'" "tasks s' = tasks s" by blast
  have "pending_refs s' p < pending_refs s p"
    using pending_command [OF _ s'(1), of p] True sys by (simp add: sys_inv_def)
  then show ?thesis using os_command [OF s'(1)] s'(2) by (intro exI [of _ s']) simp
next
  case False
  have fin: "finite (dom (tasks s))" using inv(1) by (simp add: owner_inv_def owner_refs_def sys_inv_def)
  from False pos have "with_task aborting (tasks s) p \<noteq> {}" by (auto simp: pending_refs_def)
  then obtain u where u: "u \<in> with_task aborting (tasks s) p" by blast
  then obtain k where k: "tasks s u = Some k" "aborting k = Some p" by (auto simp: with_task_iff bind_eq_Some_conv)
  then obtain rf where abort: "tasks s u = Some (LockAbort p rf)" by (cases k) auto
  let ?s = "set_task u None (s\<lparr>shared := arc_drop p (shared s)\<rparr>)"
  have "owner_step bo c fc s ?s" by (rule os_lock [OF abort, of _ _ "Inr ()"]) simp
  moreover have "pending_refs ?s p < pending_refs s p"
    using with_task_card [OF fin, of aborting u None p] abort by (simp add: pending_refs_def)
  ultimately show ?thesis using abort t by (intro exI [of _ ?s]) auto
qed

section \<open>No thread is stuck\<close>

text \<open>A thread can make its next step, with its signal mask calls succeeding.\<close>

definition thread_enabled ::
    "'b backoff_ops \<Rightarrow> libc_consts \<Rightarrow> 'k fcntl_calls \<Rightarrow> ('b, 'k) owner_sys \<Rightarrow> pthread \<Rightarrow> 'b task \<Rightarrow> bool" where
  "thread_enabled bo c fc s t k \<longleftrightarrow>
     handle_interrupt_step bo [] t k s \<noteq> None \<or> handle_fd_unregister_step bo [] t k s \<noteq> None \<or>
     lock_thread_step c fc (Inr ()) t k s \<noteq> None"

text \<open>Stopping a tracker never panics.\<close>

lemma stop_iter_no_panic: "snd (fst (stop_iter bo l d)) \<noteq> Panicked"
  by (simp add: stop_iter_def stop_pause_def)

definition unpanicked :: "('b, 'k) owner_sys \<Rightarrow> bool" where
  "unpanicked s \<longleftrightarrow> (\<forall>t f p. tasks s t \<noteq> Some (UnregisterStop f p Panicked))"

lemma unpanicked_step: "owner_step bo c fc s s' \<Longrightarrow> unpanicked s \<Longrightarrow> unpanicked s'"
proof (induction rule: owner_step.induct)
  case (os_receive check t m f s s')
  then show ?case by (cases m) (auto simp: receive_request_step_def unpanicked_def case_prod_beta split: if_splits sum.splits)
next
  case (os_receive_error s e)
  then show ?case by (auto simp: receive_error_def unpanicked_def split: option.split)
next
  case (os_command os s s')
  then show ?case
    by (auto simp: command_step_def handle_lock_command_def unpanicked_def
        split: receiver_stage.splits option.splits LockAction.splits sum.splits prod.splits if_splits)
next
  case (os_interrupt s t k tries sigs s')
  then show ?case
    by (cases k) (auto simp: interrupt_iter_def case_prod_beta unpanicked_def split: sum.splits option.splits if_splits)
next
  case (os_unregister s t k tries sigs s')
  then show ?case
    by (cases k) (auto simp: stop_iter_no_panic unregister_iter_def stop_enter_def case_prod_beta unpanicked_def
        split: sum.splits option.splits if_splits prod.splits)
next
  case (os_lock s t k mask_change s')
  then show ?case
    by (cases "(c, fc, mask_change, t, k, s)" rule: lock_thread_step.cases)
      (auto simp: unpanicked_def split: sum.splits option.splits if_splits prod.splits)
next
  case (os_main ev s s')
  then show ?case by (cases ev) (auto simp: unpanicked_def try_exit_def split: if_splits receiver_stage.splits)
qed

lemma unpanicked_run: "reachable_from (owner_step bo c fc) (owner_start k) s \<Longrightarrow> unpanicked s"
proof (induction rule: reachable_from.induct)
  case rf_refl
  then show ?case by (simp add: unpanicked_def owner_start_def)
qed (rule unpanicked_step)

lemma set_lock_try_returns:
  assumes "interrupts D i = None"
  shows "\<exists>r D' k'. set_lock_try c fc h fd lock D k = Some (r, D', k')"
proof -
  obtain j D' where "handle_interrupt_add D h = Some (j, D')" using interrupt_table.add_returns [OF assms] by blast
  then show ?thesis by (simp add: set_lock_try_def split: prod.split sum.split)
qed

lemma thread_enabled_unless_waiting:
  assumes inv: "owner_inv s" "unpanicked s" and t: "tasks s t = Some k" and i: "interrupts (shared s) i = None"
    and wait: "\<And>f p. k = UnregisterWait f p \<Longrightarrow> unregister_may_finish (shared s) p"
  shows "thread_enabled bo c fc s t k"
proof -
  have sys: "sys_inv (shared s) (tasks s) (receiver s)" using inv(1) by (simp add: owner_inv_def owner_refs_def)
  have alive: "\<exists>d. heap (shared s) p = Some d" if "holds k = Some p" for p
    using referenced_alive [OF sys, of p t] t that by simp
  show ?thesis
  proof (cases k)
    case (UnregisterStop f p r)
    then show ?thesis using alive [of p] inv(2) t by (cases r) (auto simp: thread_enabled_def unpanicked_def)
  next
    case (LockTask p x f lock stage)
    have "lock_thread_step c fc (Inr ()) t k s \<noteq> None"
    proof (cases stage)
      case LockTry
      then obtain d where d: "heap (shared s) p = Some d" using alive [of p] LockTask by auto
      obtain r D' k' where "set_lock_try c fc \<lparr>handle_thread = t, handle_exit = x\<rparr> (descriptor d) lock (shared s) (kern s) = Some (r, D', k')"
        using set_lock_try_returns [OF i, of c fc _ "descriptor d" lock "kern s"] by blast
      then show ?thesis using d LockTask LockTry by simp
    qed (use alive [of p] LockTask in \<open>auto split: prod.split\<close>)
    then show ?thesis by (simp add: thread_enabled_def)
  qed (use alive wait in \<open>auto simp: thread_enabled_def split: sum.split prod.split option.split\<close>)
qed


text \<open>A run in which a refused thread still holds its reference while the file is unregistered.\<close>

definition refused_moves :: "move list" where
  "refused_moves =
     [MReceive (Inr ()) 10 (Message_Register (Register 3)) 100,
      MReceive (Inr ()) 30 (Message_Unregister (Unregister 0)) 103,
      MReceive (Inr ()) 10 (owner_request SetLockBlocking Write) 101,
      MUnregister 30 [], MUnregister 30 [], MUnregister 30 [], MCommand (Inr 20)]"


end
