(* ===== verification/End_To_End.thy ===== *)
theory End_To_End
  imports Service Daemon_Progress
begin

text \<open>
  Requests that the owner process serves in a thread of its own, from the client's request to the
  replies it reads: the blocking lock and the unregistration. The lemmas follow one such thread
  through its stages on the sockets; the properties are in \<open>Spec2Isabelle\<close>.
\<close>

section \<open>Runs given step by step\<close>

lemma reachable_chain: "successively step xs \<Longrightarrow> xs \<noteq> [] \<Longrightarrow> reachable_from step (hd xs) (last xs)"
proof (induction xs rule: induct_list012)
  case (3 x y zs)
  then have "step x y" "reachable_from step y (last (y # zs))" by simp_all
  then show ?case using reachable_from_trans reachable_from_single by fastforce
qed (simp_all add: rf_refl)

section \<open>Replies in order\<close>

text \<open>A reply is appended to what waits on the one-shot socket.\<close>

lemma reply_appends:
  assumes chan: "rpc_channel k pending peer socks eof cd valid rcd (\<lambda>_. True) ser deser"
    and child: "peer s child = one"
    and ok: "\<And>data. is_ok (fst (send_raw_message k child data [] s))"
  shows "\<exists>data. enc rcd x = Some data \<and> peer (reply k rcd (RawReply child) x s) = peer s \<and>
    pending (reply k rcd (RawReply child) x s) one = pending s one @ [as_pending (data, [])]"
proof -
  have sockets: "unix_sockets k pending peer socks eof" and codec: "codec_api rcd (\<lambda>_. True)"
    using chan by (simp_all add: rpc_channel_def)
  obtain data where data: "enc rcd x = Some data" using codec_api.enc_dec [OF codec TrueI, of x] by blast
  obtain s1 where s1: "send_raw_message k child data [] s = (Inr (), s1)"
    using ok [of data] by (metis is_okE prod.collapse old.unit.exhaust)
  have "peer s1 = peer s" using unix_sockets.send_frame [OF sockets s1] by (auto simp: drop_fds_def)
  then show ?thesis
    using rpc_channel.reply_delivered [OF chan child refl _ _ TrueI data s1] data by (simp add: reply_def)
qed

lemma replies_append:
  assumes chan: "rpc_channel k pending peer socks eof cd valid rcd (\<lambda>_. True) ser deser"
    and child: "peer s child = one"
    and ok: "\<And>data s. is_ok (fst (send_raw_message k child data [] s))"
  shows "\<exists>b1 b2. enc rcd x1 = Some b1 \<and> enc rcd x2 = Some b2 \<and>
    pending (reply k rcd (RawReply child) x2 (reply k rcd (RawReply child) x1 s)) one =
      pending s one @ [as_pending (b1, []), as_pending (b2, [])]"
proof -
  obtain b1 where b1: "enc rcd x1 = Some b1" "peer (reply k rcd (RawReply child) x1 s) = peer s"
      "pending (reply k rcd (RawReply child) x1 s) one = pending s one @ [as_pending (b1, [])]"
    using reply_appends [OF chan child ok] by blast
  then have "peer (reply k rcd (RawReply child) x1 s) child = one" using child by simp
  from reply_appends [OF chan this ok, of x2] show ?thesis using b1 by auto
qed

text \<open>A reply with descriptors, as the coordinator sends it.\<close>

lemma reply_fds_arrive:
  assumes chan: "rpc_channel k pending peer socks eof cd valid rcd (\<lambda>_. True) ser deser"
    and child: "peer s child = one" "pending s one = []" and far: "one \<notin> set fds" "one \<noteq> child"
    and ok: "\<And>data. is_ok (fst (send_raw_message k child data fds s))" and few: "length fds < 2 ^ 64"
  shows "\<exists>s'. first_reply k rcd one (close_fd k child (reply_with_fds k rcd (RawReply child) (Inr v) fds s)) =
    (Inr (Inr (v, fds)), s')"
proof -
  have sockets: "unix_sockets k pending peer socks eof" and codec: "codec_api rcd (\<lambda>_. True)"
    using chan by (simp_all add: rpc_channel_def)
  obtain data where data: "enc rcd (Inr v) = Some data" using codec_api.enc_dec [OF codec TrueI, of "Inr v"] by blast
  obtain s1 where s1: "send_raw_message k child data fds s = (Inr (), s1)"
    using ok [of data] by (metis is_okE prod.collapse old.unit.exhaust)
  have sent: "reply_with_fds k rcd (RawReply child) (Inr v) fds s = s1" "pending s1 one = [as_pending (data, fds)]"
      "small_frame (data, fds)" "dec rcd data = Some (Inr v)"
    using rpc_channel.reply_delivered [OF chan child far(1) few TrueI data s1] by simp_all
  have "pending (close_fd k child s1) one = [as_pending (data, fds)]"
    using unix_sockets.close_law(1) [OF sockets far(2)] sent(2) by simp
  from rpc_channel.iterator_next [OF chan this sent(3,4)] show ?thesis using sent(1) by (auto simp: first_reply_def)
qed

section \<open>A lock thread on its own\<close>

lemma unseen_trans: "unseen D D' \<Longrightarrow> unseen D' D'' \<Longrightarrow> unseen D D''"
  by (simp add: unseen_def)

text \<open>What the locking thread replies, given the answers of the kernel to its two calls.\<close>

definition first_lock_reply :: "LockParams \<Rightarrow> u64 \<Rightarrow> errno + unit \<Rightarrow> errno + ReplyLockCommandData" where
  "first_lock_reply lock i r =
     (case r of Inr _ \<Rightarrow> Inr (Done lock) | Inl e \<Rightarrow> if e = EAGAIN then Inr (Pending i) else Inl e)"

definition second_lock_reply :: "LockParams \<Rightarrow> errno + unit \<Rightarrow> errno + ReplyLockCommandData" where
  "second_lock_reply lock r = (case r of Inr _ \<Rightarrow> Inr (Done lock) | Inl e \<Rightarrow> Inl e)"

lemma set_lock_try_reply:
  assumes "fcntl_setlk fc fd (flock_from c lock) k = (r1, k1)" "interrupts D j = None"
  shows "\<exists>i D1. set_lock_try c fc h fd lock D k = Some (first_lock_reply lock i r1, D1, k1) \<and> unseen D D1 \<and>
    heap D1 = heap D \<and> arcs D1 = arcs D"
proof (cases "r1 = Inl EAGAIN")
  case True
  obtain i n where "vacant_id (interrupts D) (interrupt_next_id D) = Some (i, n)"
    using vacant_id_returns [of "interrupts D" "interrupt_next_id D"] assms(2) by auto
  then show ?thesis using True assms(1)
    by (intro exI [of _ i] exI [of _ "snd (the (handle_interrupt_add D h))"])
      (simp add: set_lock_try_def handle_interrupt_add_def first_lock_reply_def io_cvt_def unseen_frame)
next
  case False
  then show ?thesis using assms(1)
    by (intro exI [of _ 0] exI [of _ D])
      (auto simp: set_lock_try_def first_lock_reply_def io_cvt_def split: sum.split)
qed

lemma set_lock_wait_reply:
  "fcntl_setlkw fc fd (flock_from c lock) k = (r, k') \<Longrightarrow> set_lock_wait c fc fd lock k = (second_lock_reply lock r, k')"
  by (simp add: set_lock_wait_def second_lock_reply_def io_cvt_def split: sum.split)

lemma lock_thread_run:
  fixes w :: "('b, 'k) owner_sys" and env :: "'s client_env"
  assumes task: "tasks w t = Some (LockTask p x child lock LockTry)"
    and live: "heap (shared w) p = Some d" "2 \<le> arcs (shared w) p"
    and kernel: "fcntl_setlk fc (descriptor d) (flock_from c lock) (kern w) = (r1, k1)"
      "fcntl_setlkw fc (descriptor d) (flock_from c lock) k1 = (r2, k2)"
    and vacant: "interrupts (shared w) j = None"
  defines "R \<equiv> \<lambda>v s. reply (net env) (lock_cd env) (RawReply child) v s"
  shows "\<exists>w' i. reachable_from (service_step env bo c fc comm) (w, s)
      (w', drop_fds (net env) [child] (R (second_lock_reply lock r2) (R (first_lock_reply lock i r1) s))) \<and>
    tasks w' = (tasks w)(t := None) \<and> receiver w' = receiver w \<and> kern w' = k2 \<and> registry_of w' = registry_of w"
proof -
  let ?h = "\<lparr>handle_thread = t, handle_exit = x\<rparr>" and ?at = "\<lambda>stage. Some (LockTask p x child lock stage)"
  obtain i D1 where first: "set_lock_try c fc ?h (descriptor d) lock (shared w) (kern w) = Some (first_lock_reply lock i r1, D1, k1)"
      "unseen (shared w) D1" "heap D1 = heap (shared w)" "arcs D1 = arcs (shared w)"
    using set_lock_try_reply [OF kernel(1) vacant] by blast
  define x1 where "x1 = first_lock_reply lock i r1"
  define x2 where "x2 = second_lock_reply lock r2"
  define w1 where "w1 = set_task t (?at LockWait) (send_reply child (ReplyLock x1) (w\<lparr>shared := D1, kern := k1\<rparr>))"
  define w2 where "w2 = set_task t (?at LockRelease) (send_reply child (ReplyLock x2) (w1\<lparr>kern := k2\<rparr>))"
  define w3 where "w3 = set_task t (?at LockUntrack) (w2\<lparr>shared := arc_drop p D1\<rparr>)"
  define w4 where "w4 = set_task t (?at LockExit)
    (w3\<lparr>shared := update_tracker p (InterruptibleGuard_drop_untrack \<lparr>guard_thread = t, guard_exit = x\<rparr>) (arc_drop p D1)\<rparr>)"
  define w5 where "w5 = set_task t None (w4\<lparr>exits := InterruptibleGuard_drop_exit \<lparr>guard_thread = t, guard_exit = x\<rparr> (exits w4)\<rparr>)"
  note defs = w1_def w2_def w3_def w4_def w5_def set_task_def send_reply_def
  have exec: "owner_exec bo c fc (MLock t (Inr ())) w = Some w1" "owner_exec bo c fc (MLock t (Inr ())) w1 = Some w2"
    "owner_exec bo c fc (MLock t (Inr ())) w2 = Some w3" "owner_exec bo c fc (MLock t (Inr ())) w3 = Some w4"
    "owner_exec bo c fc (MLock t (Inr ())) w4 = Some w5"
    using task live first set_lock_wait_reply [OF kernel(2)] by (simp_all add: defs x1_def x2_def)
  have eff: "net_effect env (MLock t (Inr ())) w w1 u = R x1 u"
    "net_effect env (MLock t (Inr ())) w1 w2 u = drop_fds (net env) [child] (R x2 u)"
    "net_effect env (MLock t (Inr ())) w2 w3 u = u" "net_effect env (MLock t (Inr ())) w3 w4 u = u"
    "net_effect env (MLock t (Inr ())) w4 w5 u = u" for u
    using task by (simp_all add: net_effect_def dropped_fds_def drop_fds_def defs R_def)
  have step: "service_step env bo c fc comm (v, u) (v', net_effect env (MLock t (Inr ())) v v' u)"
    if "owner_exec bo c fc (MLock t (Inr ())) v = Some v'" for v v' and u
    using that by (intro service_move) auto
  let ?s2 = "drop_fds (net env) [child] (R x2 (R x1 s))"
  note steps = step [OF exec(1), of s, unfolded eff] step [OF exec(2), of "R x1 s", unfolded eff]
    step [OF exec(3), of ?s2, unfolded eff] step [OF exec(4), of ?s2, unfolded eff] step [OF exec(5), of ?s2, unfolded eff]
  have run: "reachable_from (service_step env bo c fc comm) (w, s) (w5, ?s2)"
    using reachable_chain [of "service_step env bo c fc comm" "[(w, s), (w1, R x1 s), (w2, ?s2), (w3, ?s2), (w4, ?s2), (w5, ?s2)]"]
      steps by simp
  have "unseen (shared w) (shared w5)"
    using first(2,4) unseen_drop [of D1 p] live(2) by (auto simp: defs intro: unseen_trans)
  then have "registry_of w5 = registry_of w" by (intro registry_unseen) (simp_all add: defs)
  then show ?thesis using run unfolding x1_def x2_def by (intro exI [of _ w5] exI [of _ i]) (simp add: defs)
qed

section \<open>Starting a lock thread\<close>

lemma lock_thread_started:
  fixes w :: "('b, 'k) owner_sys" and env :: "'s client_env"
  assumes recv: "receive_request (net env) (req_cd env) Message_deserialize comm s = (Inr (Message_LockCommand cmd, child), u)"
    and reach: "reachable_from (owner_step bo c fc) (owner_start k) w"
    and waiting: "receiver w = RecvIdle" "tasks w t = None" "command_action cmd = SetLockBlocking"
    and entry: "files (registry_of w) (command_id cmd) = Some fd"
  shows "\<exists>w' p d x. reachable_from (service_step env bo c fc comm) (w, s) (w', u) \<and>
    tasks w' = (tasks w)(t \<mapsto> LockTask p x child (command_params cmd) LockTry) \<and> receiver w' = RecvIdle \<and>
    heap (shared w') p = Some d \<and> descriptor d = fd \<and> 2 \<le> arcs (shared w') p \<and>
    interrupts (shared w') = interrupts (shared w) \<and> kern w' = kern w \<and> registry_of w' = registry_of w"
proof -
  let ?m = "Message_LockCommand cmd" and ?D = "shared w"
  obtain p d where p: "descriptors ?D (command_id cmd) = Some p" "heap ?D p = Some d" "descriptor d = fd"
    using entry by (auto simp: registry_of_def file_of_def map_comp_def split: option.splits)
  have tracker: "can_spawn (fd_tracker d)" using owner_accepting [OF reach] p(1,2) by (auto simp: accepting_def ran_def)
  have alive: "0 < arcs ?D p"
    using p(2) owner_reach_inv [OF reach] by (auto simp: owner_inv_def owner_refs_def sys_inv_def objects_wf_def)
  define tr where "tr = (fd_tracker d)\<lparr>threads := insert t (threads (fd_tracker d)), new_thread := True\<rparr>"
  define D2 where "D2 = update_tracker p (\<lambda>_. tr) (arc_clone p (arc_clone p ?D))"
  define w1 where "w1 = w\<lparr>ttl_queue := True, shared := arc_clone p ?D, receiver := RecvCommand p cmd child\<rparr>"
  define w2 where "w2 = set_task t (Some (LockTask p (next_exit w) child (command_params cmd) LockTry))
    (w1\<lparr>shared := D2, next_exit := Suc (next_exit w), receiver := RecvRelease p\<rparr>)"
  define w3 where "w3 = w2\<lparr>shared := arc_drop p D2, receiver := RecvIdle\<rparr>"
  have exec1: "owner_exec bo c fc (MReceive (Inr ()) t ?m child) w = Some w1"
    using waiting p by (simp add: receive_request_step_def lock_lookup_def w1_def)
  have w1: "shared w1 = arc_clone p ?D" "next_exit w1 = next_exit w" "heap (arc_clone p ?D) p = Some d"
    using p(2) by (simp_all add: w1_def arc_clone_def)
  have spawn: "tracker_spawn (Inr t) (next_exit w) (fd_tracker d) =
      (Inr (\<lparr>guard_thread = t, guard_exit = next_exit w\<rparr>, \<lparr>handle_thread = t, handle_exit = next_exit w\<rparr>), tr)"
    using tracker by (simp add: tracker_spawn_def InterruptibleGuard_new_def track_def tr_def)
  have "handle_lock_command c fc (Inr t) p cmd child w1 = Some w2"
    using waiting(3) w1 by (simp add: handle_lock_command_def w2_def D2_def spawn)
  then have exec2: "owner_exec bo c fc (MCommand (Inr t)) w1 = Some w2"
    using waiting(2) by (simp add: command_step_def w1_def)
  have exec3: "owner_exec bo c fc (MCommand (Inl EIO)) w2 = Some w3" by (simp add: command_step_def w2_def w3_def)
  note defs = w1_def w2_def w3_def set_task_def
  have eff: "net_effect env (MReceive (Inr ()) t ?m child) w w1 u = u" "net_effect env (MCommand (Inr t)) w1 w2 u = u"
    "net_effect env (MCommand (Inl EIO)) w2 w3 u = u"
    by (simp_all add: net_effect_def dropped_fds_def drop_fds_def defs)
  let ?S = "service_step env bo c fc comm"
  have "?S (w, s) (w1, u)" using service_receive [OF recv exec1] eff(1) by simp
  moreover have "?S (w1, u) (w2, u)" using service_move [OF _ exec2, of env comm u] eff(2) by simp
  moreover have "?S (w2, u) (w3, u)" using service_move [OF _ exec3, of env comm u] eff(3) by simp
  ultimately have run: "reachable_from ?S (w, s) (w3, u)"
    using reachable_chain [of ?S "[(w, s), (w1, u), (w2, u), (w3, u)]"] by simp
  have D2: "heap D2 p = Some (d\<lparr>fd_tracker := tr\<rparr>)" "arcs D2 p = Suc (Suc (arcs ?D p))" "interrupts D2 = interrupts ?D" "unseen ?D D2"
    using p(2) by (auto simp: D2_def update_tracker_def arc_clone_def unseen_def file_of_def fun_eq_iff)
  then have D3: "heap (arc_drop p D2) p = Some (d\<lparr>fd_tracker := tr\<rparr>)" "arcs (arc_drop p D2) p = Suc (arcs ?D p)"
    "interrupts (arc_drop p D2) = interrupts ?D" using alive by (simp_all add: arc_drop_def)
  have "unseen ?D (arc_drop p D2)" using D2(2,4) unseen_drop [of D2 p] by (auto intro: unseen_trans)
  then have "registry_of w3 = registry_of w" by (intro registry_unseen) (simp_all add: defs)
  then show ?thesis using run D3 alive p(3)
    by (intro exI [of _ w3] exI [of _ p] exI [of _ "d\<lparr>fd_tracker := tr\<rparr>"] exI [of _ "next_exit w"]) (simp add: defs)
qed

section \<open>The caller of the blocking lock\<close>

text \<open>
  The outcome a caller of the blocking lock should see, given the answers of the kernel to the
  non-blocking and to the blocking request of the owner process.
\<close>

definition blocking_outcome :: "LockParams \<Rightarrow> errno + unit \<Rightarrow> errno + unit \<Rightarrow> LockParams io_result" where
  "blocking_outcome lock nonblocking_call blocking_call =
     (case nonblocking_call of
        Inr _ \<Rightarrow> Inr lock
      | Inl e \<Rightarrow>
          if e = EAGAIN
          then (case blocking_call of Inr _ \<Rightarrow> Inr lock | Inl e' \<Rightarrow> Inl (Os e'))
          else Inl (Os e))"

lemma replies_to_outcome:
  assumes chan: "rpc_channel (net env) pending peer socks eof cd valid (lock_cd env) (\<lambda>_. True) ser deser"
    and enc: "enc (lock_cd env) x1 = Some b1" "enc (lock_cd env) x2 = Some b2"
    and pend: "pending s one = [as_pending (b1, []), as_pending (b2, [])]"
    and window: "unblock_signal pm SIGUSR1 t = (Inr g, t1)"
  shows "\<exists>t' s'. blocking_receive pm env l one t s =
     Some (case x1 of Inl e \<Rightarrow> Inl (Os e) | Inr (Done p) \<Rightarrow> Inr p
       | Inr (Pending _) \<Rightarrow> (case x2 of Inl e \<Rightarrow> Inl (Os e) | Inr d \<Rightarrow> expect_done d), t', s')"
proof -
  let ?item = "\<lambda>x. case x of Inr v \<Rightarrow> Inr v | Inl e \<Rightarrow> Inl (Os e)"
  obtain s1 where s1: "iterator_next_item env one s = (Some (Inr (?item x1)), s1)"
    "pending s1 = (pending s)(one := [as_pending (b2, [])])"
    using pending_item [OF chan TrueI enc(1) pend] by blast
  have "pending s1 one = [as_pending (b2, [])]" using s1(2) by simp
  then obtain s2 where s2: "iterator_next_item env one s1 = (Some (Inr (?item x2)), s2)"
    using pending_item [OF chan TrueI enc(2)] by blast
  have w: "open_window pm False t = (Inr (Some g), t1)" using window by (simp add: open_window_def)
  have "await_lock pm env i one False t s1 =
      Some (and_then (flatten (Inr (?item x2))) expect_done, close_window pm (Some g) t1, s2)" for i
    by (rule await_item [OF w s2]) simp
  then show ?thesis
    using s1(1)
    by (auto simp: blocking_receive_def flatten_def Let_def split: sum.splits ReplyLockCommandData.splits)
qed

text \<open>The bytes of the replies of a lock session, as they wait on the caller's one-shot socket.\<close>

fun lock_payload :: "server_reply \<Rightarrow> errno + ReplyLockCommandData" where
  "lock_payload (ReplyLock r) = r"
| "lock_payload _ = Inl EIO"

definition session_frames :: "'s client_env \<Rightarrow> server_reply list \<Rightarrow> (u8 list \<times> fd list) list" where
  "session_frames env rs = map (\<lambda>r. as_pending (the (enc (lock_cd env) (lock_payload r)), [])) rs"

text \<open>What the caller of the blocking lock makes of a complete session.\<close>

lemma complete_lock_read:
  assumes chan: "rpc_channel (net env) pending peer socks eof cd valid (lock_cd env) (\<lambda>_. True) ser deser"
    and rs: "complete_lock SetLockBlocking lock rs"
    and pend: "pending s one = session_frames env rs" "eof s one"
    and window: "unblock_signal pm SIGUSR1 t = (Inr g, t1)"
  shows "\<exists>res t' s'. blocking_receive pm env l one t s = Some (res, t', s') \<and>
    (res = Inr lock \<and> ReplyLock (Inr (Done lock)) \<in> set rs \<or>
     (\<exists>e. res = Inl (Os e) \<and> ReplyLock (Inl e) \<in> set rs) \<or>
     res = Inl (Custom BrokenPipe) \<and> rs = [])"
proof -
  have sockets: "unix_sockets (net env) pending peer socks eof" and codec: "codec_api (lock_cd env) (\<lambda>_. True)"
    using chan by (simp_all add: rpc_channel_def)
  have enc: "enc (lock_cd env) x = Some (the (enc (lock_cd env) x))" for x
    using codec_api.enc_dec [OF codec TrueI, of x] by auto
  consider "rs = []" | e where "rs = [ReplyLock (Inl e)]"
    | x1 x2 where "rs = [ReplyLock x1, ReplyLock x2]" "first_answer lock (ReplyLock x1)" "final_answer lock (ReplyLock x2)"
    using rs by (auto split: list.splits elim!: is_error.elims first_answer.elims final_answer.elims)
  then show ?thesis
  proof cases
    case 1
    then have "iterator_next_item env one s = (None, s)"
      using unix_sockets.iterator_eof [OF sockets _ pend(2), of "lock_cd env"] pend(1)
      by (simp add: iterator_next_item_def session_frames_def)
    then show ?thesis using 1 by (simp add: blocking_receive_def)
  next
    case (2 e)
    then obtain s1 where "iterator_next_item env one s = (Some (Inr (Inl (Os e))), s1)"
      using pending_item [OF chan TrueI enc, of s one "Inl e" "[]"] pend(1) by (auto simp: session_frames_def)
    then show ?thesis using 2 by (simp add: blocking_receive_def flatten_def)
  next
    case (3 x1 x2)
    have "pending s one = [as_pending (the (enc (lock_cd env) x1), []), as_pending (the (enc (lock_cd env) x2), [])]"
      using pend(1) 3(1) by (simp add: session_frames_def)
    from replies_to_outcome [OF chan enc enc this window, of l] show ?thesis using 3
      by (auto split: sum.splits ReplyLockCommandData.splits elim!: first_answer.elims final_answer.elims)
  qed
qed

section \<open>Unregistering\<close>

text \<open>The thread of an unregistration when no lock thread works on the file.\<close>

lemma unregister_thread_run:
  fixes w :: "('b, 'k) owner_sys" and env :: "'s client_env"
  assumes reach: "reachable_from (owner_step bo c fc) (owner_start k) w"
    and task: "tasks w t = Some (UnregisterTask child (Unregister i))"
    and entry: "descriptors (shared w) i = Some p" "heap (shared w) p = Some d"
    and alone: "arcs (shared w) p = 1" "threads (fd_tracker d) = {}"
  shows "\<exists>w'. reachable_from (service_step env bo c fc comm) (w, s)
      (w', drop_fds (net env) [child] (reply (net env) (unit_cd env) (RawReply child) (Inr ()) s)) \<and>
    tasks w' = (tasks w)(t := None) \<and> receiver w' = receiver w \<and> kern w' = kern w \<and>
    registry_of w' = (registry_of w)\<lparr>files := (files (registry_of w))(i := None), closed := closed (registry_of w) @ [descriptor d]\<rparr>"
proof -
  let ?D = "shared w" and ?mv = "MUnregister t []"
  define D1 where "D1 = ?D\<lparr>descriptors := (descriptors ?D)(i := None)\<rparr>"
  define D2 where "D2 = update_tracker p (\<lambda>_. (fd_tracker d)\<lparr>can_spawn := False\<rparr>) D1"
  define w1 where "w1 = set_task t (Some (UnregisterTaken child p)) (w\<lparr>shared := D1\<rparr>)"
  define w2 where "w2 = set_task t (Some (UnregisterStop child p Returned)) (w1\<lparr>shared := D2\<rparr>)"
  define w3 where "w3 = set_task t (Some (UnregisterWait child p)) w2"
  define w4 where "w4 = set_task t (Some (UnregisterReply child p)) (w3\<lparr>shared := arc_drop p D2\<rparr>)"
  define w5 where "w5 = set_task t None (send_reply child (ReplyUnit (Inr ())) w4)"
  note defs = w1_def w2_def w3_def w4_def w5_def set_task_def send_reply_def
  have D: "heap D1 p = Some d" "arcs D2 p = 1" "heap D2 p = Some (d\<lparr>fd_tracker := (fd_tracker d)\<lparr>can_spawn := False\<rparr>\<rparr>)"
    "descriptors D2 = descriptors D1" "unseen D1 D2"
    using entry(2) alone(1) by (simp_all add: D1_def D2_def update_tracker_def arc_drop_def unseen_def file_of_def fun_eq_iff)
  have exec: "owner_exec bo c fc ?mv w = Some w1" "owner_exec bo c fc ?mv w1 = Some w2"
    "owner_exec bo c fc ?mv w2 = Some w3" "owner_exec bo c fc ?mv w3 = Some w4" "owner_exec bo c fc ?mv w4 = Some w5"
    using task entry alone D
    by (simp_all add: defs unregister_take_def D1_def stop_enter_def stop_iter_def unregister_iter_def D2_def
        unregister_may_finish_def io_cvt_def)
  have step: "service_step env bo c fc comm (v, u) (v', net_effect env ?mv v v' u)"
    if "owner_exec bo c fc ?mv v = Some v'" for v v' and u
    using that by (intro service_move) auto
  let ?s2 = "drop_fds (net env) [child] (reply (net env) (unit_cd env) (RawReply child) (Inr ()) s)"
  have eff: "net_effect env ?mv w w1 u = u" "net_effect env ?mv w1 w2 u = u" "net_effect env ?mv w2 w3 u = u"
    "net_effect env ?mv w3 w4 u = u" "net_effect env ?mv w4 w5 s = ?s2" for u
    using task by (simp_all add: net_effect_def dropped_fds_def drop_fds_def defs)
  note steps = step [OF exec(1), of s, unfolded eff] step [OF exec(2), of s, unfolded eff]
    step [OF exec(3), of s, unfolded eff] step [OF exec(4), of s, unfolded eff] step [OF exec(5), of s, unfolded eff]
  have run: "reachable_from (service_step env bo c fc comm) (w, s) (w5, ?s2)"
    using reachable_chain [of "service_step env bo c fc comm" "[(w, s), (w1, s), (w2, s), (w3, s), (w4, s), (w5, ?s2)]"]
      steps by simp
  have wf: "table_wf ?D" using owner_reach_inv [OF reach] by (simp add: owner_inv_def owner_refs_def sys_inv_def)
  obtain f where f: "files (registry_of w) i = Some f" "retired (registry_of w) p = None"
      "registry_of w1 = (registry_of w)\<lparr>files := (files (registry_of w))(i := None), retired := (retired (registry_of w))(p \<mapsto> f)\<rparr>"
    using registry_take [OF wf entry(1), of w1] by (auto simp: defs D1_def)
  have out: "p \<notin> ran (descriptors D1)" using wf entry(1) unfolding D1_def table_wf_def
    by (simp add: ran_map_remove)
  have same: "registry_of w3 = registry_of w1" using D(5) by (intro registry_unseen) (simp_all add: defs)
  have "registry_of w4 = (registry_of w3)\<lparr>retired := (retired (registry_of w3))(p := None), closed := closed (registry_of w3) @ [descriptor d]\<rparr>"
    using registry_close [of w3 p _ w4] D(2,3,4) out by (auto simp: defs)
  moreover have "registry_of w5 = registry_of w4" by (intro registry_unseen) (simp_all add: defs)
  ultimately have "registry_of w5 = (registry_of w)\<lparr>files := (files (registry_of w))(i := None), closed := closed (registry_of w) @ [descriptor d]\<rparr>"
    using f(2,3) by (simp add: same fun_upd_idem)
  then show ?thesis using run by (intro exI [of _ w5]) (simp add: defs)
qed

lemma unregister_unknown_run:
  fixes w :: "('b, 'k) owner_sys" and env :: "'s client_env"
  assumes task: "tasks w t = Some (UnregisterTask child (Unregister i))" and entry: "descriptors (shared w) i = None"
  shows "\<exists>w'. service_step env bo c fc comm (w, s)
      (w', drop_fds (net env) [child] (reply (net env) (unit_cd env) (RawReply child) (Inl ENOENT) s)) \<and>
    tasks w' = (tasks w)(t := None) \<and> receiver w' = receiver w \<and> kern w' = kern w \<and> registry_of w' = registry_of w"
proof -
  define w1 where "w1 = set_task t None (send_reply child (ReplyUnit (Inl ENOENT)) w)"
  have exec: "owner_exec bo c fc (MUnregister t []) w = Some w1"
    using task entry by (simp add: w1_def unregister_take_def io_cvt_def)
  have "net_effect env (MUnregister t []) w w1 s =
      drop_fds (net env) [child] (reply (net env) (unit_cd env) (RawReply child) (Inl ENOENT) s)"
    using task by (simp add: net_effect_def dropped_fds_def w1_def)
  moreover have "registry_of w1 = registry_of w" by (intro registry_unseen) (simp_all add: w1_def set_task_def send_reply_def)
  ultimately show ?thesis
    using service_move [OF _ exec, of env comm s] by (intro exI [of _ w1]) (simp add: w1_def set_task_def send_reply_def)
qed

text \<open>A registered file that no thread refers to has one reference, the table's, and no lock thread.\<close>

lemma unused_entry:
  assumes reach: "reachable_from (owner_step bo c fc) (owner_start k) w" and idle: "recv_holds (receiver w) \<noteq> Some p"
    and entry: "descriptors (shared w) i = Some p"
    and unused: "\<And>t k. tasks w t = Some k \<Longrightarrow> holds k \<noteq> Some p \<and> tracked k \<noteq> Some p"
  shows "\<exists>d. heap (shared w) p = Some d \<and> arcs (shared w) p = 1 \<and> threads (fd_tracker d) = {}"
proof -
  have inv: "sys_inv (shared w) (tasks w) (receiver w)"
    using owner_reach_inv [OF reach] by (simp add: owner_inv_def owner_refs_def)
  have none: "with_task holds (tasks w) p = {}" "with_task tracked (tasks w) p = {}"
    using unused by (auto simp: with_task_def bind_eq_Some_conv)
  have ran: "p \<in> ran (descriptors (shared w))" using entry by (auto simp: ran_def)
  then obtain d where d: "heap (shared w) p = Some d" using inv by (auto simp: sys_inv_def table_wf_def)
  have "arcs (shared w) p = 1" using inv none ran idle by (simp add: sys_inv_def refs_ok_def)
  moreover have "threads (fd_tracker d) = {}" using inv d none by (simp add: sys_inv_def trackers_ok_def)
  ultimately show ?thesis using d by blast
qed

lemma files_None_iff:
  assumes "reachable_from (owner_step bo c fc) (owner_start k) w"
  shows "files (registry_of w) i = None \<longleftrightarrow> descriptors (shared w) i = None"
proof -
  have "table_wf (shared w)" using owner_reach_inv [OF assms] by (simp add: owner_inv_def owner_refs_def sys_inv_def)
  then show ?thesis by (auto simp: registry_of_def map_comp_def file_of_def table_wf_def ran_def split: option.splits)
qed

lemma unregister_started:
  fixes w :: "('b, 'k) owner_sys" and env :: "'s client_env"
  assumes recv: "receive_request (net env) (req_cd env) Message_deserialize comm s = (Inr (Message_Unregister u, child), v)"
    and waiting: "receiver w = RecvIdle" "tasks w t = None"
  defines "w1 \<equiv> set_task t (Some (UnregisterTask child u)) (w\<lparr>ttl_queue := True\<rparr>)"
  shows "service_step env bo c fc comm (w, s) (w1, v)"
proof -
  have exec: "owner_exec bo c fc (MReceive (Inr ()) t (Message_Unregister u) child) w = Some w1"
    using waiting by (simp add: receive_request_step_def w1_def)
  have "net_effect env (MReceive (Inr ()) t (Message_Unregister u) child) w w1 v = v"
    by (simp add: net_effect_def dropped_fds_def drop_fds_def w1_def set_task_def)
  then show ?thesis using service_receive [OF recv exec] by simp
qed

end
