(* ===== verification/Spawner.thy ===== *)
theory Spawner
  imports Kernel_Instances Signal_Guard
begin

text \<open>
  The coordinator (\<^verbatim>\<open>src/owner_spawner.rs\<close>), the creation of processes (\<^verbatim>\<open>src/processes.rs\<close>),
  the adoption of an inherited descriptor (\<^verbatim>\<open>src/communication.rs\<close>) and the server's entry point
  (\<^verbatim>\<open>src/main.rs\<close>).

  A process's descriptor table maps each open descriptor to its close-on-exec flag. The outcomes
  of the system calls are arguments. The command-line parser is third-party code and a parameter;
  what is relied on is that it reads back the arguments in the form in which they are declared.
\<close>

section \<open>Descriptor tables and commands\<close>

type_synonym fd_table = "fd \<rightharpoonup> bool"

text \<open>\<open>True\<close> is FD_CLOEXEC. The closure that \<^verbatim>\<open>pre_exec\<close> runs in the child clears it.\<close>

definition clear_cloexec_in_pre_exec :: "fd \<Rightarrow> fd_table \<Rightarrow> errno + fd_table" where
  "clear_cloexec_in_pre_exec fd tab =
     (case tab fd of None \<Rightarrow> Inl EBADF | Some _ \<Rightarrow> Inr (tab(fd \<mapsto> False)))"

text \<open>What a program sees after exec: the descriptors without the flag.\<close>

definition exec_table :: "fd_table \<Rightarrow> fd_table" where
  "exec_table tab fd = (if tab fd = Some False then Some False else None)"

definition hydrate_forked_fd :: "errno option \<Rightarrow> fd \<Rightarrow> fd_table \<Rightarrow> fd io_result \<times> fd_table" where
  "hydrate_forked_fd setfd fd tab =
     (case setfd of Some e \<Rightarrow> (Inl (Os e), tab) | None \<Rightarrow> (Inr fd, tab(fd \<mapsto> True)))"

fun digit :: "nat \<Rightarrow> char" where
  "digit n = char_of (48 + n)"

fun show_nat :: "nat \<Rightarrow> string" where
  "show_nat n = (if n < 10 then [digit n] else show_nat (n div 10) @ [digit (n mod 10)])"

declare show_nat.simps [simp del]

text \<open>Where the standard output and error of a child go; \<open>debug_assertions\<close> is the build configuration.\<close>

datatype Stdio = Stdio_inherit | Stdio_piped

definition default_stdio_type :: "bool \<Rightarrow> Stdio" where
  "default_stdio_type debug_assertions = (if debug_assertions then Stdio_inherit else Stdio_piped)"

record command =
  program :: string
  arguments :: "string list"
  stdout :: Stdio
  stderr :: Stdio

definition owner_command :: "bool \<Rightarrow> fd \<Rightarrow> Duration \<Rightarrow> command" where
  "owner_command debug_assertions child_fd ttl =
     \<lparr>program = ''/proc/self/exe'',
      arguments = [''owner'', show_nat child_fd, ''--ttl-secs'', show_nat (unat (as_secs ttl)),
        ''--ttl-nsecs'', show_nat (unat (subsec_nanos ttl))],
      stdout = default_stdio_type debug_assertions, stderr = default_stdio_type debug_assertions\<rparr>"

definition coordinator_command :: "bool \<Rightarrow> string \<Rightarrow> fd \<Rightarrow> command" where
  "coordinator_command debug_assertions path child_fd =
     \<lparr>program = path, arguments = [''coordinator'', show_nat child_fd],
      stdout = default_stdio_type debug_assertions, stderr = default_stdio_type debug_assertions\<rparr>"

section \<open>Starting a process\<close>

text \<open>
  The common body of \<^verbatim>\<open>spawn_owner_process\<close> and \<^verbatim>\<open>spawn_coordinator_process\<close>: a socket pair with
  the close-on-exec flag, the new process with one end, a single non-blocking wait, and the other
  end for the caller. The result is the descriptor, the caller's table and what was started: the
  command and the child's table.
\<close>

definition spawn_process ::
    "errno + fd \<times> fd \<Rightarrow> errno + unit \<Rightarrow> errno + unit \<Rightarrow> (fd \<Rightarrow> command) \<Rightarrow> fd_table \<Rightarrow>
     fd io_result \<times> fd_table \<times> (command \<times> fd_table) option" where
  "spawn_process pair spawned waited cmd tab =
     (case pair of
        Inl e \<Rightarrow> (Inl (Os e), tab, None)
      | Inr (parent_fd, child_fd) \<Rightarrow>
          let tab1 = tab(parent_fd \<mapsto> True, child_fd \<mapsto> True);
              closed = tab1(parent_fd := None, child_fd := None)
          in case clear_cloexec_in_pre_exec child_fd tab1 of
               Inl e \<Rightarrow> (Inl (Os e), closed, None)
             | Inr child_tab \<Rightarrow>
                 (case spawned of
                    Inl e \<Rightarrow> (Inl (Os e), closed, None)
                  | Inr _ \<Rightarrow>
                      let child = Some (cmd child_fd, exec_table child_tab)
                      in (case waited of
                            Inl e \<Rightarrow> (Inl (Os e), closed, child)
                          | Inr _ \<Rightarrow> (Inr parent_fd, tab1(child_fd := None), child))))"

definition spawn_owner_process ::
    "bool \<Rightarrow> errno + fd \<times> fd \<Rightarrow> errno + unit \<Rightarrow> errno + unit \<Rightarrow> Duration \<Rightarrow> fd_table \<Rightarrow>
     fd io_result \<times> fd_table \<times> (command \<times> fd_table) option" where
  "spawn_owner_process dbg pair spawned waited ttl = spawn_process pair spawned waited (\<lambda>fd. owner_command dbg fd ttl)"

definition spawn_coordinator_process ::
    "bool \<Rightarrow> errno + fd \<times> fd \<Rightarrow> errno + unit \<Rightarrow> errno + unit \<Rightarrow> string \<Rightarrow> fd_table \<Rightarrow>
     fd io_result \<times> fd_table \<times> (command \<times> fd_table) option" where
  "spawn_coordinator_process dbg pair spawned waited path =
     spawn_process pair spawned waited (coordinator_command dbg path)"

section \<open>The coordinator\<close>

text \<open>
  The loop of \<^verbatim>\<open>OwnerSpawner::run\<close>; \<open>spawn\<close> is \<open>spawn_owner_process\<close> on the kernel's state, which
  decides the outcomes of the calls and holds the coordinator's descriptor table. An error of the spawn ends the coordinator, and the reply object is dropped without a reply.
\<close>

record 's spawn_kernel =
  debug_build :: bool
  spawn_outcomes :: "'s \<Rightarrow> ((errno + fd \<times> fd) \<times> (errno + unit) \<times> (errno + unit)) \<times> 's"
  table_of :: "'s \<Rightarrow> fd_table"
  set_table :: "fd_table \<Rightarrow> 's \<Rightarrow> 's"

definition coordinator_spawn :: "'s spawn_kernel \<Rightarrow> Duration \<Rightarrow> 's \<Rightarrow> fd io_result \<times> 's" where
  "coordinator_spawn sk ttl s =
     (case spawn_outcomes sk s of
        ((pair, spawned, waited), s1) \<Rightarrow>
          (case spawn_owner_process (debug_build sk) pair spawned waited ttl (table_of sk s1) of
             (r, tab, _) \<Rightarrow> (r, set_table sk tab s1)))"

partial_function (option) spawner_loop ::
    "'s socket_calls \<Rightarrow> Duration codec \<Rightarrow> (errno + unit) codec \<Rightarrow> (Duration \<Rightarrow> 's \<Rightarrow> fd io_result \<times> 's) \<Rightarrow>
     fd \<Rightarrow> 's \<Rightarrow> (unit io_result \<times> 's) option" where
  "spawner_loop k cd rcd spawn comm s =
     (case receive_request k cd RequestSpawnOwner_deserialize comm s of
        (Inl e, s1) \<Rightarrow> Some (if kind e = BrokenPipe then Inr () else Inl e, s1)
      | (Inr (request, reply_oneshot), s1) \<Rightarrow>
          (case spawn (spawn_ttl request) s1 of
             (Inl e, s2) \<Rightarrow> Some (Inl e, close_fd k reply_oneshot s2)
           | (Inr parent_fd, s2) \<Rightarrow>
               spawner_loop k cd rcd spawn comm
                 (close_fd k reply_oneshot
                   (reply_with_fds k rcd (RawReply reply_oneshot) (Inr ()) [parent_fd] s2))))"

record OwnerSpawner =
  spawner_comm :: fd

definition OwnerSpawner_new :: "fd \<Rightarrow> OwnerSpawner" where
  "OwnerSpawner_new fd = \<lparr>spawner_comm = fd\<rparr>"

definition OwnerSpawner_run ::
    "'t sigmask_call \<Rightarrow> 's socket_calls \<Rightarrow> Duration codec \<Rightarrow> (errno + unit) codec \<Rightarrow>
     's spawn_kernel \<Rightarrow> OwnerSpawner \<Rightarrow> 't \<Rightarrow> 's \<Rightarrow> (unit io_result \<times> 't \<times> 's) option" where
  "OwnerSpawner_run pm k cd rcd sk self t s =
     (case block_all_signals pm t of
        (Inl e, t1) \<Rightarrow> Some (Inl e, t1, s)
      | (Inr restore, t1) \<Rightarrow>
          map_option (\<lambda>(r, s'). (r, SigSetGuard_drop pm restore t1, s'))
            (spawner_loop k cd rcd (coordinator_spawn sk) (spawner_comm self) s))"

section \<open>The entry point\<close>

datatype OperationMode =
    Coordinator fd
  | OwnerMode (mode_fd: fd) (ttl_secs: u64) (ttl_nsecs: u32)

text \<open>\<^verbatim>\<open>Duration::new\<close> carries whole seconds over and panics (\<open>None\<close>) when they overflow.\<close>

definition Duration_new :: "u64 \<Rightarrow> u32 \<Rightarrow> Duration option" where
  "Duration_new secs nanos =
     (if unat nanos < 1000000000 then Some \<lparr>as_secs = secs, subsec_nanos = nanos\<rparr>
      else if unat secs + unat nanos div 1000000000 < 2 ^ 64
      then Some \<lparr>as_secs = secs + of_nat (unat nanos div 1000000000),
                 subsec_nanos = of_nat (unat nanos mod 1000000000)\<rparr>
      else None)"

text \<open>What the process becomes: a coordinator or an owner on its adopted descriptor.\<close>

datatype role = RunCoordinator OwnerSpawner | RunOwner fd Duration

definition server_main ::
    "(string list \<Rightarrow> OperationMode option) \<Rightarrow> errno option \<Rightarrow> errno option \<Rightarrow> string list \<Rightarrow> fd_table \<Rightarrow>
     role io_result option \<times> fd_table" where
  "server_main parse sigaction setfd args tab =
     (case parse args of
        None \<Rightarrow> (None, tab)
      | Some mode \<Rightarrow>
          (case sigaction of
             Some e \<Rightarrow> (Some (Inl (Os e)), tab)
           | None \<Rightarrow>
               (case mode of
                  Coordinator fd \<Rightarrow>
                    (case hydrate_forked_fd setfd fd tab of
                       (Inl e, tab1) \<Rightarrow> (Some (Inl e), tab1)
                     | (Inr fd1, tab1) \<Rightarrow> (Some (Inr (RunCoordinator (OwnerSpawner_new fd1))), tab1))
                | OwnerMode fd secs nsecs \<Rightarrow>
                    (case hydrate_forked_fd setfd fd tab of
                       (Inl e, tab1) \<Rightarrow> (Some (Inl e), tab1)
                     | (Inr fd1, tab1) \<Rightarrow>
                         (map_option (\<lambda>d. Inr (RunOwner fd1 d)) (Duration_new secs nsecs), tab1)))))"

section \<open>Properties\<close>

text \<open>
  Property C29. Starting a process leaks no descriptor in either direction. The child sees what any
  child of this process would see and, in addition, its own end of the socket pair, but not the
  other end; the caller keeps its table with, on success, only its own end added, which its later
  children will not inherit, and unchanged on any error.
\<close>

theorem spawn_no_leak:
  assumes "spawn_process pair spawned waited cmd tab = (r, tab', child)"
    and "\<not> (\<exists>p c. pair = Inr (p, c) \<and> (tab p \<noteq> None \<or> tab c \<noteq> None \<or> p = c))"
  shows "(\<forall>ctab command. child = Some (command, ctab) \<longrightarrow>
           (\<exists>p c. pair = Inr (p, c) \<and> command = cmd c \<and> ctab = (exec_table tab)(c \<mapsto> False) \<and> ctab p = None)) \<and>
         (case r of
            Inl _ \<Rightarrow> tab' = tab
          | Inr fd \<Rightarrow> tab' = tab(fd \<mapsto> True) \<and> (\<exists>c. pair = Inr (fd, c) \<and> tab' c = None) \<and> child \<noteq> None)"
proof (cases pair)
  case (Inl e)
  then show ?thesis using assms(1) by (auto simp: spawn_process_def)
next
  case (Inr pc)
  obtain p c where pc: "pc = (p, c)" by (cases pc)
  then have fresh: "tab p = None" "tab c = None" "p \<noteq> c" using assms(2) Inr by auto
  let ?tab1 = "tab(p \<mapsto> True, c \<mapsto> True)"
  have child: "exec_table (?tab1(c \<mapsto> False)) = (exec_table tab)(c \<mapsto> False)"
    using fresh by (auto simp: exec_table_def fun_eq_iff)
  have restored: "?tab1(p := None, c := None) = tab" "?tab1(c := None) = tab(p \<mapsto> True)"
    using fresh by (auto simp: fun_eq_iff)
  have clear: "clear_cloexec_in_pre_exec c ?tab1 = Inr (?tab1(c \<mapsto> False))"
    by (simp add: clear_cloexec_in_pre_exec_def)
  show ?thesis
    using assms(1) Inr pc fresh child restored clear
    by (cases spawned; cases waited) (auto simp: spawn_process_def Let_def exec_table_def)
qed

theorem spawn_no_leak_witness:
  "\<exists>tab' ctab. spawn_owner_process True (Inr (7, 8)) (Inr ()) (Inr ()) (from_secs 5) [0 \<mapsto> False, 3 \<mapsto> True] =
     (Inr 7, tab', Some (owner_command True 8 (from_secs 5), ctab)) \<and>
     tab' = [0 \<mapsto> False, 3 \<mapsto> True, 7 \<mapsto> True] \<and> ctab 8 = Some False \<and> ctab 7 = None \<and> ctab 3 = None"
proof -
  let ?tab = "[0 \<mapsto> False, 3 \<mapsto> True]"
  obtain tab' ctab where s: "spawn_process (Inr (7, 8)) (Inr ()) (Inr ()) (\<lambda>fd. owner_command True fd (from_secs 5)) ?tab =
      (Inr 7, tab', Some (owner_command True 8 (from_secs 5), ctab))"
    by (simp add: spawn_process_def clear_cloexec_in_pre_exec_def Let_def)
  show ?thesis
    using spawn_no_leak [OF s] s by (auto simp: spawn_owner_process_def exec_table_def)
qed

lemma Duration_new_whole:
  "unat (subsec_nanos d) < 1000000000 \<Longrightarrow> Duration_new (as_secs d) (subsec_nanos d) = Some d"
  by (simp add: Duration_new_def)

text \<open>
  The time to live survives the way through the command line: the entry point, run with the arguments
  of the command that starts an owner process, becomes an owner with exactly that time to live.
\<close>

lemma owner_entry_point:
  assumes "\<And>fd secs nsecs. parse [''owner'', show_nat fd, ''--ttl-secs'', show_nat (unat secs),
      ''--ttl-nsecs'', show_nat (unat nsecs)] = Some (OwnerMode fd secs nsecs)"
    and "unat (subsec_nanos ttl) < 1000000000"
  shows "server_main parse None None (arguments (owner_command dbg c ttl)) tab = (Some (Inr (RunOwner c ttl)), tab(c \<mapsto> True))"
  using assms Duration_new_whole [of ttl] by (simp add: server_main_def owner_command_def hydrate_forked_fd_def)

text \<open>A reader for the declared form.\<close>

definition read_nat :: "string \<Rightarrow> nat" where
  "read_nat cs = foldl (\<lambda>a c. 10 * a + (of_char c - 48)) 0 cs"

lemma read_show_nat: "read_nat (show_nat n) = n"
proof (induction n rule: show_nat.induct)
  case (1 n)
  have d: "of_char (char_of (48 + m) :: char) = 48 + m" if "m < 10" for m :: nat
    using that by (simp add: of_char_of)
  show ?case
  proof (cases "n < 10")
    case True
    then show ?thesis using d [of n] by (simp add: show_nat.simps [of n] read_nat_def)
  next
    case False
    then have "read_nat (show_nat (n div 10)) = n div 10" using 1 by simp
    then show ?thesis
      using False d [of "n mod 10"] by (simp add: show_nat.simps [of n] read_nat_def)
  qed
qed

definition read_owner :: "string list \<Rightarrow> OperationMode option" where
  "read_owner args = (case args of
     [mode, fd, _, secs, _, nsecs] \<Rightarrow>
       if mode = ''owner'' then Some (OwnerMode (read_nat fd) (of_nat (read_nat secs)) (of_nat (read_nat nsecs))) else None
   | _ \<Rightarrow> None)"

lemma read_owner_form:
  "read_owner [''owner'', show_nat fd, ''--ttl-secs'', show_nat (unat (secs :: u64)),
     ''--ttl-nsecs'', show_nat (unat (nsecs :: u32))] = Some (OwnerMode fd secs nsecs)"
  by (simp add: read_owner_def read_show_nat)

section \<open>The loop of the coordinator\<close>

text \<open>The effect of serving a given sequence of requests.\<close>

fun serve_spawns ::
    "'s socket_calls \<Rightarrow> Duration codec \<Rightarrow> (errno + unit) codec \<Rightarrow> (Duration \<Rightarrow> 's \<Rightarrow> fd io_result \<times> 's) \<Rightarrow>
     fd \<Rightarrow> (Duration \<times> fd) list \<Rightarrow> 's \<Rightarrow> 's option" where
  "serve_spawns k cd rcd spawn comm [] s = Some s"
| "serve_spawns k cd rcd spawn comm ((ttl, oneshot) # reqs) s =
     (case receive_request k cd RequestSpawnOwner_deserialize comm s of
        (r, s1) \<Rightarrow>
          if r = Inr (RequestSpawnOwner ttl, oneshot)
          then (case spawn ttl s1 of
                  (Inl e, s2) \<Rightarrow> None
                | (Inr parent_fd, s2) \<Rightarrow> serve_spawns k cd rcd spawn comm reqs
                    (close_fd k oneshot (reply_with_fds k rcd (RawReply oneshot) (Inr ()) [parent_fd] s2)))
          else None)"

definition spawner_ends ::
    "'s socket_calls \<Rightarrow> Duration codec \<Rightarrow> (Duration \<Rightarrow> 's \<Rightarrow> fd io_result \<times> 's) \<Rightarrow> fd \<Rightarrow> 's \<Rightarrow>
     unit io_result \<Rightarrow> 's \<Rightarrow> bool" where
  "spawner_ends k cd spawn comm s r s' \<longleftrightarrow>
     (case receive_request k cd RequestSpawnOwner_deserialize comm s of
        (Inl e, s1) \<Rightarrow> s' = s1 \<and> r = (if kind e = BrokenPipe then Inr () else Inl e)
      | (Inr (request, oneshot), s1) \<Rightarrow>
          \<exists>e s2. spawn (spawn_ttl request) s1 = (Inl e, s2) \<and> r = Inl e \<and> s' = close_fd k oneshot s2)"

lemma spawner_loop_serve:
  "serve_spawns k cd rcd spawn comm reqs s = Some s1 \<Longrightarrow>
   spawner_loop k cd rcd spawn comm s = spawner_loop k cd rcd spawn comm s1"
proof (induction reqs arbitrary: s)
  case (Cons req reqs)
  obtain ttl oneshot where req: "req = (ttl, oneshot)" by (cases req)
  show ?case
    using Cons.prems Cons.IH spawner_loop.simps [of k cd rcd spawn comm s] unfolding req
    by (auto split: prod.splits if_splits sum.splits)
qed simp

lemma spawner_loop_ends: "spawner_ends k cd spawn comm s r s' \<Longrightarrow> spawner_loop k cd rcd spawn comm s = Some (r, s')"
  using spawner_loop.simps [of k cd rcd spawn comm s]
  by (auto simp: spawner_ends_def split: prod.splits sum.splits)

lemma spawner_loop_returned:
  fixes k :: "'s socket_calls"
  assumes "spawner_loop k cd rcd spawn comm s = Some res"
  shows "\<exists>reqs s1. serve_spawns k cd rcd spawn comm reqs s = Some s1 \<and> spawner_ends k cd spawn comm s1 (fst res) (snd res)"
proof (rule spawner_loop.raw_induct [where P = "\<lambda>k cd rcd spawn comm s res.
    \<exists>reqs s1. serve_spawns k cd rcd spawn comm reqs s = Some s1 \<and> spawner_ends k cd spawn comm s1 (fst res) (snd res)", OF _ assms])
  fix loop and k :: "'s socket_calls" and cd rcd and spawn :: "Duration \<Rightarrow> 's \<Rightarrow> fd io_result \<times> 's" and comm s res
  assume IH: "\<And>k cd rcd spawn comm s res. loop k cd rcd spawn comm s = Some res \<Longrightarrow>
      \<exists>reqs s1. serve_spawns k cd rcd spawn comm reqs s = Some s1 \<and> spawner_ends k cd spawn comm s1 (fst res) (snd res)"
    and now: "(case receive_request k cd RequestSpawnOwner_deserialize comm s of
        (Inl e, s1) \<Rightarrow> Some (if kind e = BrokenPipe then Inr () else Inl e, s1)
      | (Inr (request, reply_oneshot), s1) \<Rightarrow>
          (case spawn (spawn_ttl request) s1 of
             (Inl e, s2) \<Rightarrow> Some (Inl e, close_fd k reply_oneshot s2)
           | (Inr parent_fd, s2) \<Rightarrow> loop k cd rcd spawn comm
               (close_fd k reply_oneshot (reply_with_fds k rcd (RawReply reply_oneshot) (Inr ()) [parent_fd] s2)))) = Some res"
  show "\<exists>reqs s1. serve_spawns k cd rcd spawn comm reqs s = Some s1 \<and> spawner_ends k cd spawn comm s1 (fst res) (snd res)"
  proof (cases "spawner_ends k cd spawn comm s (fst res) (snd res)")
    case True
    then have "serve_spawns k cd rcd spawn comm [] s = Some s \<and> spawner_ends k cd spawn comm s (fst res) (snd res)" by simp
    then show ?thesis by blast
  next
    case False
    obtain r s1 where rs: "receive_request k cd RequestSpawnOwner_deserialize comm s = (r, s1)" by (metis surj_pair)
    then obtain req oneshot where r: "r = Inr (req, oneshot)"
      using False now by (cases r) (auto simp: spawner_ends_def)
    obtain q s2 where q: "spawn (spawn_ttl req) s1 = (q, s2)" by (metis surj_pair)
    then obtain p where p: "q = Inr p"
      using False now rs r by (cases q) (auto simp: spawner_ends_def)
    obtain ttl where req: "req = RequestSpawnOwner ttl" by (cases req)
    have recv: "receive_request k cd RequestSpawnOwner_deserialize comm s = (Inr (RequestSpawnOwner ttl, oneshot), s1)"
      and sp: "spawn ttl s1 = (Inr p, s2)" using rs r q p req by simp_all
    let ?s = "close_fd k oneshot (reply_with_fds k rcd (RawReply oneshot) (Inr ()) [p] s2)"
    have "loop k cd rcd spawn comm ?s = Some res" using now recv sp by simp
    from IH [OF this] obtain reqs s3 where "serve_spawns k cd rcd spawn comm reqs ?s = Some s3"
      "spawner_ends k cd spawn comm s3 (fst res) (snd res)" by blast
    then have "serve_spawns k cd rcd spawn comm ((ttl, oneshot) # reqs) s = Some s3 \<and>
        spawner_ends k cd spawn comm s3 (fst res) (snd res)" using recv sp by simp
    then show ?thesis by blast
  qed
qed

text \<open>
  Property C30. The coordinator returns exactly when, after serving finitely many requests, each
  with a new owner's descriptor, either a receive fails, which is a success only for a closed
  connection, or an owner process cannot be started. In the last case the coordinator ends with
  the error, without a reply to that request and without serving any other.
\<close>

theorem spawner_loop_iff:
  "spawner_loop k cd rcd spawn comm s = Some (r, s') \<longleftrightarrow>
     (\<exists>reqs s1. serve_spawns k cd rcd spawn comm reqs s = Some s1 \<and>
        (case receive_request k cd RequestSpawnOwner_deserialize comm s1 of
           (Inl e, s2) \<Rightarrow> s' = s2 \<and> r = (if kind e = BrokenPipe then Inr () else Inl e)
         | (Inr (request, oneshot), s2) \<Rightarrow>
             \<exists>e s3. spawn (spawn_ttl request) s2 = (Inl e, s3) \<and> r = Inl e \<and> s' = close_fd k oneshot s3))"
proof -
  have "(\<exists>reqs s1. serve_spawns k cd rcd spawn comm reqs s = Some s1 \<and> spawner_ends k cd spawn comm s1 r s') \<longleftrightarrow>
      spawner_loop k cd rcd spawn comm s = Some (r, s')"
    using spawner_loop_serve spawner_loop_ends spawner_loop_returned [of k cd rcd spawn comm s "(r, s')"] by fastforce
  then show ?thesis by (simp add: spawner_ends_def)
qed

end
