(* ===== verification/Manager.thy ===== *)
theory Manager
  imports Client Spawner
begin

text \<open>
  The lock manager (\<^verbatim>\<open>src/lib.rs\<close>): the table of owner processes, their creation through the
  coordinator, registration with the restart of dead owners, and the clean-up thread.

  The first sections translate the operations as a caller runs them alone, on the client
  operations of \<open>Client\<close>; the loops may run forever and are partial functions. The last section
  interleaves several callers of \<^verbatim>\<open>get_or_create_owner\<close> at the points where they touch the table.
\<close>

section \<open>Data\<close>

record LockManager =
  manager_comm :: fd
  owners :: "u64 \<rightharpoonup> Owner"
  manager_ttl :: Duration

text \<open>The sockets of the client with the codec of the coordinator's requests.\<close>

record 's manager_env = "'s client_env" +
  spawn_cd :: "Duration codec"

definition Owner_new :: "fd \<Rightarrow> Owner" where
  "Owner_new fd = \<lparr>owner_inner = \<lparr>communication = fd\<rparr>\<rparr>"

definition LockManager_new :: "fd \<Rightarrow> LockManager" where
  "LockManager_new coordinator_fd =
     \<lparr>manager_comm = coordinator_fd, owners = Map.empty, manager_ttl = from_secs 5\<rparr>"

text \<open>
  \<open>thread\<close> is the outcome of starting the clean-up thread; when it cannot be started the
  coordinator's descriptor is dropped.
\<close>

definition LockManager_build :: "errno option \<Rightarrow> fd \<Rightarrow> fd_table \<Rightarrow> LockManager io_result \<times> fd_table" where
  "LockManager_build thread coordinator_fd tab =
     (case thread of
        Some e \<Rightarrow> (Inl (Os e), tab(coordinator_fd := None))
      | None \<Rightarrow> (Inr (LockManager_new coordinator_fd), tab))"

definition LockManager_from_exe ::
    "bool \<Rightarrow> errno + fd \<times> fd \<Rightarrow> errno + unit \<Rightarrow> errno + unit \<Rightarrow> errno option \<Rightarrow> string \<Rightarrow> fd_table \<Rightarrow>
     LockManager io_result \<times> fd_table \<times> (command \<times> fd_table) option" where
  "LockManager_from_exe dbg pair spawned waited thread path tab =
     (case spawn_coordinator_process dbg pair spawned waited path tab of
        (Inl e, tab1, child) \<Rightarrow> (Inl e, tab1, child)
      | (Inr coordinator_fd, tab1, child) \<Rightarrow>
          (case LockManager_build thread coordinator_fd tab1 of (r, tab2) \<Rightarrow> (r, tab2, child)))"

section \<open>Owners\<close>

text \<open>Asking the coordinator for an owner process; the reply carries exactly one descriptor.\<close>

definition received_owner ::
    "'s manager_env \<Rightarrow> (unit \<times> fd list) fetched \<Rightarrow> 's \<Rightarrow> Owner io_result \<times> 's" where
  "received_owner env res s1 =
     (case flatten res of
        Inl e \<Rightarrow> (Inl e, s1)
      | Inr (_, owner_fds) \<Rightarrow>
          if length owner_fds \<noteq> 1 then (Inl (Custom Other), drop_fds (net env) owner_fds s1)
          else (Inr (Owner_new (hd owner_fds)), s1))"

definition request_owner ::
    "'s manager_env \<Rightarrow> fd \<Rightarrow> Duration \<Rightarrow> 's \<Rightarrow> Owner io_result \<times> 's" where
  "request_owner env comm ttl s =
     (case send_request_with_fds (net env) (spawn_cd env) (unit_cd env) RequestSpawnOwner_serialize comm
        (RequestSpawnOwner ttl) s of
        (res, s1) \<Rightarrow> received_owner env res s1)"

text \<open>
  The entry of the table, created under the lock of the entry when it is missing. The flag says
  whether an owner has been created by this call.
\<close>

definition find_or_spawn ::
    "'s manager_env \<Rightarrow> LockManager \<Rightarrow> u64 \<Rightarrow> Duration \<Rightarrow> bool \<Rightarrow> 's \<Rightarrow>
     (Owner \<times> bool) io_result \<times> LockManager \<times> 's" where
  "find_or_spawn env mgr owner_id ttl new_owner s =
     (case owners mgr owner_id of
        Some owner \<Rightarrow> (Inr (owner, new_owner), mgr, s)
      | None \<Rightarrow>
          (case request_owner env (manager_comm mgr) ttl s of
             (Inl e, s1) \<Rightarrow> (Inl e, mgr, s1)
           | (Inr owner, s1) \<Rightarrow>
               (Inr (owner, True), mgr\<lparr>owners := (owners mgr)(owner_id \<mapsto> owner)\<rparr>, s1)))"

text \<open>An owner that was just created with a zero time to live is not pinged.\<close>

definition owner_is_dead ::
    "'t sigmask_call \<Rightarrow> 's manager_env \<Rightarrow> Duration \<Rightarrow> Owner \<Rightarrow> bool \<Rightarrow> 't \<Rightarrow> 's \<Rightarrow> bool \<times> 't \<times> 's" where
  "owner_is_dead pm env ttl owner new_owner t s =
     (if ttl = from_secs 0 \<and> new_owner then (False, t, s)
      else case Owner_ping pm (client_env.truncate env) owner t s of (r, t1, s1) \<Rightarrow> (is_err r, t1, s1))"

text \<open>A round of the loop: \<open>Inr\<close> is a final result, \<open>Inl\<close> the state in which the loop goes on.\<close>

definition owner_round ::
    "'t sigmask_call \<Rightarrow> 's manager_env \<Rightarrow> u64 \<Rightarrow> Duration \<Rightarrow> bool \<Rightarrow> LockManager \<Rightarrow> 't \<Rightarrow> 's \<Rightarrow>
     (bool \<times> LockManager \<times> 't \<times> 's) + (Owner io_result \<times> LockManager \<times> 't \<times> 's)" where
  "owner_round pm env owner_id ttl new_owner mgr t s =
     (case find_or_spawn env mgr owner_id ttl new_owner s of
        (Inl e, mgr1, s1) \<Rightarrow> Inr (Inl e, mgr1, t, s1)
      | (Inr (owner, new_owner1), mgr1, s1) \<Rightarrow>
          (case owner_is_dead pm env ttl owner new_owner1 t s1 of
             (dead, t2, s2) \<Rightarrow>
               if dead then Inl (new_owner1, mgr1\<lparr>owners := (owners mgr1)(owner_id := None)\<rparr>, t2, s2)
               else Inr (Inr owner, mgr1, t2, s2)))"

partial_function (option) owner_loop ::
    "'t sigmask_call \<Rightarrow> 's manager_env \<Rightarrow> u64 \<Rightarrow> Duration \<Rightarrow> bool \<Rightarrow> LockManager \<Rightarrow> 't \<Rightarrow> 's \<Rightarrow>
     (Owner io_result \<times> LockManager \<times> 't \<times> 's) option" where
  "owner_loop pm env owner_id ttl new_owner mgr t s =
     (case owner_round pm env owner_id ttl new_owner mgr t s of
        Inr res \<Rightarrow> Some res
      | Inl (new_owner1, mgr1, t1, s1) \<Rightarrow> owner_loop pm env owner_id ttl new_owner1 mgr1 t1 s1)"

definition get_or_create_owner ::
    "'t sigmask_call \<Rightarrow> 's manager_env \<Rightarrow> LockManager \<Rightarrow> u64 \<Rightarrow> Duration option \<Rightarrow> 't \<Rightarrow> 's \<Rightarrow>
     (Owner io_result \<times> LockManager \<times> 't \<times> 's) option" where
  "get_or_create_owner pm env mgr owner_id ttl t s =
     (case block_all_signals pm t of
        (Inl e, t1) \<Rightarrow> Some (Inl e, mgr, t1, s)
      | (Inr restore, t1) \<Rightarrow>
          map_option (\<lambda>(r, mgr2, t2, s2). (r, mgr2, SigSetGuard_drop pm restore t2, s2))
            (owner_loop pm env owner_id (case ttl of None \<Rightarrow> manager_ttl mgr | Some d \<Rightarrow> d) False mgr t1 s))"

section \<open>Registration\<close>

text \<open>
  One attempt: \<open>Inr\<close> is a final result, \<open>Inl\<close> the state in which the loop goes on. It goes on
  only after a broken pipe from an owner that does not answer a ping.
\<close>

definition register_attempt ::
    "'t sigmask_call \<Rightarrow> 's manager_env \<Rightarrow> Owner \<Rightarrow> fd \<Rightarrow> LockManager \<Rightarrow> 't \<Rightarrow> 's \<Rightarrow>
     (LockManager \<times> 't \<times> 's) + (Lockable io_result \<times> LockManager \<times> 't \<times> 's)" where
  "register_attempt pm env owner fd mgr t s =
     (case Owner_register pm (client_env.truncate env) owner fd t s of
        (Inr lockable, t1, s1) \<Rightarrow> Inr (Inr lockable, mgr, t1, s1)
      | (Inl e, t1, s1) \<Rightarrow>
          if kind e = BrokenPipe
          then (case Owner_ping pm (client_env.truncate env) owner t1 s1 of
                  (Inl _, t2, s2) \<Rightarrow> Inl (mgr, t2, s2)
                | (Inr _, t2, s2) \<Rightarrow> Inr (Inl e, mgr, t2, s2))
          else Inr (Inl e, mgr, t1, s1))"

partial_function (option) register_loop ::
    "'t sigmask_call \<Rightarrow> 's manager_env \<Rightarrow> u64 \<Rightarrow> fd \<Rightarrow> LockManager \<Rightarrow> 't \<Rightarrow> 's \<Rightarrow>
     (Lockable io_result \<times> LockManager \<times> 't \<times> 's) option" where
  "register_loop pm env owner_id fd mgr t s =
     (case get_or_create_owner pm env mgr owner_id None t s of
        None \<Rightarrow> None
      | Some (Inl e, mgr1, t1, s1) \<Rightarrow> Some (Inl e, mgr1, t1, s1)
      | Some (Inr owner, mgr1, t1, s1) \<Rightarrow>
          (case register_attempt pm env owner fd mgr1 t1 s1 of
             Inr res \<Rightarrow> Some res
           | Inl (mgr2, t2, s2) \<Rightarrow> register_loop pm env owner_id fd mgr2 t2 s2))"

definition LockManager_register ::
    "'t sigmask_call \<Rightarrow> 's manager_env \<Rightarrow> LockManager \<Rightarrow> u64 \<Rightarrow> fd \<Rightarrow> 't \<Rightarrow> 's \<Rightarrow>
     (Lockable io_result \<times> LockManager \<times> 't \<times> 's) option" where
  "LockManager_register pm env mgr owner_id fd t s =
     (case block_all_signals pm t of
        (Inl e, t1) \<Rightarrow> Some (Inl e, mgr, t1, s)
      | (Inr restore, t1) \<Rightarrow>
          map_option (\<lambda>(r, mgr2, t2, s2). (r, mgr2, SigSetGuard_drop pm restore t2, s2))
            (register_loop pm env owner_id fd mgr t1 s))"

section \<open>Clean-up\<close>

text \<open>
  A round of the clean-up thread pings every owner, in the order \<open>ids\<close> in which the table is
  traversed, and keeps those that answer.
\<close>

fun cleanup_round ::
    "'t sigmask_call \<Rightarrow> 's manager_env \<Rightarrow> u64 list \<Rightarrow> (u64 \<rightharpoonup> Owner) \<Rightarrow> 't \<Rightarrow> 's \<Rightarrow>
     (u64 \<rightharpoonup> Owner) \<times> 't \<times> 's" where
  "cleanup_round pm env [] m t s = (m, t, s)"
| "cleanup_round pm env (i # ids) m t s =
     (case m i of
        None \<Rightarrow> cleanup_round pm env ids m t s
      | Some owner \<Rightarrow>
          (case Owner_ping pm (client_env.truncate env) owner t s of
             (r, t1, s1) \<Rightarrow> cleanup_round pm env ids (if is_ok r then m else m(i := None)) t1 s1))"

datatype cleanup_event = CleanupTimeout | CleanupMessage | CleanupDisconnected

text \<open>The thread, on a sequence of outcomes of its timed receive; the flag says that it ended.\<close>

fun cleanup_thread ::
    "'t sigmask_call \<Rightarrow> 's manager_env \<Rightarrow> (cleanup_event \<times> u64 list) list \<Rightarrow> (u64 \<rightharpoonup> Owner) \<Rightarrow> 't \<Rightarrow> 's \<Rightarrow>
     bool \<times> (u64 \<rightharpoonup> Owner) \<times> 't \<times> 's" where
  "cleanup_thread pm env [] m t s = (False, m, t, s)"
| "cleanup_thread pm env ((ev, ids) # evs) m t s =
     (if ev = CleanupTimeout
      then (case cleanup_round pm env ids m t s of (m1, t1, s1) \<Rightarrow> cleanup_thread pm env evs m1 t1 s1)
      else (True, m, t, s))"

text \<open>Dropping the manager closes the channel and joins the thread, which then ends.\<close>

definition LockManager_drop ::
    "'t sigmask_call \<Rightarrow> 's manager_env \<Rightarrow> (cleanup_event \<times> u64 list) list \<Rightarrow> (u64 \<rightharpoonup> Owner) \<Rightarrow> 't \<Rightarrow> 's \<Rightarrow>
     bool \<times> (u64 \<rightharpoonup> Owner) \<times> 't \<times> 's" where
  "LockManager_drop pm env evs m t s = cleanup_thread pm env (evs @ [(CleanupDisconnected, [])]) m t s"

section \<open>Concurrent callers\<close>

text \<open>
  A call of \<^verbatim>\<open>get_or_create_owner\<close> touches the table twice: under the lock of the entry when it
  looks the owner up or creates it, and when it removes the entry of an owner that did not answer.
\<close>

datatype caller_stage = CLookup bool | CPing Owner bool | CRemove bool | CDone "Owner io_result"

fun caller_step ::
    "'t sigmask_call \<Rightarrow> 's manager_env \<Rightarrow> u64 \<Rightarrow> Duration \<Rightarrow> caller_stage \<times> LockManager \<times> 't \<times> 's \<Rightarrow>
     caller_stage \<times> LockManager \<times> 't \<times> 's" where
  "caller_step pm env owner_id ttl (CLookup new_owner, mgr, t, s) =
     (case find_or_spawn env mgr owner_id ttl new_owner s of
        (Inl e, mgr1, s1) \<Rightarrow> (CDone (Inl e), mgr1, t, s1)
      | (Inr (owner, new_owner1), mgr1, s1) \<Rightarrow> (CPing owner new_owner1, mgr1, t, s1))"
| "caller_step pm env owner_id ttl (CPing owner new_owner, mgr, t, s) =
     (case owner_is_dead pm env ttl owner new_owner t s of
        (dead, t1, s1) \<Rightarrow> (if dead then CRemove new_owner else CDone (Inr owner), mgr, t1, s1))"
| "caller_step pm env owner_id ttl (CRemove new_owner, mgr, t, s) =
     (CLookup new_owner, mgr\<lparr>owners := (owners mgr)(owner_id := None)\<rparr>, t, s)"
| "caller_step pm env owner_id ttl (CDone r, mgr, t, s) = (CDone r, mgr, t, s)"

text \<open>A caller that is not disturbed makes the rounds of the loop.\<close>

lemma caller_steps_round:
  "(caller_step pm env owner_id ttl ^^ 3) (CLookup new_owner, mgr, t, s) =
     (case owner_round pm env owner_id ttl new_owner mgr t s of
        Inr (r, mgr1, t1, s1) \<Rightarrow> (CDone r, mgr1, t1, s1)
      | Inl (new_owner1, mgr1, t1, s1) \<Rightarrow> (CLookup new_owner1, mgr1, t1, s1))"
  by (auto simp: numeral_3_eq_3 owner_round_def split: prod.splits sum.splits)

text \<open>
  Several callers on the same manager and owner identifier: \<open>schedule\<close> says who makes the next
  step. Every caller has its own stage and signal mask.
\<close>

fun run_callers ::
    "'t sigmask_call \<Rightarrow> 's manager_env \<Rightarrow> u64 \<Rightarrow> Duration \<Rightarrow> nat list \<Rightarrow>
     (nat \<Rightarrow> caller_stage \<times> 't) \<times> LockManager \<times> 's \<Rightarrow> (nat \<Rightarrow> caller_stage \<times> 't) \<times> LockManager \<times> 's" where
  "run_callers pm env owner_id ttl [] x = x"
| "run_callers pm env owner_id ttl (c # schedule) (callers, mgr, s) =
     (case callers c of (stage, t) \<Rightarrow>
        case caller_step pm env owner_id ttl (stage, mgr, t, s) of
          (stage1, mgr1, t1, s1) \<Rightarrow> run_callers pm env owner_id ttl schedule (callers(c := (stage1, t1)), mgr1, s1))"

declare owner_loop.simps [code] register_loop.simps [code]

section \<open>Properties of the sequential operations\<close>

lemma find_or_spawn_keeps:
  assumes "find_or_spawn env mgr owner_id ttl n s = (r, mgr', s')"
  shows "j \<noteq> owner_id \<Longrightarrow> owners mgr' j = owners mgr j" "manager_comm mgr' = manager_comm mgr"
    "manager_ttl mgr' = manager_ttl mgr" "r = Inr (owner, n') \<Longrightarrow> owners mgr' owner_id = Some owner"
  using assms by (auto simp: find_or_spawn_def split: option.splits prod.splits sum.splits)

definition answered_ping :: "'t sigmask_call \<Rightarrow> 's manager_env \<Rightarrow> Owner \<Rightarrow> bool" where
  "answered_ping pm env owner \<longleftrightarrow> (\<exists>t s. is_ok (fst (Owner_ping pm (client_env.truncate env) owner t s)))"

lemma answered_pingI:
  "Owner_ping pm (client_env.truncate env) owner t s = (a, t2, s2) \<Longrightarrow> is_ok a \<Longrightarrow> answered_ping pm env owner"
  unfolding answered_ping_def by (metis fst_conv)

lemma owner_round_keeps:
  assumes "owner_round pm env owner_id ttl n mgr t s = r"
  shows "case r of
      Inl (n', mgr', _) \<Rightarrow> mgr' = mgr\<lparr>owners := owners mgr'\<rparr> \<and> (\<forall>j. j \<noteq> owner_id \<longrightarrow> owners mgr' j = owners mgr j)
    | Inr (res, mgr', _) \<Rightarrow> mgr' = mgr\<lparr>owners := owners mgr'\<rparr> \<and> (\<forall>j. j \<noteq> owner_id \<longrightarrow> owners mgr' j = owners mgr j) \<and>
        (\<forall>owner. res = Inr owner \<longrightarrow> owners mgr' owner_id = Some owner \<and>
           (answered_ping pm env owner \<or> ttl = from_secs 0))"
proof -
  obtain f mgr1 s1 where f: "find_or_spawn env mgr owner_id ttl n s = (f, mgr1, s1)" by (metis surj_pair)
  have m: "mgr1 = mgr\<lparr>owners := owners mgr1\<rparr>" "\<forall>j. j \<noteq> owner_id \<longrightarrow> owners mgr1 j = owners mgr j"
    using find_or_spawn_keeps [OF f] by simp_all
  show ?thesis
  proof (cases f)
    case (Inl e)
    then show ?thesis using assms f m by (auto simp: owner_round_def)
  next
    case (Inr on)
    obtain owner n1 where on: "on = (owner, n1)" by (cases on)
    obtain dead t2 s2 where d: "owner_is_dead pm env ttl owner n1 t s1 = (dead, t2, s2)" by (metis surj_pair)
    have "answered_ping pm env owner \<or> ttl = from_secs 0" if "\<not> dead"
      using d that
      by (cases "Owner_ping pm (client_env.truncate env) owner t s1")
        (auto simp: owner_is_dead_def is_err_def split: if_splits intro: answered_pingI)
    moreover have "mgr1\<lparr>owners := (owners mgr1)(owner_id := None)\<rparr> = mgr\<lparr>owners := (owners mgr1)(owner_id := None)\<rparr>"
      by (subst m(1)) simp
    ultimately show ?thesis
      using assms f m d Inr on find_or_spawn_keeps(4) [OF f, of owner n1] by (auto simp: owner_round_def)
  qed
qed

text \<open>What a call leaves in the manager, and what it returns.\<close>

definition owner_result ::
    "'t sigmask_call \<Rightarrow> 's manager_env \<Rightarrow> u64 \<Rightarrow> Duration \<Rightarrow> LockManager \<Rightarrow>
     Owner io_result \<times> LockManager \<times> 't \<times> 's \<Rightarrow> bool" where
  "owner_result pm env owner_id ttl mgr res \<longleftrightarrow>
     (case res of (r, mgr', _) \<Rightarrow>
        mgr' = mgr\<lparr>owners := owners mgr'\<rparr> \<and> (\<forall>j. j \<noteq> owner_id \<longrightarrow> owners mgr' j = owners mgr j) \<and>
        (\<forall>owner. r = Inr owner \<longrightarrow> owners mgr' owner_id = Some owner \<and>
           (answered_ping pm env owner \<or> ttl = from_secs 0)))"

lemma owner_result_later:
  assumes "owner_result pm env owner_id ttl mgr1 res" "mgr1 = mgr\<lparr>owners := owners mgr1\<rparr>"
    and "\<forall>j. j \<noteq> owner_id \<longrightarrow> owners mgr1 j = owners mgr j"
  shows "owner_result pm env owner_id ttl mgr res"
proof -
  obtain r mgr2 u where res: "res = (r, mgr2, u)" by (metis surj_pair)
  have "mgr2 = mgr1\<lparr>owners := owners mgr2\<rparr>" using assms(1) by (simp add: owner_result_def res)
  also have "\<dots> = mgr\<lparr>owners := owners mgr2\<rparr>" by (subst assms(2)) simp
  finally show ?thesis using assms(1,3) by (simp add: owner_result_def res)
qed

lemma owner_loop_result:
  fixes pm :: "'t sigmask_call" and env :: "'s manager_env"
  assumes "owner_loop pm env owner_id ttl n mgr t s = Some res"
  shows "owner_result pm env owner_id ttl mgr res"
proof (rule owner_loop.raw_induct [where P = "\<lambda>pm env owner_id ttl n mgr t s res.
    owner_result pm env owner_id ttl mgr res", OF _ assms])
  fix loop :: "'t sigmask_call \<Rightarrow> 's manager_env \<Rightarrow> u64 \<Rightarrow> Duration \<Rightarrow> bool \<Rightarrow> LockManager \<Rightarrow> 't \<Rightarrow> 's \<Rightarrow>
      (Owner io_result \<times> LockManager \<times> 't \<times> 's) option"
    and pm :: "'t sigmask_call" and env :: "'s manager_env" and owner_id ttl n mgr t s res
  assume IH: "\<And>pm env owner_id ttl n mgr t s res. loop pm env owner_id ttl n mgr t s = Some res \<Longrightarrow>
      owner_result pm env owner_id ttl mgr res"
    and now: "(case owner_round pm env owner_id ttl n mgr t s of Inr res \<Rightarrow> Some res
      | Inl (n1, mgr1, t1, s1) \<Rightarrow> loop pm env owner_id ttl n1 mgr1 t1 s1) = Some res"
  note round = owner_round_keeps [OF refl, where pm = pm and env = env and owner_id = owner_id and ttl = ttl
      and n = n and mgr = mgr and t = t and s = s]
  show "owner_result pm env owner_id ttl mgr res"
  proof (cases "owner_round pm env owner_id ttl n mgr t s")
    case (Inr res')
    then show ?thesis using now round by (auto simp: owner_result_def split: prod.splits)
  next
    case (Inl cont)
    obtain n1 mgr1 t1 s1 where cont: "cont = (n1, mgr1, t1, s1)" by (metis surj_pair)
    then have "owner_result pm env owner_id ttl mgr1 res" using now Inl IH by simp
    then show ?thesis using round Inl cont by (auto intro: owner_result_later)
  qed
qed


section \<open>A concrete kernel\<close>

text \<open>
  Socket 99 leads to a coordinator that answers every request with a new descriptor; the owner
  processes behind the descriptors \<open>from\<close> and above answer every request with a success, the
  others have exited. The state is the socket of the last request and the next descriptor.
\<close>

type_synonym toy = "fd \<times> fd"

definition toy_reply :: "fd list \<Rightarrow> u8 list" where
  "toy_reply fds = frame_bytes (to_le_bytes 4 (0 :: u32)) fds"

definition toy_recv :: "fd \<Rightarrow> nat \<Rightarrow> bool \<Rightarrow> toy \<Rightarrow> (errno + u8 list \<times> Ancillary list) \<times> toy" where
  "toy_recv from n peek s =
     (if fst s = 99
      then if peek then (Inr (take n (toy_reply [snd s]), []), s)
           else (Inr (toy_reply [snd s], [ScmRights [snd s]]), (fst s, Suc (snd s)))
      else if from \<le> fst s then (Inr (take n (toy_reply []), []), s)
      else (Inr ([], []), s))"

definition duration_codec :: "Duration codec" where
  "duration_codec =
     \<lparr>enc = (\<lambda>d. Some (to_le_bytes 8 (as_secs d) @ to_le_bytes 4 (subsec_nanos d))),
      dec = (\<lambda>bs. Option.bind (get_word 8 bs) (\<lambda>(x, b). map_option (\<lambda>(y, _).
        \<lparr>as_secs = x, subsec_nanos = y\<rparr>) (get_word 4 b)))\<rparr>"

interpretation duration: codec_api duration_codec "\<lambda>_. True"
  by unfold_locales (simp add: duration_codec_def)

definition toy_env :: "fd \<Rightarrow> toy manager_env" where
  "toy_env from =
     \<lparr>net = \<lparr>recvmsg = (\<lambda>_ n _ peek s. toy_recv from n peek s),
        sendmsg = (\<lambda>a bs _ s. (Inr (length bs), (a, snd s))), socketpair = (\<lambda>s. (Inr (10, 11), s)),
        close_fd = (\<lambda>_ s. s)\<rparr>,
      dup_fd = (\<lambda>fd s. (Inr fd, s)), req_cd = raw_codec, unit_cd = unit_codec, id_cd = u64_codec,
      lock_cd = lock_codec, spawn_cd = duration_codec\<rparr>"

text \<open>A manager whose owner 7 has exited.\<close>

definition toy_manager :: LockManager where
  "toy_manager = (LockManager_new 99)\<lparr>owners := [7 \<mapsto> Owner_new 40]\<rparr>"


text \<open>
  A dead owner is replaced: when the registered owner does not answer, its entry is
  removed, a new owner process is requested with the same time to live, and the new owner is
  entered and returned once it answers.
\<close>

lemma dead_owner_replaced:
  assumes "block_all_signals pm t = (Inr g, t1)" "owners mgr owner_id = Some dead_owner"
    and "Owner_ping pm (client_env.truncate env) dead_owner t1 s = (Inl e, t2, s2)"
    and "request_owner env (manager_comm mgr) (manager_ttl mgr) s2 = (Inr new, s3)"
    and "Owner_ping pm (client_env.truncate env) new t2 s3 = (Inr (), t4, s4)"
    and "manager_ttl mgr \<noteq> from_secs 0"
  shows "get_or_create_owner pm env mgr owner_id None t s =
     Some (Inr new, mgr\<lparr>owners := (owners mgr)(owner_id \<mapsto> new)\<rparr>, SigSetGuard_drop pm g t4, s4)"
proof -
  let ?mgr1 = "mgr\<lparr>owners := (owners mgr)(owner_id := None)\<rparr>"
  have "owner_round pm env owner_id (manager_ttl mgr) False mgr t1 s = Inl (False, ?mgr1, t2, s2)"
    using assms by (simp add: owner_round_def find_or_spawn_def owner_is_dead_def)
  moreover have "owner_round pm env owner_id (manager_ttl mgr) False ?mgr1 t2 s2 =
      Inr (Inr new, mgr\<lparr>owners := (owners mgr)(owner_id \<mapsto> new)\<rparr>, t4, s4)"
    using assms by (simp add: owner_round_def find_or_spawn_def owner_is_dead_def)
  ultimately have "owner_loop pm env owner_id (manager_ttl mgr) False mgr t1 s =
      Some (Inr new, mgr\<lparr>owners := (owners mgr)(owner_id \<mapsto> new)\<rparr>, t4, s4)"
    using owner_loop.simps [of pm env owner_id "manager_ttl mgr" False mgr t1 s]
      owner_loop.simps [of pm env owner_id "manager_ttl mgr" False ?mgr1 t2 s2] by simp
  then show ?thesis using assms(1) by (simp add: get_or_create_owner_def)
qed

text \<open>
  An error of the registration that is not a broken pipe ends the call: it is
  returned to the caller and no owner is restarted. In particular the error number EIO, which an
  owner that is about to exit sends, is not taken for a dead owner.
\<close>

lemma register_error_returned:
  assumes "block_all_signals pm t = (Inr g, t1)"
    and "get_or_create_owner pm env mgr owner_id None t1 s = Some (Inr owner, mgr2, t2, s2)"
    and "Owner_register pm (client_env.truncate env) owner fd t2 s2 = (Inl (Os n), t3, s3)" "n \<noteq> EPIPE"
  shows "LockManager_register pm env mgr owner_id fd t s =
     Some (Inl (Os n), mgr2, SigSetGuard_drop pm g t3, s3)"
proof -
  have "kind (Os n) \<noteq> BrokenPipe"
    using assms(4) by (simp add: decode_error_kind_def error_kind_table_def)
  then have "register_attempt pm env owner fd mgr2 t2 s2 = Inr (Inl (Os n), mgr2, t3, s3)"
    using assms(3) by (simp add: register_attempt_def)
  then show ?thesis
    using assms(1,2) register_loop.simps [of pm env owner_id fd mgr t1 s] by (simp add: LockManager_register_def)
qed

lemma owner_loop_diverges:
  fixes pm :: "'t sigmask_call" and env :: "'s manager_env"
  assumes stay: "\<And>n m t s. Q m \<Longrightarrow>
      \<exists>n1 m1 t1 s1. owner_round pm env owner_id ttl n m t s = Inl (n1, m1, t1, s1) \<and> Q m1"
    and start: "Q m"
  shows "owner_loop pm env owner_id ttl n m t s = None"
proof (rule ccontr)
  assume "owner_loop pm env owner_id ttl n m t s \<noteq> None"
  then obtain res where ret: "owner_loop pm env owner_id ttl n m t s = Some res" by blast
  have "pm = pm \<and> env = env \<and> owner_id = owner_id \<and> ttl = ttl \<longrightarrow> \<not> Q m"
  proof (rule owner_loop.raw_induct [where P = "\<lambda>pm' env' owner_id' ttl' n m t s res.
      pm' = pm \<and> env' = env \<and> owner_id' = owner_id \<and> ttl' = ttl \<longrightarrow> \<not> Q m", OF _ ret], intro impI notI, elim conjE)
    fix loop :: "'t sigmask_call \<Rightarrow> 's manager_env \<Rightarrow> u64 \<Rightarrow> Duration \<Rightarrow> bool \<Rightarrow> LockManager \<Rightarrow> 't \<Rightarrow> 's \<Rightarrow>
        (Owner io_result \<times> LockManager \<times> 't \<times> 's) option"
      and pm' :: "'t sigmask_call" and env' :: "'s manager_env" and owner_id' ttl' n m t s res
    assume IH: "\<And>pm' env' owner_id' ttl' n m t s res. loop pm' env' owner_id' ttl' n m t s = Some res \<Longrightarrow>
        pm' = pm \<and> env' = env \<and> owner_id' = owner_id \<and> ttl' = ttl \<longrightarrow> \<not> Q m"
      and now: "(case owner_round pm' env' owner_id' ttl' n m t s of Inr res \<Rightarrow> Some res
        | Inl (n1, mgr1, t1, s1) \<Rightarrow> loop pm' env' owner_id' ttl' n1 mgr1 t1 s1) = Some res"
      and eqs: "pm' = pm" "env' = env" "owner_id' = owner_id" "ttl' = ttl" and q: "Q m"
    from stay [OF q, of n t s] obtain n1 m1 t1 s1
      where "owner_round pm env owner_id ttl n m t s = Inl (n1, m1, t1, s1)" "Q m1" by blast
    then show False using IH now eqs by simp
  qed
  then show False using start by simp
qed

text \<open>
  Property C39. If every owner process dies before it answers its first ping, as happens when the
  server program cannot run, then \<^verbatim>\<open>get_or_create_owner\<close> with a non-zero time to live never returns:
  it goes on requesting owner processes.
\<close>

theorem dying_owners_livelock:
  assumes "\<forall>s. \<exists>owner s'. request_owner env (manager_comm mgr) ttl s = (Inr owner, s') \<and>
      (\<forall>t. is_err (fst (Owner_ping pm (client_env.truncate env) owner t s')))"
    and "ttl \<noteq> from_secs 0" "owners mgr owner_id = None" "block_all_signals pm t = (Inr g, t1)"
  shows "get_or_create_owner pm env mgr owner_id (Some ttl) t s = None"
proof -
  let ?Q = "\<lambda>m. manager_comm m = manager_comm mgr \<and> owners m owner_id = None"
  have "owner_loop pm env owner_id ttl False mgr t1 s = None"
  proof (rule owner_loop_diverges [where Q = ?Q])
    fix n t s and m :: LockManager assume m: "?Q m"
    obtain owner s1 where req: "request_owner env (manager_comm m) ttl s = (Inr owner, s1)"
      "is_err (fst (Owner_ping pm (client_env.truncate env) owner t s1))"
      using assms(1) [rule_format, of s] m by auto
    let ?m = "m\<lparr>owners := (owners m)(owner_id \<mapsto> owner)\<rparr>"
    have "find_or_spawn env m owner_id ttl n s = (Inr (owner, True), ?m, s1)"
      using req m by (simp add: find_or_spawn_def)
    moreover obtain t2 s2 where "owner_is_dead pm env ttl owner True t s1 = (True, t2, s2)"
      using req(2) assms(2) by (cases "Owner_ping pm (client_env.truncate env) owner t s1") (auto simp: owner_is_dead_def)
    ultimately have "owner_round pm env owner_id ttl n m t s =
        Inl (True, ?m\<lparr>owners := (owners ?m)(owner_id := None)\<rparr>, t2, s2)"
      by (simp add: owner_round_def)
    then show "\<exists>n1 m1 t1 s1. owner_round pm env owner_id ttl n m t s = Inl (n1, m1, t1, s1) \<and> ?Q m1"
      using m by auto
  qed (use assms(3) in simp)
  then show ?thesis using assms(4) by (simp add: get_or_create_owner_def)
qed

text \<open>The coordinator behind socket 99 hands out owners that have exited; the state is the last target.\<close>

definition dying_env :: "fd manager_env" where
  "dying_env =
     \<lparr>net = \<lparr>recvmsg = (\<lambda>_ n _ peek s. (if s = 99
          then if peek then Inr (take n (toy_reply [50]), []) else Inr (toy_reply [50], [ScmRights [50]])
          else Inr ([], []), s)),
        sendmsg = (\<lambda>a bs _ s. (Inr (length bs), a)), socketpair = (\<lambda>s. (Inr (10, 11), s)),
        close_fd = (\<lambda>_ s. s)\<rparr>,
      dup_fd = (\<lambda>fd s. (Inr fd, s)), req_cd = raw_codec, unit_cd = unit_codec, id_cd = u64_codec,
      lock_cd = lock_codec, spawn_cd = duration_codec\<rparr>"

theorem dying_owners_livelock_witness:
  "get_or_create_owner posix_sigmask dying_env (LockManager_new 99) 7 (Some (from_secs 5)) {} 0 = None"
proof (rule dying_owners_livelock)
  show "\<forall>s. \<exists>owner s'. request_owner dying_env (manager_comm (LockManager_new 99)) (from_secs 5) s = (Inr owner, s') \<and>
      (\<forall>t. is_err (fst (Owner_ping posix_sigmask (client_env.truncate dying_env) owner t s')))"
  proof
    fix s
    have send: "send_raw_message (net dying_env) 99 b fds s = send_raw_message (net dying_env) 99 b fds 0" for b fds
      by (simp add: send_raw_message_def dying_env_def drop_fds_def)
    have pair: "socketpair (net dying_env) u = (Inr (10, 11), u)" for u by (simp add: dying_env_def)
    have encoded: "enc (spawn_cd dying_env) d = Some (to_le_bytes 8 (as_secs d) @ to_le_bytes 4 (subsec_nanos d))" for d
      by (simp add: dying_env_def duration_codec_def)
    have "request_owner dying_env 99 (from_secs 5) s = request_owner dying_env 99 (from_secs 5) 0"
      by (simp add: request_owner_def received_owner_def send_request_with_fds_def send_request_iter_with_fds_def send pair encoded)
    also have "\<dots> = (Inr (Owner_new 50), 99)" by code_simp
    finally have req: "request_owner dying_env (manager_comm (LockManager_new 99)) (from_secs 5) s = (Inr (Owner_new 50), 99)"
      by (simp add: LockManager_new_def)
    have "is_err (flatten (fst (send_request (net (client_env.truncate dying_env)) (req_cd (client_env.truncate dying_env))
        (unit_cd (client_env.truncate dying_env)) Ping_serialize (communication (owner_inner (Owner_new 50))) Ping 99)))"
      by code_simp
    then have "is_err (fst (Owner_ping posix_sigmask (client_env.truncate dying_env) (Owner_new 50) t 99))" for t
      by (auto simp: Owner_ping_def block_all_signals_def posix_sigmask_def split: prod.splits)
    then show "\<exists>owner s'. request_owner dying_env (manager_comm (LockManager_new 99)) (from_secs 5) s = (Inr owner, s') \<and>
        (\<forall>t. is_err (fst (Owner_ping posix_sigmask (client_env.truncate dying_env) owner t s')))"
      using req by blast
  qed
  show "from_secs 5 \<noteq> from_secs 0" by (simp add: from_secs_def)
  show "block_all_signals posix_sigmask {} = (Inr (SigSetGuard_new {}), apply_how SIG_BLOCK sigset_all {})"
    by (simp add: block_all_signals_def posix_sigmask_def unblockable_def)
qed (simp add: LockManager_new_def)

section \<open>Clean-up\<close>

lemma cleanup_round_keeps:
  "cleanup_round pm env ids m t s = (m', t', s') \<Longrightarrow>
     m' \<subseteq>\<^sub>m m \<and> (\<forall>i. i \<notin> set ids \<longrightarrow> m' i = m i) \<and> (\<forall>i owner. m' i = Some owner \<longrightarrow> i \<in> set ids \<longrightarrow> answered_ping pm env owner)"
proof (induction ids arbitrary: m t s)
  case (Cons i ids)
  show ?case
  proof (cases "m i")
    case None
    then have ih: "m' \<subseteq>\<^sub>m m" "\<forall>j. j \<notin> set ids \<longrightarrow> m' j = m j"
      "\<forall>j owner. m' j = Some owner \<longrightarrow> j \<in> set ids \<longrightarrow> answered_ping pm env owner"
      using Cons.IH [of m t s] Cons.prems by simp_all
    then have "m' i = None" using None by (cases "i \<in> set ids") (auto simp: map_le_def dom_def)
    then show ?thesis using ih by auto
  next
    case (Some owner)
    obtain r t1 s1 where p: "Owner_ping pm (client_env.truncate env) owner t s = (r, t1, s1)" by (metis surj_pair)
    let ?m = "if is_ok r then m else m(i := None)"
    have ih: "m' \<subseteq>\<^sub>m ?m" "\<forall>j. j \<notin> set ids \<longrightarrow> m' j = ?m j"
      "\<forall>j owner. m' j = Some owner \<longrightarrow> j \<in> set ids \<longrightarrow> answered_ping pm env owner"
      using Cons.IH [of ?m t1 s1] Cons.prems Some p by simp_all
    have "?m \<subseteq>\<^sub>m m" by (auto simp: map_le_def)
    then have le: "m' \<subseteq>\<^sub>m m" using ih(1) map_le_trans by blast
    have "answered_ping pm env o'" if "m' i = Some o'" for o'
    proof -
      have "?m i = Some o'" using ih(1) that by (auto simp: map_le_def dom_def)
      then show ?thesis using Some answered_pingI [OF p] by (auto split: if_splits)
    qed
    then show ?thesis using le ih(2,3) by (auto split: if_splits)
  qed
qed simp

text \<open>The clean-up only ever removes owners, and dropping the manager ends the thread.\<close>

lemma cleanup_thread_keeps:
  "cleanup_thread pm env evs m t s = (ended, m', t', s') \<Longrightarrow> m' \<subseteq>\<^sub>m m"
proof (induction evs arbitrary: m t s)
  case (Cons ev evs)
  obtain e ids where ev: "ev = (e, ids)" by (cases ev)
  show ?case
  proof (cases "e = CleanupTimeout")
    case True
    obtain m1 t1 s1 where r: "cleanup_round pm env ids m t s = (m1, t1, s1)" by (metis surj_pair)
    then have "m' \<subseteq>\<^sub>m m1" using Cons ev True by simp
    then show ?thesis using cleanup_round_keeps [OF r] map_le_trans by blast
  next
    case False
    then show ?thesis using Cons.prems ev by simp
  qed
qed simp



section \<open>A caller on its own\<close>

lemma run_callers_alone:
  "callers c = (st, t) \<Longrightarrow> run_callers pm env owner_id ttl (replicate m c) (callers, mgr, s) =
     (case (caller_step pm env owner_id ttl ^^ m) (st, mgr, t, s) of
        (st', mgr', t', s') \<Rightarrow> (callers(c := (st', t')), mgr', s'))"
proof (induction m arbitrary: callers st t mgr s)
  case (Suc m)
  obtain st1 mgr1 t1 s1 where step: "caller_step pm env owner_id ttl (st, mgr, t, s) = (st1, mgr1, t1, s1)" by (metis surj_pair)
  have "run_callers pm env owner_id ttl (replicate m c) (callers(c := (st1, t1)), mgr1, s1) =
      (case (caller_step pm env owner_id ttl ^^ m) (st1, mgr1, t1, s1) of
        (st', mgr', t', s') \<Rightarrow> (callers(c := (st', t')), mgr', s'))"
    using Suc.IH [of "callers(c := (st1, t1))" st1 t1 mgr1 s1] unfolding fun_upd_same fun_upd_upd by blast
  then show ?case using Suc.prems step by (simp add: funpow_swap1 fun_upd_def)
qed (simp add: fun_upd_idem)

lemma caller_done_stays: "(caller_step pm env owner_id ttl ^^ m) (CDone r, mgr, t, s) = (CDone r, mgr, t, s)"
  by (induction m) simp_all

lemma owner_loop_callers:
  fixes pm :: "'t sigmask_call" and env :: "'s manager_env"
  assumes "owner_loop pm env owner_id ttl n mgr t s = Some res"
  shows "\<exists>m. (caller_step pm env owner_id ttl ^^ m) (CLookup n, mgr, t, s) = (case res of (r, rest) \<Rightarrow> (CDone r, rest))"
proof (rule owner_loop.raw_induct [where P = "\<lambda>pm env owner_id ttl n mgr t s res.
    \<exists>m. (caller_step pm env owner_id ttl ^^ m) (CLookup n, mgr, t, s) = (case res of (r, rest) \<Rightarrow> (CDone r, rest))", OF _ assms])
  fix loop :: "'t sigmask_call \<Rightarrow> 's manager_env \<Rightarrow> u64 \<Rightarrow> Duration \<Rightarrow> bool \<Rightarrow> LockManager \<Rightarrow> 't \<Rightarrow> 's \<Rightarrow>
      (Owner io_result \<times> LockManager \<times> 't \<times> 's) option"
    and pm :: "'t sigmask_call" and env :: "'s manager_env" and owner_id ttl n mgr t s res
  assume IH: "\<And>pm env owner_id ttl n mgr t s res. loop pm env owner_id ttl n mgr t s = Some res \<Longrightarrow>
      \<exists>m. (caller_step pm env owner_id ttl ^^ m) (CLookup n, mgr, t, s) = (case res of (r, rest) \<Rightarrow> (CDone r, rest))"
    and now: "(case owner_round pm env owner_id ttl n mgr t s of Inr res \<Rightarrow> Some res
      | Inl (n1, mgr1, t1, s1) \<Rightarrow> loop pm env owner_id ttl n1 mgr1 t1 s1) = Some res"
  note round = caller_steps_round [of pm env owner_id ttl n mgr t s]
  show "\<exists>m. (caller_step pm env owner_id ttl ^^ m) (CLookup n, mgr, t, s) = (case res of (r, rest) \<Rightarrow> (CDone r, rest))"
  proof (cases "owner_round pm env owner_id ttl n mgr t s")
    case (Inr res')
    then show ?thesis using now round by (intro exI [of _ 3]) (simp split: prod.splits)
  next
    case (Inl cont)
    obtain n1 mgr1 t1 s1 where cont: "cont = (n1, mgr1, t1, s1)" by (metis surj_pair)
    then obtain m where m: "(caller_step pm env owner_id ttl ^^ m) (CLookup n1, mgr1, t1, s1) = (case res of (r, rest) \<Rightarrow> (CDone r, rest))"
      using now Inl IH [of pm env owner_id ttl n1 mgr1 t1 s1 res] by auto
    then have "(caller_step pm env owner_id ttl ^^ (m + 3)) (CLookup n, mgr, t, s) = (case res of (r, rest) \<Rightarrow> (CDone r, rest))"
      unfolding funpow_add comp_apply using round Inl cont by simp
    then show ?thesis by blast
  qed
qed

lemma callers_owner_loop:
  "(caller_step pm env owner_id ttl ^^ m) (CLookup n, mgr, t, s) = (CDone r, mgr', t', s') \<Longrightarrow>
   owner_loop pm env owner_id ttl n mgr t s = Some (r, mgr', t', s')"
proof (induction m arbitrary: n mgr t s rule: less_induct)
  case (less m)
  note round = caller_steps_round [of pm env owner_id ttl n mgr t s]
  have three: "(caller_step pm env owner_id ttl ^^ (m + 3)) (CLookup n, mgr, t, s) = (CDone r, mgr', t', s')"
    using less.prems caller_done_stays [of 3] by (simp only: add.commute [of m] funpow_add comp_apply)
  show ?case
  proof (cases "owner_round pm env owner_id ttl n mgr t s")
    case (Inr res)
    then show ?thesis
      using three round owner_loop.simps [of pm env owner_id ttl n mgr t s]
      by (auto simp: funpow_add caller_done_stays split: prod.splits)
  next
    case (Inl cont)
    obtain n1 mgr1 t1 s1 where cont: "cont = (n1, mgr1, t1, s1)" by (metis surj_pair)
    then have first: "(caller_step pm env owner_id ttl ^^ 3) (CLookup n, mgr, t, s) = (CLookup n1, mgr1, t1, s1)" using round Inl by simp
    have "3 \<le> m"
    proof (rule ccontr)
      assume "\<not> 3 \<le> m"
      then have "(caller_step pm env owner_id ttl ^^ 3) (CLookup n, mgr, t, s) = (caller_step pm env owner_id ttl ^^ (3 - m)) (CDone r, mgr', t', s')"
        using less.prems funpow_add [of "3 - m" m "caller_step pm env owner_id ttl"] by simp
      then show False using first by (simp add: caller_done_stays)
    qed
    then have "(caller_step pm env owner_id ttl ^^ (m - 3)) (CLookup n1, mgr1, t1, s1) = (CDone r, mgr', t', s')"
      using less.prems first funpow_add [of "m - 3" 3 "caller_step pm env owner_id ttl"] by simp
    then have "owner_loop pm env owner_id ttl n1 mgr1 t1 s1 = Some (r, mgr', t', s')"
      using less.IH [of "m - 3"] \<open>3 \<le> m\<close> by simp
    then show ?thesis using Inl cont owner_loop.simps [of pm env owner_id ttl n mgr t s] by simp
  qed
qed


section \<open>Two owners for one identifier\<close>


end
