(* ===== verification/Spec2Isabelle.thy ===== *)
theory Spec2Isabelle
  imports End_To_End Manager
begin

text \<open>
  A verification of \<^verbatim>\<open>ulockmgr\<close>, a lock manager for file systems in user space. A file system process
  uses a \<^verbatim>\<open>LockManager\<close>; it starts one coordinator process, which starts one owner process for each
  lock owner. An owner process holds the locked files of its owner, so that the kernel sees every
  lock owner as a process of its own. The processes talk over Unix sockets; a request carries a
  one-shot socket on which its replies come back. A blocking lock runs in a thread of the owner
  process and is interrupted by SIGUSR1.

  \<^bold>\<open>Parts of the program and their theories.\<close>

  \<^item> \<open>Lock_Prelude\<close>: machine integers, \<^verbatim>\<open>std::io::Error\<close> with the decoding of error numbers, results, durations,
    reachable states, and the two interfaces that all concurrent parts use: \<open>transition_system\<close> (an
    invariant kept by every step) and \<open>refinement\<close> (a component that implements a specification).
  \<^item> \<open>Lock_Types\<close>: \<^verbatim>\<open>src/types.rs\<close>. Conversions between the crate's types and the integers and the
    \<^verbatim>\<open>struct flock\<close> of libc, whose constants are a parameter (locale \<open>libc_abi\<close>).
  \<^item> \<open>Signal_Guard\<close>: \<^verbatim>\<open>src/helpers.rs\<close>. Scope guards over the signal mask; \<^verbatim>\<open>pthread_sigmask\<close> is a
    parameter with the laws of locale \<open>sigmask_api\<close>.
  \<^item> \<open>Wait_Loop\<close>: \<^verbatim>\<open>src/waiter.rs\<close>. Polling loops over crossbeam's \<^verbatim>\<open>Backoff\<close> (locale \<open>backoff_api\<close>).
  \<^item> \<open>Messages\<close>, \<open>Framing\<close>, \<open>Transport\<close>: \<^verbatim>\<open>src/messages.rs\<close>. \<open>Messages\<close> has the request types and their payloads
    (locale \<open>serializable\<close>), \<open>Framing\<close> the frames, the reception with its retries and its two passes, and
    the functions that send requests and replies; \<open>Transport\<close> proves the transport correct for any
    sockets with the laws of locale \<open>unix_sockets\<close> and any payload encoding with those of \<open>codec_api\<close>.
    \<open>Kernel_Instances\<close> interprets both on message queues and on an explicit byte format, and states
    what follows for the code.
  \<^item> \<open>Tracker\<close>: \<^verbatim>\<open>src/tracker.rs\<close>. The tracker of interruptible threads, and its threads and stoppers interleaved.
  \<^item> \<open>Daemon\<close>, \<open>Daemon_System\<close>: the owner process in \<^verbatim>\<open>src/owner.rs\<close>, lines 27 to 454. \<open>Daemon\<close> has the shared state
    and each handler as a function, with both identifier tables as interpretations of the locale
    \<open>id_table\<close>; \<open>Daemon_System\<close> has the process: the receiving thread, a thread for every interrupt,
    unregistration and blocking lock, and the main thread with its time to live, as the step
    relation \<open>owner_step\<close>. \<open>Owner_Loop\<close> has the receiving loop on top of the transport.
  \<^item> \<open>Daemon_Invariant\<close>, \<open>Daemon_Safety\<close>, \<open>Daemon_Progress\<close>, \<open>Registry\<close>: the invariant of the owner process, what
    follows for its clients, its progress, and the specification that it implements. \<open>Daemon_Safety\<close> also
    runs the process along a list of moves (\<open>owner_run\<close>) and compares the thread of a blocking lock with
    the function \<^verbatim>\<open>set_lock_blocking\<close> translated as a whole.
  \<^item> \<open>Sessions\<close>: the replies to a request. Who holds the reply object that \<^verbatim>\<open>create_reply\<close> makes, which
    replies may come on its socket and in which order, and when the socket is closed.
  \<^item> \<open>Client\<close>: \<^verbatim>\<open>src/owner.rs\<close>, lines 456 to 732. \<^verbatim>\<open>Owner\<close> and \<^verbatim>\<open>Lockable\<close> with all operations and drop actions.
  \<^item> \<open>Service\<close>: the owner process of \<open>Daemon_System\<close> on its sockets, and requests of the client from end to end. It also
    has the handler of the receiving loop; with it the loop of \<open>Owner_Loop\<close> is a run of these steps.
  \<^item> \<open>Spawner\<close>: \<^verbatim>\<open>src/owner_spawner.rs\<close>, \<^verbatim>\<open>src/processes.rs\<close>, \<^verbatim>\<open>src/communication.rs\<close> and \<^verbatim>\<open>src/main.rs\<close>. The
    coordinator, the creation of processes with their descriptor tables, and the entry point.
  \<^item> \<open>Manager\<close>: \<^verbatim>\<open>src/lib.rs\<close>. The table of owners, alone and with concurrent callers, and the clean-up thread.
  \<^item> \<open>End_To_End\<close>: the parts of the theorems below: how the threads of a blocking lock and of an unregistration run
    to their end on the sockets, and what the client makes of the frames it finds.

  \<^bold>\<open>Correspondence.\<close> Definitions have the names of the functions they translate, prefixed by the type for
  methods. A \<^verbatim>\<open>Result\<close> is a sum with the error on the left; an \<^verbatim>\<open>io::Error\<close> is an error number of the system or a
  kind. Code that changes state takes the state and returns it: the signal mask of the calling
  thread, the kernel's sockets, the shared state of the owner process. System calls and third-party
  code are parameters. An \<^verbatim>\<open>Arc<FdData>\<close> is a number with a strong count, so a drop that closes a file is a
  visible event. A critical section of a mutex is one step of a transition system; every place where
  a thread can wait is between steps. Identifiers are 64-bit words whose counters wrap around.

  \<^bold>\<open>Loops.\<close> A loop that the code does not bound is a partial function into \<open>option\<close>, where \<open>None\<close> means that it does
  not return: the wait loop, the search for an identifier, the waiting for a lock, the receiving
  loops, the loops of the manager. The theorems say exactly when they return, or that they do not.
  There is no fuel. The stopping of a tracker runs against a list of what the other threads do
  meanwhile, and \<open>stop_terminates\<close> says which lists are long enough.

  \<^bold>\<open>What is shown.\<close> Of the transport: frames and requests arrive unchanged, in order and once, and a reply
  reaches its request. Of the tracker: signals go only to threads in scope, and stopping is complete.
  Of the owner process: reference counts are exact; lock threads work on live files; unregistering
  and interrupting are acknowledged only after the fact; the process exits only when unused; no
  thread is stuck; the process implements the registry of files; every reply has the type that its
  request asks for, replies come in the order of the protocol, and a socket is closed when they are
  complete; and on its sockets the process answers registrations, unregistrations and lock commands
  of a client. Of the client: signal masks are
  restored, an interrupted wait tells the owner and goes on, callbacks are called once, and the result
  of a blocking lock is what the kernel answered, and it understands whatever an owner process sends
  (below). Of the manager: which owner is returned, dead
  owners are replaced, clean-up only removes dead owners, a caller on its own behaves as the loop. Of the
  coordinator: no descriptor leaks, and a request of the manager yields a process that becomes an
  owner with the requested time to live on the other end of the manager's socket (below).

  Some theorems state where the code falls short of its intention: \<open>relock_after_unlock\<close>,
  \<open>truncated_header_livelock\<close>, \<open>two_owners_for_one_id\<close>, \<open>dying_owners_livelock\<close>, \<open>nested_guards_escape_stop\<close>,
  the error number in \<open>register_end_to_end\<close>, and the failed spawn in \<open>spawner_loop_iff\<close>.

  \<^bold>\<open>Not modelled.\<close> Logging; the byte format of the payloads, which the serialization library chooses; what
  goes through the standard streams of child processes (which streams they get is modelled); the reaping of children,
  beyond the outcome of the one \<^verbatim>\<open>waitpid\<close> call; time, except as the order in which a timeout
  and other events come; panics, except in the callbacks of the detached lock and in a handle that
  stops its own thread; poisoned or contended mutexes, except where the code uses \<^verbatim>\<open>try_lock\<close>.
\<close>

section \<open>From the kernel's answers to the caller's result\<close>

text \<open>
  Property C1. The blocking lock from end to end. When a client has sent a blocking request for a
  registered file over an idle connection to an owner process that waits for requests, the process
  can serve it: it starts a thread, which asks the kernel twice about the registered descriptor and
  sends two replies, and afterwards the registry and the other threads are as before. What the
  client's operation then returns, without hanging, is exactly what the kernel's answers mean: the
  lock when the first call or, after a conflict, the second call granted it, and otherwise the error
  number of the call that failed.
\<close>

theorem blocking_end_to_end:
  fixes w :: "('b, 'k) owner_sys"
  assumes chan: "rpc_channel (net env) pending peer socks eof (req_cd env) valid (lock_cd env) (\<lambda>_. True)
      Message_serialize Message_deserialize"
    and sent: "send_request_iter_with_fds (net env) (req_cd env) LockCommand_serialize a cmd s = (Inr one, s1)"
    and idle: "valid (fst (LockCommand_serialize cmd))" "a \<in> socks s" "pending s (peer s a) = []"
    and send_ok: "\<And>child data s2. is_ok (fst (send_raw_message (net env) child data [] s2))"
    and reach: "reachable_from (owner_step bo c fc) (owner_start k) w"
    and waiting: "receiver w = RecvIdle" "tasks w t = None" "command_action cmd = SetLockBlocking"
    and entry: "files (registry_of w) (command_id cmd) = Some fd" "interrupts (shared w) j = None"
    and kernel: "fcntl_setlk fc fd (flock_from c (command_params cmd)) (kern w) = (r1, k1)"
      "fcntl_setlkw fc fd (flock_from c (command_params cmd)) k1 = (r2, k2)"
    and window: "unblock_signal pm SIGUSR1 u = (Inr g, u1)"
  shows "\<exists>w' s2 u' s3. reachable_from (service_step env bo c fc (peer s a)) (w, s1) (w', s2) \<and>
    kern w' = k2 \<and> tasks w' = tasks w \<and> receiver w' = RecvIdle \<and> registry_of w' = registry_of w \<and>
    blocking_receive pm env l one u s2 = Some (blocking_outcome (command_params cmd) r1 r2, u', s3)"
proof -
  let ?m = "Message_LockCommand cmd" and ?lock = "command_params cmd" and ?S = "service_step env bo c fc (peer s a)"
  have ser: "Message_serialize ?m = (fst (LockCommand_serialize cmd), [])" by (cases cmd) simp
  have "send_request_iter_with_fds (net env) (req_cd env) Message_serialize a ?m s = (Inr one, s1)"
    using sent by (simp add: send_iter_cong [of Message_serialize ?m LockCommand_serialize cmd])
  from rpc_channel.request_delivered [OF chan this ser idle]
  obtain child v where v: "receive_request (net env) (req_cd env) Message_deserialize (peer s a) s1 = (Inr (?m, child), v)"
    "peer v child = one" "pending v one = []" "one \<noteq> child" by auto
  obtain w1 p d x where w1: "reachable_from ?S (w, s1) (w1, v)" "tasks w1 = (tasks w)(t \<mapsto> LockTask p x child ?lock LockTry)"
      "receiver w1 = RecvIdle" "heap (shared w1) p = Some d" "descriptor d = fd" "2 \<le> arcs (shared w1) p"
      "interrupts (shared w1) = interrupts (shared w)" "kern w1 = kern w" "registry_of w1 = registry_of w"
    using lock_thread_started [OF v(1) reach waiting entry(1)] by blast
  let ?R = "\<lambda>r. reply (net env) (lock_cd env) (RawReply child) r"
  have task: "tasks w1 t = Some (LockTask p x child ?lock LockTry)" using w1(2) by simp
  obtain w2 i where w2: "reachable_from ?S (w1, v)
        (w2, drop_fds (net env) [child] (?R (second_lock_reply ?lock r2) (?R (first_lock_reply ?lock i r1) v)))"
      "tasks w2 = (tasks w1)(t := None)" "receiver w2 = receiver w1" "kern w2 = k2" "registry_of w2 = registry_of w1"
    using lock_thread_run [OF task w1(4,6), of fc c r1 k1 r2 k2 j env bo "peer s a" v] kernel entry(2) w1(5,7,8) by auto
  let ?v2 = "?R (second_lock_reply ?lock r2) (?R (first_lock_reply ?lock i r1) v)"
  obtain b1 b2 where b: "enc (lock_cd env) (first_lock_reply ?lock i r1) = Some b1"
      "enc (lock_cd env) (second_lock_reply ?lock r2) = Some b2" "pending ?v2 one = [as_pending (b1, []), as_pending (b2, [])]"
    using replies_append [OF chan v(2) send_ok, of "first_lock_reply ?lock i r1" "second_lock_reply ?lock r2"] v(3) by auto
  have "pending (drop_fds (net env) [child] ?v2) one = [as_pending (b1, []), as_pending (b2, [])]"
    using unix_sockets.drop_fds_keeps(1) [of "net env" pending peer socks eof one "[child]" ?v2] chan v(4) b(3)
    by (simp add: rpc_channel_def)
  from replies_to_outcome [OF chan b(1,2) this window, of l] obtain u' s3 where
    "blocking_receive pm env l one u (drop_fds (net env) [child] ?v2) = Some (blocking_outcome ?lock r1 r2, u', s3)"
    by (auto simp: blocking_outcome_def first_lock_reply_def second_lock_reply_def split: sum.splits if_splits)
  moreover have "tasks w2 = tasks w" using w2(2) w1(2) waiting(2) by auto
  ultimately show ?thesis using reachable_from_trans [OF w2(1) w1(1)] w2 w1(3,9) by auto
qed

theorem blocking_end_to_end_witness:
  "\<exists>s1 w w' s2 u' s3. send_request_iter_with_fds (net queue_env) (req_cd queue_env) LockCommand_serialize 0
       (LockCommand 0 SetLockBlocking (whole_file Write)) queue_init = (Inr 2, s1) \<and>
     reachable_from (owner_step step_backoff linux_consts busy_fcntl) (owner_start ()) w \<and>
     reachable_from (service_step queue_env step_backoff linux_consts busy_fcntl (queue_peer 0)) (w, s1) (w', s2) \<and>
     tasks (w' :: (nat, unit) owner_sys) = tasks w \<and>
     blocking_receive posix_sigmask queue_env some_lockable 2 {} s2 = Some (Inl (Os EINTR), u', s3)"
proof -
  let ?cmd = "LockCommand 0 SetLockBlocking (whole_file Write)"
  obtain s1 where s1: "send_request_iter_with_fds (net queue_env) (req_cd queue_env) LockCommand_serialize 0 ?cmd
      queue_init = (Inr 2, s1)" by (rule queue_sent)
  have "map_option (\<lambda>w. (descriptors (shared w) 0, map_option descriptor (heap (shared w) 0), receiver w, tasks w 7, interrupts (shared w) 0))
      (owner_run step_backoff linux_consts busy_fcntl [MReceive (Inr ()) 10 (Message_Register (Register 3)) 100] (owner_start ()))
      = Some (Some 0, Some 3, RecvIdle, None, None)"
    by code_simp
  from run_obtain [OF this] obtain w :: "(nat, unit) owner_sys"
    where w: "reachable_from (owner_step step_backoff linux_consts busy_fcntl) (owner_start ()) w"
      "descriptors (shared w) 0 = Some 0" "map_option descriptor (heap (shared w) 0) = Some 3" "receiver w = RecvIdle"
      "tasks w 7 = None" "interrupts (shared w) 0 = None" by auto
  have entry: "files (registry_of w) (command_id ?cmd) = Some 3"
    using w(2,3) by (auto simp: registry_of_def map_comp_def file_of_def)
  have kernel: "fcntl_setlk busy_fcntl 3 (flock_from linux_consts (command_params ?cmd)) (kern w) = (Inl EAGAIN, ())"
    "fcntl_setlkw busy_fcntl 3 (flock_from linux_consts (command_params ?cmd)) () = (Inl EINTR, ())"
    by (simp_all add: busy_fcntl_def)
  obtain g u1 where window: "unblock_signal posix_sigmask SIGUSR1 {} = (Inr g, u1)"
    by (simp add: unblock_signal_def posix_sigmask_def)
  have act: "command_action ?cmd = SetLockBlocking" by simp
  from blocking_end_to_end [OF queue_channels(2) s1 TrueI queue_idle queue_send_ok w(1) w(4,5) act entry w(6) kernel window, of some_lockable]
  obtain w' :: "(nat, unit) owner_sys" and s2 u' s3 where
    "reachable_from (service_step queue_env step_backoff linux_consts busy_fcntl (queue_peer 0)) (w, s1) (w', s2)"
    "tasks w' = tasks w" "blocking_receive posix_sigmask queue_env some_lockable 2 {} s2 = Some (Inl (Os EINTR), u', s3)"
    by (auto simp: blocking_outcome_def)
  then show ?thesis using s1 w(1) by blast
qed

text \<open>
  Property C4. Unregistering from end to end. When a client has asked to unregister an identifier over
  an idle connection to an owner process that waits for requests, and no thread works on the file,
  the process can serve it: the entry is removed from the registry, the descriptor is closed, and
  then the client reads that the request has succeeded. For an identifier that is not registered
  nothing changes and the client reads the error number ENOENT.
\<close>

theorem unregister_end_to_end:
  fixes w :: "('b, 'k) owner_sys"
  assumes chan: "rpc_channel (net env) pending peer socks eof (req_cd env) valid (unit_cd env) (\<lambda>_. True)
      Message_serialize Message_deserialize"
    and sent: "send_request_iter_with_fds (net env) (req_cd env) Unregister_serialize a (Unregister i) s = (Inr one, s1)"
    and idle: "valid (RawMessage_Unregister i)" "a \<in> socks s" "pending s (peer s a) = []"
    and send_ok: "\<And>child data s2. is_ok (fst (send_raw_message (net env) child data [] s2))"
    and reach: "reachable_from (owner_step bo c fc) (owner_start k) w"
    and waiting: "receiver w = RecvIdle" "tasks w t = None"
    and unused: "\<And>t k p. tasks w t = Some k \<Longrightarrow> descriptors (shared w) i = Some p \<Longrightarrow> holds k \<noteq> Some p \<and> tracked k \<noteq> Some p"
  shows "\<exists>w' s2 s3. reachable_from (service_step env bo c fc (peer s a)) (w, s1) (w', s2) \<and>
    tasks w' = tasks w \<and> receiver w' = RecvIdle \<and> kern w' = kern w \<and>
    (case files (registry_of w) i of
       None \<Rightarrow> first_reply (net env) (unit_cd env) one s2 = (Inr (Inl (Os ENOENT)), s3) \<and> registry_of w' = registry_of w
     | Some fd \<Rightarrow> first_reply (net env) (unit_cd env) one s2 = (Inr (Inr ((), [])), s3) \<and>
         registry_of w' = (registry_of w)\<lparr>files := (files (registry_of w))(i := None), closed := closed (registry_of w) @ [fd]\<rparr>)"
proof -
  let ?m = "Message_Unregister (Unregister i)" and ?S = "service_step env bo c fc (peer s a)"
  have "send_request_iter_with_fds (net env) (req_cd env) Message_serialize a ?m s = (Inr one, s1)"
    using sent by (simp add: send_iter_cong [of Message_serialize ?m Unregister_serialize "Unregister i"])
  from rpc_channel.request_delivered [OF chan this _ idle, of "[]"]
  obtain child v where v: "receive_request (net env) (req_cd env) Message_deserialize (peer s a) s1 = (Inr (?m, child), v)"
    "peer v child = one" "pending v one = []" "one \<noteq> child" by auto
  define w1 where "w1 = set_task t (Some (UnregisterTask child (Unregister i))) (w\<lparr>ttl_queue := True\<rparr>)"
  have start: "?S (w, s1) (w1, v)" unfolding w1_def by (rule unregister_started [OF v(1) waiting])
  then have start': "reachable_from ?S (w, s1) (w1, v)" by (rule reachable_from_single)
  from start have reach1: "reachable_from (owner_step bo c fc) (owner_start k) w1"
    by (intro rf_step [OF reach] service_owner_step)
  have task: "tasks w1 t = Some (UnregisterTask child (Unregister i))" by (simp add: w1_def set_task_def)
  have same: "shared w1 = shared w" "registry_of w1 = registry_of w" "kern w1 = kern w" "receiver w1 = RecvIdle"
    "(tasks w1)(t := None) = tasks w" using waiting by (auto simp: w1_def set_task_def registry_of_def)
  have read: "\<exists>s3. first_reply (net env) (unit_cd env) one (drop_fds (net env) [child] (reply (net env) (unit_cd env) (RawReply child) x v)) =
      (Inr (case x of Inl e \<Rightarrow> Inl (Os e) | Inr y \<Rightarrow> Inr (y, [])), s3)" for x
    by (rule reply_arrives [OF chan v(2-4) send_ok])
  have unknown: "files (registry_of w) i = None \<longleftrightarrow> descriptors (shared w) i = None"
    by (rule files_None_iff [OF reach])
  show ?thesis
  proof (cases "descriptors (shared w) i")
    case None
    then have "descriptors (shared w1) i = None" using same(1) by simp
    from unregister_unknown_run [OF task this, of env bo c fc "peer s a" v]
    show ?thesis using rf_step [where step = ?S, OF start'] read [of "Inl ENOENT"] None unknown same by fastforce
  next
    case (Some p)
    obtain d where d: "heap (shared w) p = Some d" "arcs (shared w) p = 1" "threads (fd_tracker d) = {}"
      using unused_entry [OF reach _ Some] waiting(1) unused [OF _ Some] by auto
    then have entry: "files (registry_of w) i = Some (descriptor d)" using Some by (simp add: registry_of_def file_of_def)
    obtain w2 where w2: "reachable_from ?S (w1, v) (w2, drop_fds (net env) [child] (reply (net env) (unit_cd env) (RawReply child) (Inr ()) v))"
        "tasks w2 = (tasks w1)(t := None)" "receiver w2 = receiver w1" "kern w2 = kern w1"
        "registry_of w2 = (registry_of w1)\<lparr>files := (files (registry_of w1))(i := None), closed := closed (registry_of w1) @ [descriptor d]\<rparr>"
      using unregister_thread_run [OF reach1 task, of p d env "peer s a" v] Some d same(1) by auto
    then show ?thesis
      using reachable_from_trans [OF w2(1) start'] read [of "Inr ()"] entry same by fastforce
  qed
qed

theorem unregister_end_to_end_witness:
  "\<exists>s1 w w' s2 s3. send_request_iter_with_fds (net queue_env) (req_cd queue_env) Unregister_serialize 0 (Unregister 0) queue_init = (Inr 2, s1) \<and>
     reachable_from (owner_step step_backoff linux_consts alone_fcntl) (owner_start {}) w \<and>
     reachable_from (service_step queue_env step_backoff linux_consts alone_fcntl (queue_peer 0)) (w, s1) (w', s2) \<and>
     first_reply (net queue_env) (unit_cd queue_env) 2 s2 = (Inr (Inr ((), [])), s3) \<and>
     closed (registry_of (w' :: (nat, (fd \<times> flock) set) owner_sys)) = [3]"
proof -
  obtain s1 where s1: "send_request_iter_with_fds (net queue_env) (req_cd queue_env) Unregister_serialize 0 (Unregister 0)
      queue_init = (Inr 2, s1)" by (rule queue_sent)
  define w0 :: "(nat, (fd \<times> flock) set) owner_sys" where "w0 = the (run [MReceive (Inr ()) 10 (Message_Register (Register 3)) 100])"
  have "map_option (\<lambda>w. (descriptors (shared w) 0, map_option descriptor (heap (shared w) 0), receiver w, closed_fds (shared w)))
      (run [MReceive (Inr ()) 10 (Message_Register (Register 3)) 100]) = Some (Some 0, Some 3, RecvIdle, [])"
    by code_simp
  then have w: "run [MReceive (Inr ()) 10 (Message_Register (Register 3)) 100] = Some w0"
      "descriptors (shared w0) 0 = Some 0" "map_option descriptor (heap (shared w0) 0) = Some 3" "receiver w0 = RecvIdle"
      "closed_fds (shared w0) = []" by (auto simp: w0_def)
  have reach: "reachable_from (owner_step step_backoff linux_consts alone_fcntl) (owner_start {}) w0"
    using owner_run_reachable [OF w(1)] .
  have none: "tasks w0 = Map.empty" using w(1)
    by (auto simp: receive_request_step_def owner_start_def bind_eq_Some_conv)
  have entry: "files (registry_of w0) 0 = Some 3" "closed (registry_of w0) = []"
    using w(2,3,5) by (auto simp: registry_of_def map_comp_def file_of_def)
  have t: "tasks w0 7 = None" using none by simp
  from unregister_end_to_end [OF queue_channels(3) s1 TrueI queue_idle queue_send_ok reach w(4) t] none entry
  obtain w' :: "(nat, (fd \<times> flock) set) owner_sys" and s2 s3 where
    "reachable_from (service_step queue_env step_backoff linux_consts alone_fcntl (queue_peer 0)) (w0, s1) (w', s2)"
    "first_reply (net queue_env) (unit_cd queue_env) 2 s2 = (Inr (Inr ((), [])), s3)" "closed (registry_of w') = [3]"
    by fastforce
  then show ?thesis using s1 reach by blast
qed

text \<open>
  Property C10. Client and owner process agree on the protocol of the blocking lock, whatever the
  owner's threads do. Take any run of the owner process that has received a blocking request and has
  dropped its reply object, and a client that finds the replies of that run and then the end of the
  stream on its one-shot socket. Its operation returns, and the result is the lock it asked for only
  if the owner has reported this lock as granted; an error number only if the owner has sent it; and
  a broken pipe only if no reply was sent. In particular the client never finds a reply that it does
  not expect, which it would report as invalid data.
\<close>

theorem blocking_client_compatible:
  assumes "rpc_channel (net env) pending peer socks eof cd valid (lock_cd env) (\<lambda>_. True) ser deser"
    and "consts_ok c" "owner_run bo c fc mvs (owner_start k) = Some w" "distinct (map fst (requests mvs))"
    and "(f, Message_LockCommand cmd) \<in> set (requests mvs)" "command_action cmd = SetLockBlocking" "holders w f = {}"
    and "pending s one = session_frames env (replies_on f w)" "eof s one"
    and "unblock_signal pm SIGUSR1 t = (Inr g, t1)"
  shows "\<exists>res t' s'. blocking_receive pm env l one t s = Some (res, t', s') \<and>
    (res = Inr (command_params cmd) \<and> ReplyLock (Inr (Done (command_params cmd))) \<in> set (replies_on f w) \<or>
     (\<exists>e. res = Inl (Os e) \<and> ReplyLock (Inl e) \<in> set (replies_on f w)) \<or>
     res = Inl (Custom BrokenPipe) \<and> replies_on f w = [])"
proof -
  have "map_of (requests mvs) f = Some (Message_LockCommand cmd)" using assms(4,5) by simp
  then have "session_ok (Message_LockCommand cmd) (holders w f) (replies_on f w)"
    using run_start_sessions [OF assms(2-4), unfolded sessions_ok_def, rule_format, of f] by (simp add: session_at_def)
  then have "complete_lock SetLockBlocking (command_params cmd) (replies_on f w)"
    using assms(6,7) by (auto simp: session_ok_def simp del: complete_lock.simps)
  from complete_lock_read [OF assms(1) this assms(8-10)] show ?thesis .
qed

theorem blocking_client_compatible_witness:
  "\<exists>(w :: (nat, unit) owner_sys) t' s'.
     owner_run step_backoff linux_consts busy_fcntl interrupt_moves (owner_start ()) = Some w \<and>
     replies_on 101 w = [ReplyLock (Inr (Pending 0)), ReplyLock (Inl EINTR)] \<and>
     blocking_receive posix_sigmask queue_env some_lockable 2 {}
       (queue_init\<lparr>queues := (\<lambda>_. [])(2 := session_frames queue_env (replies_on 101 w))\<rparr>) = Some (Inl (Os EINTR), t', s')"
proof -
  have "map_option (\<lambda>w. (replies_on 101 w, map (\<lambda>t. Option.bind (tasks w t) task_fd) [10, 20, 40], receiver w))
      (owner_run step_backoff linux_consts busy_fcntl interrupt_moves (owner_start ())) =
    Some ([ReplyLock (Inr (Pending 0)), ReplyLock (Inl EINTR)], [None, None, Some 104], RecvIdle)"
    unfolding interrupt_moves_def locking_moves_def by code_simp
  then obtain w :: "(nat, unit) owner_sys" where
    w: "owner_run step_backoff linux_consts busy_fcntl interrupt_moves (owner_start ()) = Some w"
      "replies_on 101 w = [ReplyLock (Inr (Pending 0)), ReplyLock (Inl EINTR)]" by auto
  have d: "distinct (map fst (requests interrupt_moves))" "(101, owner_request SetLockBlocking Write) \<in> set (requests interrupt_moves)"
    by (simp_all add: interrupt_moves_def locking_moves_def)
  have ok: "session_ok (owner_request SetLockBlocking Write) (holders w 101) (replies_on 101 w)"
    using run_start_sessions [OF linux.abi w(1) d(1), unfolded sessions_ok_def, rule_format, of 101] d
    by (simp add: session_at_def)
  have gone: "holders w 101 = {}" using ok w(2)
    by (auto simp: session_ok_def dest!: two_replies_closed)
  obtain g u1 where window: "unblock_signal posix_sigmask SIGUSR1 {} = (Inr g, u1)"
    by (simp add: unblock_signal_def posix_sigmask_def)
  let ?s = "queue_init\<lparr>queues := (\<lambda>_. [])(2 := session_frames queue_env (replies_on 101 w))\<rparr>"
  have pend: "queues ?s 2 = session_frames queue_env (replies_on 101 w)" by simp
  have act: "command_action (LockCommand 0 SetLockBlocking (whole_file Write)) = SetLockBlocking" by simp
  from blocking_client_compatible [OF queue_channels(2) linux.abi w(1) d act gone pend TrueI window, of some_lockable]
  show ?thesis using w by auto
qed

section \<open>From a request of the manager to a new owner process\<close>

text \<open>
  Property C5. Creating an owner from end to end. When the manager has asked for an owner with some
  time to live over an idle connection to the coordinator, and the operating system starts the
  process, then the coordinator serves the request and goes on, and what the manager makes of the
  reply is an owner on the parent's end of the new socket pair. The program that was started becomes,
  at its entry point, an owner process on the child's end of that pair, with exactly the time to
  live that was asked for, and its descriptor is marked close-on-exec again. Of the command-line
  parser it is assumed that it accepts the declared form of the owner mode, and of starting a process
  that it does not disturb the sockets that exist already.
\<close>

theorem spawn_end_to_end:
  assumes chan: "rpc_channel (net env) pending peer socks eof (spawn_cd env) valid (unit_cd env) (\<lambda>_. True)
      RequestSpawnOwner_serialize RequestSpawnOwner_deserialize"
    and sent: "send_request_iter_with_fds (net env) (spawn_cd env) RequestSpawnOwner_serialize a (RequestSpawnOwner ttl) s = (Inr one, s1)"
    and idle: "valid ttl" "a \<in> socks s" "pending s (peer s a) = []"
    and send_ok: "\<And>child data p s2. is_ok (fst (send_raw_message (net env) child data [p] s2))"
    and started: "\<And>x. \<exists>p q x1. spawn_outcomes sk x = ((Inr (p, q), Inr (), Inr ()), x1) \<and> p \<notin> socks x \<and>
      (\<forall>tab b. b \<in> socks x \<longrightarrow> pending (set_table sk tab x1) b = pending x b \<and> peer (set_table sk tab x1) b = peer x b)"
    and parser: "\<And>fd secs nsecs. parse [''owner'', show_nat fd, ''--ttl-secs'', show_nat (unat secs),
      ''--ttl-nsecs'', show_nat (unat nsecs)] = Some (OwnerMode fd secs nsecs)"
    and nanos: "unat (subsec_nanos ttl) < 1000000000"
  shows "\<exists>child u p q u1 tab' ctab s2 s3.
    receive_request (net env) (spawn_cd env) RequestSpawnOwner_deserialize (peer s a) s1 =
      (Inr (RequestSpawnOwner ttl, child), u) \<and>
    spawn_outcomes sk u = ((Inr (p, q), Inr (), Inr ()), u1) \<and>
    spawner_loop (net env) (spawn_cd env) (unit_cd env) (coordinator_spawn sk) (peer s a) s1 =
      spawner_loop (net env) (spawn_cd env) (unit_cd env) (coordinator_spawn sk) (peer s a) s2 \<and>
    (case first_reply (net env) (unit_cd env) one s2 of (res, s') \<Rightarrow> received_owner env res s') = (Inr (Owner_new p), s3) \<and>
    spawn_owner_process (debug_build sk) (Inr (p, q)) (Inr ()) (Inr ()) ttl (table_of sk u1) =
      (Inr p, tab', Some (owner_command (debug_build sk) q ttl, ctab)) \<and>
    server_main parse None None (arguments (owner_command (debug_build sk) q ttl)) ctab =
      (Some (Inr (RunOwner q ttl)), ctab(q \<mapsto> True))"
proof -
  let ?k = "net env" and ?req = "RequestSpawnOwner ttl"
  have sockets: "unix_sockets ?k pending peer socks eof" using chan by (simp add: rpc_channel_def)
  from rpc_channel.request_delivered [OF chan sent _ idle, of "[]"]
  obtain child u where u: "receive_request ?k (spawn_cd env) RequestSpawnOwner_deserialize (peer s a) s1 = (Inr (?req, child), u)"
    "peer u child = one" "pending u one = []" "one \<noteq> child" "one \<in> socks u" "child \<in> socks u" by auto
  obtain p q u1 where spawn: "spawn_outcomes sk u = ((Inr (p, q), Inr (), Inr ()), u1)" "p \<notin> socks u"
      "\<And>tab b. b \<in> socks u \<Longrightarrow> pending (set_table sk tab u1) b = pending u b \<and> peer (set_table sk tab u1) b = peer u b"
    using started [of u] by blast
  let ?tab = "table_of sk u1"
  have "\<exists>tab' ctab. spawn_owner_process (debug_build sk) (Inr (p, q)) (Inr ()) (Inr ()) ttl ?tab =
      (Inr p, tab', Some (owner_command (debug_build sk) q ttl, ctab))"
    by (simp add: spawn_owner_process_def spawn_process_def clear_cloexec_in_pre_exec_def Let_def)
  then obtain tab' ctab where proc: "spawn_owner_process (debug_build sk) (Inr (p, q)) (Inr ()) (Inr ()) ttl ?tab =
      (Inr p, tab', Some (owner_command (debug_build sk) q ttl, ctab))" by blast
  let ?u2 = "set_table sk tab' u1"
  have cs: "coordinator_spawn sk ttl u = (Inr p, ?u2)" using spawn(1) proc by (simp add: coordinator_spawn_def)
  let ?s2 = "close_fd ?k child (reply_with_fds ?k (unit_cd env) (RawReply child) (Inr ()) [p] ?u2)"
  have served: "spawner_loop ?k (spawn_cd env) (unit_cd env) (coordinator_spawn sk) (peer s a) s1 =
      spawner_loop ?k (spawn_cd env) (unit_cd env) (coordinator_spawn sk) (peer s a) ?s2"
    using u(1) cs by (subst spawner_loop.simps) simp
  have quiet: "peer ?u2 child = one" "pending ?u2 one = []" using spawn(3) u(2,3,5,6) by simp_all
  have far: "one \<notin> set [p]" using spawn(2) u(5) by auto
  obtain s3 where "first_reply ?k (unit_cd env) one ?s2 = (Inr (Inr ((), [p])), s3)"
    using reply_fds_arrive [OF chan quiet far u(4) send_ok, of "()"] by auto
  then have "(case first_reply ?k (unit_cd env) one ?s2 of (res, s') \<Rightarrow> received_owner env res s') = (Inr (Owner_new p), s3)"
    by (simp add: received_owner_def flatten_def)
  moreover have "server_main parse None None (arguments (owner_command (debug_build sk) q ttl)) ctab =
      (Some (Inr (RunOwner q ttl)), ctab(q \<mapsto> True))"
    by (rule owner_entry_point [OF parser nanos])
  ultimately show ?thesis using u(1) spawn(1) served proc by blast
qed

text \<open>The queue model with a process that is always started.\<close>

definition queue_manager_env :: "queue_kernel manager_env" where
  "queue_manager_env = client_env.extend queue_env \<lparr>spawn_cd = duration_codec\<rparr>"

definition queue_spawn :: "queue_kernel spawn_kernel" where
  "queue_spawn = \<lparr>debug_build = False,
     spawn_outcomes = (\<lambda>s. case queue_socketpair s of (r, s1) \<Rightarrow> ((r, Inr (), Inr ()), s1)),
     table_of = (\<lambda>_. Map.empty), set_table = (\<lambda>_ s. s)\<rparr>"

theorem spawn_end_to_end_witness:
  "\<exists>s1 s2. send_request_iter_with_fds (net queue_manager_env) (spawn_cd queue_manager_env) RequestSpawnOwner_serialize 0
       (RequestSpawnOwner (from_millis 1500)) queue_init = (Inr 2, s1) \<and>
     spawner_loop (net queue_manager_env) (spawn_cd queue_manager_env) (unit_cd queue_manager_env) (coordinator_spawn queue_spawn)
       (queue_peer 0) s1 =
     spawner_loop (net queue_manager_env) (spawn_cd queue_manager_env) (unit_cd queue_manager_env) (coordinator_spawn queue_spawn)
       (queue_peer 0) s2 \<and>
     (\<exists>p q ctab s3. (case first_reply (net queue_manager_env) (unit_cd queue_manager_env) 2 s2 of
         (res, s') \<Rightarrow> received_owner queue_manager_env res s') = (Inr (Owner_new p), s3) \<and>
       fst (server_main read_owner None None (arguments (owner_command False q (from_millis 1500))) ctab) =
         Some (Inr (RunOwner q (from_millis 1500))))"
proof -
  have env: "net queue_manager_env = queue_sockets" "spawn_cd queue_manager_env = duration_codec"
      "unit_cd queue_manager_env = unit_codec" and dbg: "debug_build queue_spawn = False"
    by (simp_all add: queue_manager_env_def queue_env_def queue_spawn_def client_env.defs)
  have chan: "rpc_channel (net queue_manager_env) queues (\<lambda>_. queue_peer) (\<lambda>s. {..< 2 * pairs s}) (\<lambda>_ _. True)
      (spawn_cd queue_manager_env) (\<lambda>_. True) (unit_cd queue_manager_env) (\<lambda>_. True)
      RequestSpawnOwner_serialize RequestSpawnOwner_deserialize"
    unfolding env by (intro rpc_channel.intro queue.unix_sockets_axioms duration.codec_api_axioms
        unit_reply.codec_api_axioms spawn_owner.serializable_axioms)
  obtain s1 where s1: "send_request_iter_with_fds (net queue_manager_env) (spawn_cd queue_manager_env) RequestSpawnOwner_serialize 0
      (RequestSpawnOwner (from_millis 1500)) queue_init = (Inr 2, s1)"
    using queue_request_codec [of duration_codec RequestSpawnOwner_serialize "RequestSpawnOwner (from_millis 1500)" 0 queue_init]
    by (auto simp: env queue_init_def duration_codec_def)
  have ok: "is_ok (fst (send_raw_message (net queue_manager_env) child data [p] s))" for child data p s
    using queue_send [of child data "[p]" s] unfolding env by auto
  have started: "\<exists>p q x1. spawn_outcomes queue_spawn x = ((Inr (p, q), Inr (), Inr ()), x1) \<and> p \<notin> {..< 2 * pairs x} \<and>
      (\<forall>tab b. b \<in> {..< 2 * pairs x} \<longrightarrow> queues (set_table queue_spawn tab x1) b = queues x b \<and> queue_peer b = queue_peer b)" for x
    by (simp add: queue_spawn_def queue_socketpair_def)
  have n: "unat (subsec_nanos (from_millis 1500)) < 1000000000" by (simp add: from_millis_def)
  from spawn_end_to_end [OF chan s1 TrueI queue_idle ok started read_owner_form n]
  obtain p q ctab s2 s3 where
    "spawner_loop (net queue_manager_env) (spawn_cd queue_manager_env) (unit_cd queue_manager_env) (coordinator_spawn queue_spawn)
       (queue_peer 0) s1 =
     spawner_loop (net queue_manager_env) (spawn_cd queue_manager_env) (unit_cd queue_manager_env) (coordinator_spawn queue_spawn)
       (queue_peer 0) s2"
    "(case first_reply (net queue_manager_env) (unit_cd queue_manager_env) 2 s2 of
         (res, s') \<Rightarrow> received_owner queue_manager_env res s') = (Inr (Owner_new p), s3)"
    "server_main read_owner None None (arguments (owner_command False q (from_millis 1500))) ctab =
         (Some (Inr (RunOwner q (from_millis 1500))), ctab(q \<mapsto> True))" unfolding dbg by blast
  then show ?thesis using s1 fst_conv by metis
qed

end
